(* ===== verification/Prelude.thy ===== *)
theory Prelude
  imports Main "HOL-Library.Word"
begin

text \<open>
  The prelude of the development: the machine-integer types of \<open>kernel/types.h\<close>, the outcome
  type and the state-and-failure monad in which the kernel's C functions are written, the
  abstract spin locks that the components take and release, byte-addressed physical memory with
  64-bit little-endian loads and stores, and read-only views of C strings.  The lemmas here are
  the ones that several components share.
\<close>

unbundle bit_operations_syntax

section \<open>Machine integers\<close>

type_synonym uchar = "8 word"
type_synonym ushort = "16 word"
type_synonym uint32 = "32 word"
type_synonym uint64 = "64 word"
type_synonym addr = "64 word"

lemma unat32_less: "unat (n :: uint32) < 4294967296"
  using unsigned_less [of n] by simp

lemma unat_ucast_32_64 [simp]: "unat (ucast (n :: uint32) :: uint64) = unat n"
  using unat32_less [of n] by (simp add: unsigned_ucast_eq take_bit_nat_eq_self)

section \<open>Locks and wait channels\<close>

text \<open>
  One constructor per spin lock of the kernel (the code's \<open>struct spinlock\<close> objects), and one
  per address that the code passes to \<open>sleep\<close> and \<open>wakeup\<close>.
\<close>

datatype lock =
    KmemLock | PidLock | WaitLock | ProcLock nat | RingbufLock | PipeLock addr
  | BcacheLock | LogLock | IcacheLock | FtableLock | ConsLock | UartLock | TicksLock
  | VdiskLock | PrLock | BufLk nat | InodeLk nat

datatype chan =
    ChanProc nat | ChanPipeRead addr | ChanPipeWrite addr | ChanLog | ChanBufLock nat
  | ChanInodeLock nat | ChanTicks | ChanUart | ChanCons | ChanDisk | ChanBuf nat

section \<open>Outcomes and the kernel monad\<close>

text \<open>
  A kernel function maps a state to an outcome: it returns a value in a new state, it calls
  \<open>panic\<close> (which never returns), it goes to sleep on a channel, or it runs into undefined
  behaviour of C (an array access out of range, an uninitialised read).
\<close>

datatype ('s, 'a) outcome = Ret 'a 's | Panic string | Sleep chan 's | Undef string

type_synonym ('s, 'a) kfun = "'s \<Rightarrow> ('s, 'a) outcome"

definition ret :: "'a \<Rightarrow> ('s, 'a) kfun" where
  "ret a s = Ret a s"

definition bnd :: "('s, 'a) kfun \<Rightarrow> ('a \<Rightarrow> ('s, 'b) kfun) \<Rightarrow> ('s, 'b) kfun" where
  "bnd m k s = (case m s of
       Ret a s' \<Rightarrow> k a s'
     | Panic e \<Rightarrow> Panic e
     | Sleep c s' \<Rightarrow> Sleep c s'
     | Undef e \<Rightarrow> Undef e)"

definition thn :: "('s, 'a) kfun \<Rightarrow> ('s, 'b) kfun \<Rightarrow> ('s, 'b) kfun" where
  "thn m n = bnd m (\<lambda>_. n)"

definition gets :: "('s \<Rightarrow> 'a) \<Rightarrow> ('s, 'a) kfun" where
  "gets f s = Ret (f s) s"

definition modify :: "('s \<Rightarrow> 's) \<Rightarrow> ('s, unit) kfun" where
  "modify f s = Ret () (f s)"

definition panic :: "string \<Rightarrow> ('s, 'a) kfun" where
  "panic e s = Panic e"

definition undef :: "string \<Rightarrow> ('s, 'a) kfun" where
  "undef e s = Undef e"

definition sleep_on :: "chan \<Rightarrow> ('s, 'a) kfun" where
  "sleep_on c s = Sleep c s"

named_theorems monad_simps \<open>equations that run the kernel monad\<close>

lemma run_ret [monad_simps]: "ret a s = Ret a s"
  by (simp add: ret_def)

lemma run_gets [monad_simps]: "gets f s = Ret (f s) s"
  by (simp add: gets_def)

lemma run_modify [monad_simps]: "modify f s = Ret () (f s)"
  by (simp add: modify_def)

lemma run_panic [monad_simps]: "panic e s = Panic e"
  by (simp add: panic_def)

lemma run_undef [monad_simps]: "undef e s = Undef e"
  by (simp add: undef_def)

lemma run_sleep_on [monad_simps]: "sleep_on c s = Sleep c s"
  by (simp add: sleep_on_def)

lemma run_bnd [monad_simps]:
  "m s = Ret a s' \<Longrightarrow> bnd m k s = k a s'"
  "m s = Panic e \<Longrightarrow> bnd m k s = Panic e"
  "m s = Sleep c s' \<Longrightarrow> bnd m k s = Sleep c s'"
  "m s = Undef e \<Longrightarrow> bnd m k s = Undef e"
  by (simp_all add: bnd_def)

lemma run_thn [monad_simps]:
  "m s = Ret a s' \<Longrightarrow> thn m n s = n s'"
  "m s = Panic e \<Longrightarrow> thn m n s = Panic e"
  "m s = Sleep c s' \<Longrightarrow> thn m n s = Sleep c s'"
  "m s = Undef e \<Longrightarrow> thn m n s = Undef e"
  by (simp_all add: thn_def bnd_def)

lemma bnd_Ret_iff:
  "bnd m k s = Ret b t \<longleftrightarrow> (\<exists>a s'. m s = Ret a s' \<and> k a s' = Ret b t)"
  by (simp add: bnd_def split: outcome.splits)

lemma thn_Ret_iff:
  "thn m n s = Ret b t \<longleftrightarrow> (\<exists>a s'. m s = Ret a s' \<and> n s' = Ret b t)"
  by (simp add: thn_def bnd_Ret_iff)

text \<open>A run of the monad turned inside out: what must have happened for it to return.\<close>

lemmas returns_iff =
  bnd_Ret_iff thn_Ret_iff run_ret run_gets run_modify run_panic run_undef run_sleep_on

lemma bnd_Sleep_iff:
  "bnd m k s = Sleep c t \<longleftrightarrow> m s = Sleep c t \<or> (\<exists>a s'. m s = Ret a s' \<and> k a s' = Sleep c t)"
  by (auto simp: bnd_def split: outcome.splits)

lemma thn_Sleep_iff:
  "thn m n s = Sleep c t \<longleftrightarrow> m s = Sleep c t \<or> (\<exists>a s'. m s = Ret a s' \<and> n s' = Sleep c t)"
  by (simp add: thn_def bnd_Sleep_iff)

text \<open>Likewise for a run that goes to sleep.\<close>

lemmas sleeps_iff =
  bnd_Sleep_iff thn_Sleep_iff run_ret run_gets run_modify run_panic run_undef run_sleep_on

lemma bnd_cong [fundef_cong]:
  assumes "s = s'" and "m s' = m' s'" and "\<And>a t. m' s' = Ret a t \<Longrightarrow> k a t = k' a t"
  shows "bnd m k s = bnd m' k' s'"
  using assms by (simp add: bnd_def split: outcome.splits)

lemma thn_cong [fundef_cong]:
  assumes "s = s'" and "m s' = m' s'" and "\<And>a t. m' s' = Ret a t \<Longrightarrow> n t = n' t"
  shows "thn m n s = thn m' n' s'"
  unfolding thn_def using assms by (intro bnd_cong) auto

lemma if_run_cong [fundef_cong]:
  assumes "c = c'" and "s = s'" and "c' \<Longrightarrow> f s' = f' s'" and "\<not> c' \<Longrightarrow> g s' = g' s'"
  shows "(if c then f else g) s = (if c' then f' else g') s'"
  using assms by simp

text \<open>The result of a function that may be undefined.\<close>

definition lift_option :: "string \<Rightarrow> 'a option \<Rightarrow> ('s, 'a) kfun" where
  "lift_option e x = (case x of None \<Rightarrow> undef e | Some v \<Rightarrow> ret v)"

text \<open>A \<open>for\<close> loop over a fixed list of values.\<close>

primrec for_each :: "'a list \<Rightarrow> ('a \<Rightarrow> ('s, unit) kfun) \<Rightarrow> ('s, unit) kfun" where
  "for_each [] f = ret ()"
| "for_each (x # xs) f = thn (f x) (for_each xs f)"

primrec mapM :: "('a \<Rightarrow> ('s, 'b) kfun) \<Rightarrow> 'a list \<Rightarrow> ('s, 'b list) kfun" where
  "mapM f [] = ret []"
| "mapM f (x # xs) = bnd (f x) (\<lambda>y. bnd (mapM f xs) (\<lambda>ys. ret (y # ys)))"

lemma for_each_append: "for_each (xs @ ys) f = thn (for_each xs f) (for_each ys f)"
  by (induction xs) (auto simp: fun_eq_iff thn_def bnd_def ret_def split: outcome.splits)

lemma for_each_invariant:
  assumes "for_each xs f s = Ret u t" and "I s"
    and "\<And>x a a' v. x \<in> set xs \<Longrightarrow> I a \<Longrightarrow> f x a = Ret v a' \<Longrightarrow> I a'"
  shows "I t"
  using assms by (induction xs arbitrary: s) (auto simp: returns_iff)

section \<open>Abstract spin locks\<close>

text \<open>
  Components take and release locks through the list of locks that the running hart holds.
  \<open>acquire\<close> panics on a lock that this hart already holds and \<open>release\<close> on one that it does not
  hold, as in \<open>kernel/spinlock.c\<close>; waiting for another hart does not show in a sequential run.
  The theory \<open>Spinlock\<close> models the locks themselves, with the atomic swap and the interrupt
  nesting, and shows that they implement this interface.
\<close>

record kstate =
  held :: "lock list"

definition acquire :: "lock \<Rightarrow> ('z kstate_scheme, unit) kfun" where
  "acquire l s = (if l \<in> set (held s) then Panic ''acquire''
                  else Ret () (s\<lparr>held := l # held s\<rparr>))"

definition release :: "lock \<Rightarrow> ('z kstate_scheme, unit) kfun" where
  "release l s = (if l \<notin> set (held s) then Panic ''release''
                  else Ret () (s\<lparr>held := remove1 l (held s)\<rparr>))"

definition initlock :: "lock \<Rightarrow> ('z kstate_scheme, unit) kfun" where
  "initlock l = modify (\<lambda>s. s\<lparr>held := removeAll l (held s)\<rparr>)"

lemma run_initlock [monad_simps]: "initlock l s = Ret () (s\<lparr>held := removeAll l (held s)\<rparr>)"
  by (simp add: initlock_def modify_def)

lemma run_acquire [monad_simps]:
  "l \<notin> set (held s) \<Longrightarrow> acquire l s = Ret () (s\<lparr>held := l # held s\<rparr>)"
  "l \<in> set (held s) \<Longrightarrow> acquire l s = Panic ''acquire''"
  by (simp_all add: acquire_def)

lemma run_release [monad_simps]:
  "l \<in> set (held s) \<Longrightarrow> release l s = Ret () (s\<lparr>held := remove1 l (held s)\<rparr>)"
  "l \<notin> set (held s) \<Longrightarrow> release l s = Panic ''release''"
  by (simp_all add: release_def)

lemma acquire_Ret_iff:
  "acquire l s = Ret u t \<longleftrightarrow> l \<notin> set (held s) \<and> t = s\<lparr>held := l # held s\<rparr>"
  by (auto simp: acquire_def)

lemma release_Ret_iff:
  "release l s = Ret u t \<longleftrightarrow> l \<in> set (held s) \<and> t = s\<lparr>held := remove1 l (held s)\<rparr>"
  by (auto simp: release_def)

lemma lock_no_Sleep [simp]: "acquire l s \<noteq> Sleep c t" "release l s \<noteq> Sleep c t"
  by (simp_all add: acquire_def release_def)

section \<open>Byte-addressed memory\<close>

type_synonym pmem = "addr \<Rightarrow> uchar"

text \<open>Little-endian loads and stores of \<open>k\<close> bytes; \<open>in_range a n b\<close>: \<open>b\<close> is one of the \<open>n\<close> bytes
  from \<open>a\<close> on (addresses wrap at \<open>2 ^ 64\<close>).\<close>

primrec load_le :: "pmem \<Rightarrow> addr \<Rightarrow> nat \<Rightarrow> 'w::len word" where
  "load_le m a 0 = 0"
| "load_le m a (Suc k) = ucast (m a) OR push_bit 8 (load_le m (a + 1) k)"

primrec store_le :: "nat \<Rightarrow> pmem \<Rightarrow> addr \<Rightarrow> 'w::len word \<Rightarrow> pmem" where
  "store_le 0 m a v = m"
| "store_le (Suc k) m a v = (store_le k m (a + 1) (drop_bit 8 v))(a := ucast v)"

definition load64 :: "pmem \<Rightarrow> addr \<Rightarrow> uint64" where
  "load64 m a = load_le m a 8"

definition store64 :: "pmem \<Rightarrow> addr \<Rightarrow> uint64 \<Rightarrow> pmem" where
  "store64 m a v = store_le 8 m a v"

definition in_range :: "addr \<Rightarrow> nat \<Rightarrow> addr \<Rightarrow> bool" where
  "in_range a n b \<longleftrightarrow> unat (b - a) < n"
lemma in_range_step: "in_range a (Suc n) b \<longleftrightarrow> b = a \<or> in_range (a + 1) n b" if "n < 2 ^ 64"
proof (cases "b = a")
  case False
  then have nz: "b - a \<noteq> 0" by simp
  have "unat (b - (a + 1)) = unat (b - a) - 1"
    using unat_minus_one [OF nz] by (simp add: diff_diff_eq)
  moreover have "unat (b - a) > 0" using nz by (simp add: unat_gt_0)
  ultimately show ?thesis using False by (simp add: in_range_def) linarith
qed (simp add: in_range_def)

lemma in_range_pred [simp]: "n < 2 ^ 64 \<Longrightarrow> \<not> in_range (a + 1) n a"
  by (simp add: in_range_def unsigned_minus_1_eq_mask mask_eq_exp_minus_1)

lemma in_range_0 [simp]: "\<not> in_range a 0 b"
  by (simp add: in_range_def)

lemma store_le_other: "\<not> in_range a k b \<Longrightarrow> k \<le> 2 ^ 64 \<Longrightarrow> store_le k m a v b = m b"
proof (induction k arbitrary: a v)
  case (Suc k)
  then show ?case by (auto simp: in_range_step)
qed simp

lemma load_le_cong: "(\<And>b. in_range a k b \<Longrightarrow> m b = m' b) \<Longrightarrow> k \<le> 2 ^ 64 \<Longrightarrow> load_le m a k = load_le m' a k"
proof (induction k arbitrary: a)
  case (Suc k)
  then show ?case by (auto simp: in_range_step)
qed simp

lemma load_store_le: "k \<le> 2 ^ 63 \<Longrightarrow> load_le (store_le k m a v) a k = take_bit (8 * k) (v::'w::len word)"
proof (induction k arbitrary: a v m)
  case (Suc k)
  have "load_le (store_le (Suc k) m a v) (a + 1) k = load_le (store_le k m (a + 1) (drop_bit 8 v)) (a + 1) k"
  proof (rule load_le_cong)
    fix b assume "in_range (a + 1) k b"
    then have "b \<noteq> a" using Suc.prems in_range_pred [of k a] by auto
    then show "store_le (Suc k) m a v b = store_le k m (a + 1) (drop_bit 8 v) b" by simp
  qed (use Suc.prems in simp)
  also have "\<dots> = take_bit (8 * k) (drop_bit 8 v)" using Suc by simp
  finally have "load_le (store_le (Suc k) m a v) a (Suc k) = ucast (ucast v :: 8 word) OR push_bit 8 (take_bit (8 * k) (drop_bit 8 v))"
    by simp
  also have "\<dots> = take_bit (8 * Suc k) v"
    by (rule bit_eqI) (auto simp: bit_simps not_less)
  finally show ?case .
qed simp

lemma unat_diff_less:
  "unat ((b::'w::len word) - a) < n \<Longrightarrow> \<exists>i<n. b = a + of_nat i"
  by (rule exI [of _ "unat (b - a)"]) simp

lemma in_range_iff: "n \<le> 2 ^ 64 \<Longrightarrow> in_range a n b \<longleftrightarrow> (\<exists>i<n. b = a + of_nat i)"
  by (auto simp: in_range_def unat_of_nat dest: unat_diff_less)

text \<open>Ranges that do not wrap, as intervals.\<close>

lemma in_range_nat:
  assumes "unat d + n \<le> 2 ^ 64"
  shows "in_range d n a \<longleftrightarrow> unat d \<le> unat a \<and> unat a < unat d + n"
proof (cases "d \<le> a")
  case True
  then show ?thesis by (auto simp: in_range_def unat_sub word_le_nat_alt)
next
  case False
  then have "unat a < unat d" by (simp add: word_le_nat_alt)
  moreover have "unat (a - d) = 2 ^ 64 + unat a - unat d"
    using calculation unsigned_less [of d] unat_sub_if_size [of a d] by (simp add: word_size word_le_nat_alt)
  ultimately show ?thesis using assms by (simp add: in_range_def)
qed

lemma unat_shift:
  assumes "unat d \<le> unat a" and "unat s + (unat a - unat d) < 2 ^ 64"
  shows "unat (s + (a - d)) = unat s + (unat a - unat (d::addr))"
  using assms by (simp add: unat_word_ariths unat_sub word_le_nat_alt)

lemma load64_store64 [simp]: "load64 (store64 m a v) a = v"
  by (simp add: load64_def store64_def load_store_le take_bit_word_eq_self)

text \<open>Loading some bytes and storing them elsewhere copies them.\<close>

lemma bit_load_le: "bit (load_le m a k :: 'w::len word) i \<Longrightarrow> i < 8 * k"
proof (induction k arbitrary: a i)
  case (Suc k)
  then show ?case by (cases "i < 8") (auto simp: bit_simps dest!: Suc.IH dest: bit_imp_le_length)
qed simp

lemma drop_load_le:
  assumes "8 * Suc k \<le> LENGTH('w::len)"
  shows "drop_bit 8 (load_le m a (Suc k) :: 'w word) = load_le m (a + 1) k"
    and "ucast (load_le m a (Suc k) :: 'w word) = m a"
proof -
  have "\<not> bit (m a) (8 + i)" for i using bit_imp_le_length [of "m a" "8 + i"] by auto
  moreover have "8 + i < LENGTH('w)" if "bit (load_le m (a + 1) k :: 'w word) i" for i
    using bit_load_le [OF that] assms by simp
  ultimately show "drop_bit 8 (load_le m a (Suc k) :: 'w word) = load_le m (a + 1) k"
    by (intro bit_word_eqI) (auto simp: bit_simps)
  show "ucast (load_le m a (Suc k) :: 'w word) = m a"
    by (rule bit_word_eqI) (use assms in \<open>auto simp: bit_simps\<close>)
qed

lemma store_load_le:
  assumes "8 * k \<le> LENGTH('w::len)" and "k \<le> 2 ^ 63"
  shows "store_le k m' d (load_le m s k :: 'w word) a = (if in_range d k a then m (s + (a - d)) else m' a)"
  using assms
proof (induction k arbitrary: d s)
  case (Suc k)
  have "k < 2 ^ 64" using Suc.prems(2) by simp
  have "store_le (Suc k) m' d (load_le m s (Suc k) :: 'w word) a =
      ((store_le k m' (d + 1) (load_le m (s + 1) k :: 'w word))(d := m s)) a"
    using Suc.prems(1) by (simp only: store_le.simps drop_load_le)
  also have "\<dots> = (if in_range d (Suc k) a then m (s + (a - d)) else m' a)"
    using Suc.IH [of "d + 1" "s + 1"] Suc.prems in_range_step [OF \<open>k < 2 ^ 64\<close>, of d a] by auto
  finally show ?case .
qed simp

lemma store64_load64:
  "store64 m d (load64 m s) a = (if in_range d 8 a then m (s + (a - d)) else m a)"
  unfolding store64_def load64_def by (rule store_load_le) simp_all

lemma store64_other: "\<not> in_range a 8 b \<Longrightarrow> store64 m a v b = m b"
  by (simp add: store64_def store_le_other)

lemma load64_of_zero: "load64 (\<lambda>_. 0) a = 0"
  by (simp add: load64_def eval_nat_numeral)

lemma load64_cong: "(\<And>b. in_range a 8 b \<Longrightarrow> m b = m' b) \<Longrightarrow> load64 m a = load64 m' a"
  unfolding load64_def by (rule load_le_cong) auto

lemma aligned8_cut:
  assumes "8 dvd unat (x::addr)" and "unat (c - x) < 8"
  shows "unat x = unat c div 8 * 8"
proof -
  obtain k where k: "unat x = 8 * k" using assms(1) by blast
  have "unat x < 2 ^ 64" using unsigned_less [of x] by simp
  with k have k64: "8 * k + 8 \<le> 2 ^ 64" by simp
  have "unat c = (unat x + unat (c - x)) mod 2 ^ 64"
    using unat_word_ariths(1) [of x "c - x"] by simp
  with k k64 assms(2) have "unat c = 8 * k + unat (c - x)" by simp
  with k assms(2) show ?thesis by simp
qed

lemma aligned8_disjoint:
  assumes "8 dvd unat a" and "8 dvd unat b" and "a \<noteq> b" and "in_range b 8 c"
  shows "\<not> in_range a 8 c"
proof
  assume "in_range a 8 c"
  with assms aligned8_cut [of a c] aligned8_cut [of b c] have "unat a = unat b"
    by (simp add: in_range_def)
  with assms(3) show False by (simp add: word_unat_eq_iff)
qed

lemma load64_store64_other:
  assumes "8 dvd unat a" and "8 dvd unat b" and "a \<noteq> b"
  shows "load64 (store64 m a v) b = load64 m b"
  by (rule load64_cong) (use assms aligned8_disjoint store64_other in blast)

section \<open>C strings as views\<close>

text \<open>
  A pointer that is only read is the function from offsets to bytes; \<open>None\<close> is a read outside
  the object.  \<open>arr xs\<close> is an array object, \<open>ptr m a\<close> a pointer into byte memory.
\<close>

type_synonym cview = "nat \<Rightarrow> uchar option"

definition arr :: "uchar list \<Rightarrow> cview" where
  "arr xs i = (if i < length xs then Some (xs ! i) else None)"

definition ptr :: "pmem \<Rightarrow> addr \<Rightarrow> cview" where
  "ptr m a i = Some (m (a + of_nat i))"

definition adv :: "cview \<Rightarrow> nat \<Rightarrow> cview" where
  "adv p k i = p (k + i)"

lemma adv_adv [simp]: "adv (adv p i) j = adv p (i + j)"
  by (simp add: adv_def add.assoc fun_eq_iff)

lemma adv_0 [simp]: "adv p 0 = p"
  by (simp add: adv_def fun_eq_iff)

text \<open>\<open>c_string p cs\<close>: from \<open>p\<close> on stand the non-zero bytes \<open>cs\<close> and then a NUL.\<close>

definition c_string :: "cview \<Rightarrow> uchar list \<Rightarrow> bool" where
  "c_string p cs \<longleftrightarrow> 0 \<notin> set cs \<and> (\<forall>i<length cs. p i = Some (cs ! i)) \<and> p (length cs) = Some 0"

lemma c_string_arr: "0 \<notin> set cs \<Longrightarrow> c_string (arr (cs @ 0 # zs)) cs"
  by (simp add: c_string_def arr_def nth_append)

lemma c_string_no_shorter: "c_string p cs \<Longrightarrow> c_string p ds \<Longrightarrow> \<not> length cs < length ds"
  unfolding c_string_def by (metis nth_mem option.inject)

lemma c_string_unique: "c_string p cs \<Longrightarrow> c_string p ds \<Longrightarrow> cs = ds"
proof (rule nth_equalityI)
  assume *: "c_string p cs" "c_string p ds"
  then show l: "length cs = length ds" using c_string_no_shorter by (meson linorder_neqE_nat)
  fix i assume "i < length cs"
  with * l have "Some (cs ! i) = Some (ds ! i)" unfolding c_string_def by metis
  then show "cs ! i = ds ! i" by simp
qed

end
