(* ===== verification/RingIndex.thy ===== *)
theory RingIndex
  imports Prelude
begin

text \<open>
  Ring buffers with free-running counters, as the pipes, the UART driver and the console use them: the
  read counter \<open>r\<close> and the write counter \<open>w\<close> only grow, wrap around at the width of the machine word,
  and are reduced modulo the size of the buffer when it is indexed.  Because the size divides the
  range of the counters, the wrap-around does no harm; \<open>ring_index\<close> states this once for every width
  and size, and each driver interprets it on its own counters.
\<close>

text \<open>The bytes between the counters, oldest first.\<close>

definition ring_queue :: "'l::len word \<Rightarrow> 'a list \<Rightarrow> 'l word \<Rightarrow> 'l word \<Rightarrow> 'a list" where
  "ring_queue N buf r w = map (\<lambda>i. buf ! ((unat r + i) mod unat N)) [0..<unat (w - r)]"

lemma length_ring_queue [simp]: "length (ring_queue N buf r w) = unat (w - r)"
  by (simp add: ring_queue_def)

lemma ring_queue_empty [simp]: "ring_queue N buf r r = []"
  by (simp add: ring_queue_def)

lemma ring_queue_Nil_iff: "ring_queue N buf r w = [] \<longleftrightarrow> w = r"
  by (simp add: ring_queue_def unat_eq_zero)

locale ring_index =
  fixes N :: "'l::len word"
  assumes size_dvd: "unat N dvd 2 ^ LENGTH('l)" and size_pos: "0 < unat N"
begin

lemma index_add: "unat (r + of_nat i) mod unat N = (unat r + i) mod unat N" for r :: "'l word"
proof -
  have "unat (r + of_nat i) = (unat r + i) mod 2 ^ LENGTH('l)"
    by (simp add: unat_word_ariths unat_of_nat mod_simps)
  then show ?thesis using size_dvd by (simp add: mod_mod_cancel)
qed

lemma write_index:
  fixes r w :: "'l word"
  shows "unat w mod unat N = (unat r + unat (w - r)) mod unat N"
  using index_add [of r "unat (w - r)"] by simp

lemma unat_Suc_diff:
  fixes r w :: "'l word"
  assumes "unat (w - r) < unat N"
  shows "unat (w + 1 - r) = Suc (unat (w - r))"
proof -
  have "unat N < 2 ^ LENGTH('l)" by (rule unsigned_less)
  then have "unat (w - r) + 1 < 2 ^ LENGTH('l)" using assms by linarith
  then have "unat ((w - r) + 1) = Suc (unat (w - r))" by (simp add: unat_word_ariths)
  moreover have "w + 1 - r = (w - r) + 1" by simp
  ultimately show ?thesis by (simp only:)
qed

text \<open>Writing at the write counter appends one element.\<close>

lemma put:
  fixes r w :: "'l word"
  assumes "unat (w - r) < unat N" and "length buf = unat N"
  shows "ring_queue N (buf[unat w mod unat N := x]) r (w + 1) = ring_queue N buf r w @ [x]"
proof -
  let ?n = "unat (w - r)"
  have k: "unat w mod unat N = (unat r + ?n) mod unat N" by (rule write_index)
  have other: "(unat r + ?n) mod unat N \<noteq> (unat r + i) mod unat N" if "i < ?n" for i
  proof
    assume "(unat r + ?n) mod unat N = (unat r + i) mod unat N"
    then have "unat N dvd (unat r + ?n) - (unat r + i)" using that by (subst (asm) mod_eq_dvd_iff_nat) simp_all
    then have "unat N dvd ?n - i" by simp
    then show False using that assms(1) by (auto dest!: dvd_imp_le)
  qed
  have "buf[(unat r + ?n) mod unat N := x] ! ((unat r + i) mod unat N) = buf ! ((unat r + i) mod unat N)" if "i < ?n" for i
    using other [OF that] by simp
  then have "map (\<lambda>i. buf[(unat r + ?n) mod unat N := x] ! ((unat r + i) mod unat N)) [0..<?n] =
      map (\<lambda>i. buf ! ((unat r + i) mod unat N)) [0..<?n]" by simp
  then show ?thesis
    using assms(2) size_pos unfolding ring_queue_def unat_Suc_diff [OF assms(1)] k by simp
qed

text \<open>Reading at the read counter takes the oldest element.\<close>

lemma get:
  fixes r w :: "'l word"
  assumes "w \<noteq> r"
  shows "ring_queue N buf r w = buf ! (unat r mod unat N) # ring_queue N buf (r + 1) w"
proof -
  have "w - r \<noteq> 0" using assms by simp
  then have "unat (w - r - 1) = unat (w - r) - 1" "0 < unat (w - r)" by (simp_all add: unat_minus_one unat_gt_0)
  then have n: "unat (w - r) = Suc (unat (w - (r + 1)))" by (simp add: algebra_simps)
  have "(unat r + Suc i) mod unat N = (unat (r + 1) + i) mod unat N" for i
    using index_add [of r 1] mod_add_left_eq [of "unat (r + 1)" "unat N" i] mod_add_left_eq [of "unat r + 1" "unat N" i] by simp
  then show ?thesis unfolding ring_queue_def n by (simp add: map_upt_Suc del: upt_Suc)
qed

lemma full_iff:
  fixes r w :: "'l word"
  shows "w = r + N \<longleftrightarrow> unat (w - r) = unat N"
proof -
  have "w = r + N \<longleftrightarrow> w - r = N" by (auto simp: algebra_simps)
  then show ?thesis by (simp add: word_unat_eq_iff)
qed

end

end
