(* ===== verification/Riscv.thy ===== *)
theory Riscv
  imports Prelude
begin

text \<open>
  The constants of \<open>kernel/param.h\<close> and \<open>kernel/memlayout.h\<close> and the Sv39 paging macros of
  \<open>kernel/riscv.h\<close>, on 64-bit words, with the arithmetic of pages and page-table entries that
  the memory components use.
\<close>

unbundle bit_operations_syntax

section \<open>Constants\<close>

definition PGSIZE :: uint64 where "PGSIZE = 4096"
definition PGSHIFT :: nat where "PGSHIFT = 12"
definition MAXVA :: uint64 where "MAXVA = push_bit (9 + 9 + 9 + 12 - 1) 1"

definition UART0 :: uint64 where "UART0 = 0x10000000"
definition VIRTIO0 :: uint64 where "VIRTIO0 = 0x10001000"
definition PLIC :: uint64 where "PLIC = 0x0c000000"
definition KERNBASE :: uint64 where "KERNBASE = 0x80000000"
definition PHYSTOP :: uint64 where "PHYSTOP = KERNBASE + 128*1024*1024"
definition TRAMPOLINE :: uint64 where "TRAMPOLINE = MAXVA - PGSIZE"
definition KSTACK :: "uint64 \<Rightarrow> uint64" where "KSTACK p = TRAMPOLINE - (p + 1) * 2 * PGSIZE"
definition TRAPFRAME :: uint64 where "TRAPFRAME = TRAMPOLINE - PGSIZE"

definition NPROC :: nat where "NPROC = 64"
definition NCPU :: nat where "NCPU = 8"
definition NOFILE :: nat where "NOFILE = 16"
definition NFILE :: nat where "NFILE = 100"
definition NINODE :: nat where "NINODE = 50"
definition NDEV :: nat where "NDEV = 10"
definition ROOTDEV :: uint32 where "ROOTDEV = 1"
definition MAXARG :: nat where "MAXARG = 32"
definition MAXOPBLOCKS :: nat where "MAXOPBLOCKS = 10"
definition LOGSIZE :: nat where "LOGSIZE = MAXOPBLOCKS * 3"
definition NBUF :: nat where "NBUF = MAXOPBLOCKS * 3"
definition FSSIZE :: nat where "FSSIZE = 1000"
definition MAXPATH :: nat where "MAXPATH = 128"

named_theorems const_defs \<open>the kernel's compile-time constants\<close>

declare PGSIZE_def [const_defs] PGSHIFT_def [const_defs] MAXVA_def [const_defs]
  UART0_def [const_defs] VIRTIO0_def [const_defs] PLIC_def [const_defs]
  KERNBASE_def [const_defs] PHYSTOP_def [const_defs] TRAMPOLINE_def [const_defs]
  KSTACK_def [const_defs] TRAPFRAME_def [const_defs] NPROC_def [const_defs]
  NCPU_def [const_defs] NOFILE_def [const_defs] NFILE_def [const_defs] NINODE_def [const_defs]
  NDEV_def [const_defs] ROOTDEV_def [const_defs] MAXARG_def [const_defs]
  MAXOPBLOCKS_def [const_defs] LOGSIZE_def [const_defs] NBUF_def [const_defs]
  FSSIZE_def [const_defs] MAXPATH_def [const_defs]

section \<open>Pages\<close>

definition PGROUNDUP :: "uint64 \<Rightarrow> uint64" where
  "PGROUNDUP sz = (sz + PGSIZE - 1) AND NOT (PGSIZE - 1)"

definition PGROUNDDOWN :: "uint64 \<Rightarrow> uint64" where
  "PGROUNDDOWN a = a AND NOT (PGSIZE - 1)"

definition page_aligned :: "addr \<Rightarrow> bool" where
  "page_aligned a \<longleftrightarrow> 4096 dvd unat a"

lemma mask12: "(4095 :: uint64) = mask 12"
  by (simp add: mask_eq_exp_minus_1)

lemma and_not_4095: "(a :: uint64) AND NOT 4095 = push_bit 12 (drop_bit 12 a)"
  unfolding mask12 by (rule bit_eqI) (auto simp: bit_simps)

lemma PGROUNDDOWN_eq: "PGROUNDDOWN a = push_bit 12 (drop_bit 12 a)"
  using and_not_4095 [of a] by (simp add: PGROUNDDOWN_def PGSIZE_def)

lemma unat64_less: "unat (a :: uint64) < 18446744073709551616"
  using unsigned_less [of a] by simp

lemma unat_PGROUNDDOWN: "unat (PGROUNDDOWN a) = unat a div 4096 * 4096"
proof -
  have "unat a div 4096 * 4096 \<le> unat a" by simp
  then show ?thesis using unat64_less [of a]
    by (simp add: PGROUNDDOWN_eq unat_drop_bit_eq drop_bit_eq_div push_bit_eq_mult
        unat_word_ariths)
qed

lemma page_aligned_PGROUNDDOWN [simp]: "page_aligned (PGROUNDDOWN a)"
  by (simp add: page_aligned_def unat_PGROUNDDOWN)

lemma PGROUNDDOWN_le: "PGROUNDDOWN a \<le> a"
  by (simp add: word_le_nat_alt unat_PGROUNDDOWN)

lemma PGROUNDDOWN_aligned [simp]: "page_aligned a \<Longrightarrow> PGROUNDDOWN a = a"
  by (simp add: page_aligned_def word_unat_eq_iff unat_PGROUNDDOWN)

lemma unat_offset_in_page: "unat (a - PGROUNDDOWN a) = unat a mod 4096"
  by (simp add: unat_sub PGROUNDDOWN_le unat_PGROUNDDOWN minus_div_mult_eq_mod)

lemma PGROUNDUP_eq: "PGROUNDUP sz = PGROUNDDOWN (sz + 4095)"
  by (simp add: PGROUNDUP_def PGROUNDDOWN_def PGSIZE_def add.commute)

lemma unat_PGROUNDUP:
  "unat sz + 4095 < 2 ^ 64 \<Longrightarrow> unat (PGROUNDUP sz) = (unat sz + 4095) div 4096 * 4096"
  by (simp add: PGROUNDUP_eq unat_PGROUNDDOWN unat_word_ariths)

lemma page_aligned_PGROUNDUP [simp]: "page_aligned (PGROUNDUP a)"
  by (simp add: PGROUNDUP_eq)

lemma PGROUNDUP_least:
  assumes "page_aligned q" and "k \<le> q"
  shows "PGROUNDUP k \<le> q"
proof -
  obtain j where j: "unat q = 4096 * j" using assms(1) unfolding page_aligned_def dvd_def by blast
  have k: "unat k \<le> 4096 * j" using assms(2) j by (simp add: word_le_nat_alt)
  have "4096 * j < 2 ^ 64" using unat64_less [of q] j by simp
  then have "unat k + 4095 < 2 ^ 64" using k by simp
  then have "unat (PGROUNDUP k) = (unat k + 4095) div 4096 * 4096" by (rule unat_PGROUNDUP)
  also have "\<dots> \<le> j * 4096" using k by (intro mult_right_mono) linarith+
  finally show ?thesis using j by (simp add: word_le_nat_alt)
qed

lemma page_aligned_iff_mod: "page_aligned a \<longleftrightarrow> a mod PGSIZE = 0"
  by (simp add: page_aligned_def PGSIZE_def word_unat_eq_iff unat_mod_distrib dvd_eq_mod_eq_0)

lemma page_aligned_0 [simp]: "page_aligned 0"
  by (simp add: page_aligned_def)

lemma page_aligned_add [simp]: "page_aligned a \<Longrightarrow> page_aligned b \<Longrightarrow> page_aligned (a + b)"
proof -
  assume *: "page_aligned a" "page_aligned b"
  then have "4096 dvd (unat a + unat b) mod 2 ^ 64"
    by (intro dvd_mod) (auto simp: page_aligned_def)
  then show ?thesis by (simp add: page_aligned_def unat_word_ariths)
qed

lemma page_aligned_mult [simp]: "page_aligned (of_nat n * 4096)"
proof -
  have "4096 dvd (n * 4096) mod 2 ^ 64" by (intro dvd_mod) auto
  moreover have "of_nat n * 4096 = (of_nat (n * 4096) :: addr)" by simp
  ultimately show ?thesis unfolding page_aligned_def by (simp only: unat_of_nat) simp
qed

section \<open>Page-table entries\<close>

definition PTE_V :: uint64 where "PTE_V = push_bit 0 1"
definition PTE_R :: uint64 where "PTE_R = push_bit 1 1"
definition PTE_W :: uint64 where "PTE_W = push_bit 2 1"
definition PTE_X :: uint64 where "PTE_X = push_bit 3 1"
definition PTE_U :: uint64 where "PTE_U = push_bit 4 1"

definition PA2PTE :: "uint64 \<Rightarrow> uint64" where
  "PA2PTE pa = push_bit 10 (drop_bit 12 pa)"

definition PTE2PA :: "uint64 \<Rightarrow> uint64" where
  "PTE2PA pte = push_bit 12 (drop_bit 10 pte)"

definition PTE_FLAGS :: "uint64 \<Rightarrow> uint64" where
  "PTE_FLAGS pte = pte AND 0x3FF"

declare PTE_V_def [const_defs] PTE_R_def [const_defs] PTE_W_def [const_defs]
  PTE_X_def [const_defs] PTE_U_def [const_defs]

definition PXMASK :: uint64 where "PXMASK = 0x1FF"

definition PXSHIFT :: "nat \<Rightarrow> nat" where
  "PXSHIFT level = PGSHIFT + 9 * level"

definition PX :: "nat \<Rightarrow> uint64 \<Rightarrow> uint64" where
  "PX level va = drop_bit (PXSHIFT level) va AND PXMASK"

lemma PTE2PA_PA2PTE:
  assumes "page_aligned pa" and "f AND NOT 0x3FF = 0"
  shows "PTE2PA (PA2PTE pa OR f) = pa"
proof -
  have f: "drop_bit 10 f = 0"
  proof (rule bit_eqI)
    fix n assume "possible_bit TYPE(uint64) n"
    have "\<not> bit (f AND NOT (mask 10)) (10 + n)"
      using assms(2) by (simp add: mask_eq_exp_minus_1)
    then show "bit (drop_bit 10 f) n = bit 0 n"
      by (auto simp: bit_simps dest: bit_imp_le_length)
  qed
  have "PTE2PA (PA2PTE pa OR f) = push_bit 12 (drop_bit 12 pa)"
    unfolding PTE2PA_def PA2PTE_def drop_bit_or f
    by (rule bit_eqI) (auto simp: bit_simps)
  also have "\<dots> = pa" using assms(1) PGROUNDDOWN_aligned PGROUNDDOWN_eq by metis
  finally show ?thesis .
qed

lemma page_aligned_PTE2PA [simp]: "page_aligned (PTE2PA pte)"
proof -
  have "PTE2PA pte = PGROUNDDOWN (PTE2PA pte)"
    unfolding PTE2PA_def PGROUNDDOWN_eq by (rule bit_eqI) (auto simp: bit_simps)
  then show ?thesis by (metis page_aligned_PGROUNDDOWN)
qed

lemma small_flags: "f < 0x400 \<Longrightarrow> (f::uint64) AND NOT 0x3FF = 0"
proof -
  assume "f < 0x400"
  then have "take_bit 10 f = f" by (simp add: take_bit_eq_mod mod_word_less)
  then have f: "f = f AND mask 10" by (simp add: take_bit_eq_mask)
  have "(f AND mask 10) AND NOT (mask 10) = 0" by (simp add: and.assoc)
  with f have "f AND NOT (mask 10) = 0" by simp
  then show ?thesis by (simp add: mask_numeral)
qed

lemma PTE_V_set: "(x OR PTE_V) AND PTE_V \<noteq> 0"
  by (simp add: PTE_V_def bit.conj_disj_distrib2)

lemma unat_PX: "unat (PX l va) = unat va div 2 ^ (12 + 9 * l) mod 512"
proof -
  have "PXMASK = mask 9" by (simp add: PXMASK_def mask_eq_exp_minus_1)
  then have "PX l va = take_bit 9 (drop_bit (12 + 9 * l) va)"
    by (simp add: PX_def PXSHIFT_def PGSHIFT_def take_bit_eq_mask)
  then have "unat (PX l va) = take_bit 9 (drop_bit (12 + 9 * l) (unat va))"
    by (simp add: unsigned_take_bit_eq unat_drop_bit_eq)
  then show ?thesis by (simp add: drop_bit_eq_div take_bit_eq_mod)
qed

lemma unat_PX_less: "unat (PX l va) < 512"
  by (simp add: unat_PX)

text \<open>The address of the entry that \<open>PX level va\<close> selects in the table page \<open>pt\<close>.\<close>

definition pte_at :: "addr \<Rightarrow> nat \<Rightarrow> uint64 \<Rightarrow> addr" where
  "pte_at pt level va = pt + 8 * PX level va"

lemma page_room: "page_aligned p \<Longrightarrow> unat p + 4096 \<le> 18446744073709551616"
proof -
  assume "page_aligned p"
  then obtain k where "unat p = 4096 * k" by (auto simp: page_aligned_def)
  with unat64_less [of p] show ?thesis by simp
qed

lemma unat_page_offset:
  "page_aligned p \<Longrightarrow> unat x < 4096 \<Longrightarrow> unat (p + x) = unat p + unat x"
  using page_room [of p] by (simp add: unat_word_ariths)

lemma unat_pte_at: "page_aligned pt \<Longrightarrow> unat (pte_at pt l va) = unat pt + 8 * unat (PX l va)"
proof -
  assume pt: "page_aligned pt"
  have 8: "unat (8 * PX l va) = 8 * unat (PX l va)"
    using unat_PX_less [of l va] by (simp add: unat_word_ariths)
  have "unat (8 * PX l va) < 4096" unfolding 8 using unat_PX_less [of l va] by linarith
  then show ?thesis using unat_page_offset [OF pt] 8 by (simp add: pte_at_def)
qed

lemma pte_at_aligned: "page_aligned pt \<Longrightarrow> 8 dvd unat (pte_at pt l va)"
proof -
  assume pt: "page_aligned pt"
  have "8 dvd unat pt" using pt unfolding page_aligned_def by (rule dvd_trans [rotated]) simp
  then show ?thesis by (simp add: unat_pte_at [OF pt])
qed

text \<open>The bytes of a page, and that different aligned pages share none.\<close>

abbreviation in_page :: "addr \<Rightarrow> addr \<Rightarrow> bool" where
  "in_page p a \<equiv> in_range p 4096 a"

lemma in_page_iff: "page_aligned p \<Longrightarrow> in_page p a \<longleftrightarrow> PGROUNDDOWN a = p"
proof
  assume p: "page_aligned p" and a: "in_page p a"
  then obtain k where k: "unat p = 4096 * k" by (auto simp: page_aligned_def)
  have "unat a = unat p + unat (a - p)"
    using unat_page_offset [OF p, of "a - p"] a by (simp add: in_range_def)
  then have "unat a div 4096 = k" using a k by (simp add: in_range_def)
  then show "PGROUNDDOWN a = p" using k by (simp add: word_unat_eq_iff unat_PGROUNDDOWN)
next
  assume "page_aligned p" and "PGROUNDDOWN a = p"
  then show "in_page p a" by (auto simp: in_range_def unat_offset_in_page)
qed

lemma in_page_unique: "page_aligned p \<Longrightarrow> page_aligned q \<Longrightarrow> in_page p a \<Longrightarrow> in_page q a \<Longrightarrow> p = q"
  by (simp add: in_page_iff)

lemma in_page_self [simp]: "in_page p p"
  by (simp add: in_range_def)

lemma in_page_pte_at:
  assumes "page_aligned pt" and "in_range (pte_at pt l va) 8 b"
  shows "in_page pt b"
proof -
  let ?a = "pte_at pt l va"
  have a: "unat ?a = unat pt + 8 * unat (PX l va)" by (rule unat_pte_at [OF assms(1)])
  have "unat (?a - pt) = 8 * unat (PX l va)"
    using a by (simp add: unat_sub word_le_nat_alt)
  moreover have "unat (b - pt) \<le> unat (?a - pt) + unat (b - ?a)"
    using unat_word_ariths(1) [of "?a - pt" "b - ?a"] by simp
  ultimately have "unat (b - pt) \<le> 8 * unat (PX l va) + unat (b - ?a)" by simp
  then show ?thesis using assms(2) unat_PX_less [of l va] by (simp add: in_range_def)
qed

text \<open>The address of the \<open>k\<close>th page from \<open>a\<close> on.\<close>

lemma unat_nth_page:
  fixes a :: addr
  assumes "unat a + 4096 * k < 2 ^ 64"
  shows "unat (a + 4096 * of_nat k) = unat a + 4096 * k"
proof -
  have "unat (of_nat (unat a + 4096 * k) :: addr) = unat a + 4096 * k"
    using assms by (subst unat_of_nat) simp
  then show ?thesis by simp
qed

end
