(* ===== verification/CString.thy ===== *)
theory CString
  imports Prelude
begin

text \<open>
  \<open>kernel/string.c\<close>, and the \<open>strcmp\<close> that \<open>kernel/ringbuf.c\<close> brings along.  Functions that
  write through a pointer into memory (\<open>memset\<close>, \<open>memmove\<close>) transform byte memory; functions
  that only read their arguments take views (\<open>cview\<close>), so that they apply to memory and to the
  character arrays inside kernel structures alike; \<open>strncpy\<close> and \<open>safestrcpy\<close>, whose
  destinations in the kernel are such arrays, transform the array.  \<open>None\<close> is an access outside
  an object or, for \<open>strlen\<close> and \<open>strcmp\<close>, a loop that never ends.
\<close>

unbundle bit_operations_syntax

section \<open>Memory\<close>

text \<open>\<open>memset\<close>: iteration \<open>i\<close> of the loop writes \<open>cdst[i]\<close>.\<close>

primrec memset :: "pmem \<Rightarrow> addr \<Rightarrow> uchar \<Rightarrow> nat \<Rightarrow> pmem" where
  "memset m dst c 0 = m"
| "memset m dst c (Suc n) = (memset m dst c n)(dst + of_nat n := c)"

fun memcmp :: "cview \<Rightarrow> cview \<Rightarrow> nat \<Rightarrow> int option" where
  "memcmp s1 s2 0 = Some 0"
| "memcmp s1 s2 (Suc n) =
     Option.bind (s1 0) (\<lambda>x. Option.bind (s2 0) (\<lambda>y.
       if x \<noteq> y then Some (uint x - uint y) else memcmp (adv s1 1) (adv s2 1) n))"

text \<open>The two copying loops of \<open>memmove\<close>: upwards, and downwards from the ends.\<close>

primrec copy_up :: "nat \<Rightarrow> pmem \<Rightarrow> addr \<Rightarrow> addr \<Rightarrow> pmem" where
  "copy_up 0 m d s = m"
| "copy_up (Suc n) m d s = copy_up n (m(d := m s)) (d + 1) (s + 1)"

primrec copy_down :: "nat \<Rightarrow> pmem \<Rightarrow> addr \<Rightarrow> addr \<Rightarrow> pmem" where
  "copy_down 0 m d s = m"
| "copy_down (Suc n) m d s = copy_down n (m(d - 1 := m (s - 1))) (d - 1) (s - 1)"

definition memmove :: "pmem \<Rightarrow> addr \<Rightarrow> addr \<Rightarrow> uint32 \<Rightarrow> pmem" where
  "memmove m dst src n =
     (if src < dst \<and> src + ucast n > dst
      then copy_down (unat n) m (dst + ucast n) (src + ucast n)
      else copy_up (unat n) m dst src)"

definition memcpy :: "pmem \<Rightarrow> addr \<Rightarrow> addr \<Rightarrow> uint32 \<Rightarrow> pmem" where
  "memcpy m dst src n = memmove m dst src n"

section \<open>Strings\<close>

fun strncmp :: "cview \<Rightarrow> cview \<Rightarrow> nat \<Rightarrow> int option" where
  "strncmp p q 0 = Some 0"
| "strncmp p q (Suc n) =
     Option.bind (p 0) (\<lambda>x. Option.bind (q 0) (\<lambda>y.
       if x \<noteq> 0 \<and> x = y then strncmp (adv p 1) (adv q 1) n else Some (uint x - uint y)))"

text \<open>A write \<open>s[i] = c\<close> into an array object.\<close>

definition put :: "uchar list \<Rightarrow> nat \<Rightarrow> uchar \<Rightarrow> uchar list option" where
  "put s i c = (if i < length s then Some (s[i := c]) else None)"

primrec strncpy_pad :: "nat \<Rightarrow> uchar list \<Rightarrow> nat \<Rightarrow> uchar list option" where
  "strncpy_pad 0 s i = Some s"
| "strncpy_pad (Suc n) s i = Option.bind (put s i 0) (\<lambda>s'. strncpy_pad n s' (Suc i))"

primrec strncpy_copy :: "nat \<Rightarrow> uchar list \<Rightarrow> cview \<Rightarrow> nat \<Rightarrow> uchar list option" where
  "strncpy_copy 0 s t i = Some s"
| "strncpy_copy (Suc n) s t i =
     Option.bind (t i) (\<lambda>c. Option.bind (put s i c) (\<lambda>s'.
       if c \<noteq> 0 then strncpy_copy n s' t (Suc i) else strncpy_pad n s' (Suc i)))"

definition strncpy :: "uchar list \<Rightarrow> cview \<Rightarrow> int \<Rightarrow> uchar list option" where
  "strncpy s t n = strncpy_copy (nat n) s t 0"

primrec safestrcpy_loop :: "nat \<Rightarrow> uchar list \<Rightarrow> cview \<Rightarrow> nat \<Rightarrow> uchar list option" where
  "safestrcpy_loop 0 s t i = put s i 0"
| "safestrcpy_loop (Suc n) s t i =
     Option.bind (t i) (\<lambda>c. Option.bind (put s i c) (\<lambda>s'.
       if c \<noteq> 0 then safestrcpy_loop n s' t (Suc i) else put s' (Suc i) 0))"

definition safestrcpy :: "uchar list \<Rightarrow> cview \<Rightarrow> int \<Rightarrow> uchar list option" where
  "safestrcpy s t n = (if n \<le> 0 then Some s else safestrcpy_loop (nat (n - 1)) s t 0)"

partial_function (option) strlen_from :: "cview \<Rightarrow> nat \<Rightarrow> nat option" where
  "strlen_from s n = Option.bind (s n) (\<lambda>c. if c \<noteq> 0 then strlen_from s (Suc n) else Some n)"

definition strlen :: "cview \<Rightarrow> nat option" where
  "strlen s = strlen_from s 0"

partial_function (option) strcmp_from :: "cview \<Rightarrow> cview \<Rightarrow> nat \<Rightarrow> int option" where
  "strcmp_from p q i =
     Option.bind (p i) (\<lambda>x. Option.bind (q i) (\<lambda>y.
       if x \<noteq> 0 \<and> x = y then strcmp_from p q (Suc i) else Some (uint x - uint y)))"

definition strcmp :: "cview \<Rightarrow> cview \<Rightarrow> int option" where
  "strcmp p q = strcmp_from p q 0"

section \<open>Memory: what the loops compute\<close>

lemma memset_eq:
  "n \<le> 2 ^ 64 \<Longrightarrow> memset m dst c n = (\<lambda>a. if in_range dst n a then c else m a)"
proof (induction n)
  case (Suc n)
  have "in_range dst (Suc n) a \<longleftrightarrow> in_range dst n a \<or> a = dst + of_nat n" for a
    using Suc.prems by (auto simp: in_range_iff less_Suc_eq)
  with Suc show ?case by auto
qed (simp add: in_range_def)

lemma copy_up_eq:
  assumes "unat s + n \<le> 2 ^ 64" and "unat d + n \<le> 2 ^ 64" and "d \<le> s \<or> unat s + n \<le> unat d"
  shows "copy_up n m d s = (\<lambda>a. if in_range d n a then m (s + (a - d)) else m a)"
  using assms
proof (induction n arbitrary: m d s)
  case (Suc n)
  show ?case
  proof (cases n)
    case 0
    then show ?thesis by (auto simp: in_range_step)
  next
    case n: (Suc k)
    with Suc.prems have s1: "unat (s + 1) = unat s + 1" and d1: "unat (d + 1) = unat d + 1"
      by (simp_all add: unat_word_ariths)
    have dom: "in_range d (Suc n) a \<longleftrightarrow> a = d \<or> in_range (d + 1) n a" for a
      using Suc.prems by (intro in_range_step) simp
    have src: "(m(d := m s)) (s + 1 + (a - (d + 1))) = m (s + (a - d))"
      if "in_range (d + 1) n a" for a
    proof -
      obtain i where i: "i < n" "a = d + 1 + of_nat i"
        using \<open>in_range (d + 1) n a\<close> Suc.prems by (auto simp: in_range_iff)
      have "unat (s + 1 + of_nat i) = unat s + 1 + i"
        using i Suc.prems by (simp add: unat_word_ariths unat_of_nat)
      with i Suc.prems have "s + 1 + of_nat i \<noteq> d"
        by (auto simp: word_le_nat_alt)
      with i show ?thesis by (simp add: algebra_simps)
    qed
    have nd: "\<not> in_range (d + 1) n d"
      using Suc.prems by simp
    have "copy_up n (m(d := m s)) (d + 1) (s + 1) =
        (\<lambda>a. if in_range (d + 1) n a then (m(d := m s)) (s + 1 + (a - (d + 1)))
             else (m(d := m s)) a)"
      using Suc.prems s1 d1 by (intro Suc.IH) (auto simp: word_le_nat_alt)
    with dom src nd show ?thesis by auto
  qed
qed simp

lemma in_range_Suc: "n < 2 ^ 64 \<Longrightarrow> in_range d (Suc n) a \<longleftrightarrow> in_range d n a \<or> a = d + of_nat n"
  by (auto simp: in_range_iff less_Suc_eq)

lemma copy_down_eq:
  assumes "unat s + n \<le> 2 ^ 64" and "unat d + n \<le> 2 ^ 64" and "s \<le> d"
  shows "copy_down n m (d + of_nat n) (s + of_nat n) =
    (\<lambda>a. if in_range d n a then m (s + (a - d)) else m a)"
  using assms
proof (induction n arbitrary: m)
  case (Suc n)
  let ?m = "m(d + of_nat n := m (s + of_nat n))"
  have src: "?m (s + (a - d)) = m (s + (a - d))" if a: "in_range d n a" for a
  proof -
    obtain i where i: "i < n" "a = d + of_nat i"
      using a Suc.prems by (auto simp: in_range_iff)
    have "unat (s + of_nat i) < unat (d + of_nat n)"
      using i Suc.prems by (simp add: unat_word_ariths unat_of_nat word_le_nat_alt)
    with i show ?thesis by auto
  qed
  have nd: "\<not> in_range d n (d + of_nat n)"
    using Suc.prems by (simp add: in_range_def unat_of_nat)
  have "copy_down (Suc n) m (d + of_nat (Suc n)) (s + of_nat (Suc n)) =
      copy_down n ?m (d + of_nat n) (s + of_nat n)"
    by (simp add: algebra_simps)
  also have "\<dots> = (\<lambda>a. if in_range d n a then ?m (s + (a - d)) else ?m a)"
    using Suc.prems by (intro Suc.IH) auto
  finally show ?case using src nd Suc.prems by (auto simp: in_range_Suc)
qed simp

text \<open>\<open>blit m d s n\<close>: the memory after \<open>n\<close> bytes were copied from \<open>s\<close> to \<open>d\<close>, all at once.\<close>

definition blit :: "pmem \<Rightarrow> addr \<Rightarrow> addr \<Rightarrow> nat \<Rightarrow> pmem" where
  "blit m d s n = (\<lambda>a. if in_range d n a then m (s + (a - d)) else m a)"

lemma blit_0 [simp]: "blit m d s 0 = m"
  by (simp add: blit_def)

lemma blit_other: "\<not> in_range d n a \<Longrightarrow> blit m d s n a = m a"
  by (simp add: blit_def)

lemma blit_nth:
  assumes "i < n" and "n \<le> 2 ^ 64"
  shows "blit m d s n (d + of_nat i) = m (s + of_nat i)"
proof -
  have "in_range d n (d + of_nat i)" using assms in_range_iff by blast
  then show ?thesis by (simp add: blit_def)
qed

lemma blit_split:
  assumes "unat s + (k + n) \<le> 2 ^ 64" and "unat d + (k + n) \<le> 2 ^ 64"
    and "d \<le> s \<or> unat s + (k + n) \<le> unat d" and "0 < n"
  shows "blit (blit m d s k) (d + of_nat k) (s + of_nat k) n = blit m d s (k + n)"
proof
  fix a
  have dk: "unat (d + of_nat k) = unat d + k" and sk: "unat (s + of_nat k) = unat s + k"
    using assms by (simp_all add: unat_word_ariths unat_of_nat)
  have r: "in_range d j a \<longleftrightarrow> unat d \<le> unat a \<and> unat a < unat d + j" if "j \<le> k + n" for j a
    using assms that by (intro in_range_nat) simp
  have rk: "in_range (d + of_nat k) n a \<longleftrightarrow> unat d + k \<le> unat a \<and> unat a < unat d + (k + n)"
    using in_range_nat [of "d + of_nat k" n a] assms dk by (simp add: add.assoc)
  have same: "s + of_nat k + (a - (d + of_nat k)) = s + (a - d)" by simp
  have "\<not> in_range d k (s + (a - d)) \<or> s = d" if "in_range (d + of_nat k) n a"
  proof -
    have "unat (s + (a - d)) = unat s + (unat a - unat d)"
      using that rk assms by (intro unat_shift) auto
    with that assms(3) show ?thesis
      unfolding rk r [of k, OF le_add1] by (auto simp: word_le_nat_alt word_unat_eq_iff)
  qed
  moreover have "in_range d (k + n) a \<longleftrightarrow> in_range d k a \<or> in_range (d + of_nat k) n a"
    unfolding rk by (auto simp: r)
  ultimately show "blit (blit m d s k) (d + of_nat k) (s + of_nat k) n a = blit m d s (k + n) a"
    unfolding blit_def same by auto
qed

lemma memmove_blit:
  assumes "unat src + unat n < 2 ^ 64" and "unat dst + unat n < 2 ^ 64"
  shows "memmove m dst src n = blit m dst src (unat n)"
proof -
  have n: "(ucast n :: addr) = of_nat (unat n)" by simp
  have "unat (src + ucast n) = unat src + unat n"
    using assms(1) by (simp add: unat_word_ariths)
  then show ?thesis
    using assms by (auto simp: memmove_def n copy_down_eq copy_up_eq blit_def
        word_less_nat_alt word_le_nat_alt simp del: of_nat_unat)
qed

section \<open>Strings: what the loops compute\<close>

lemma strlen_from_eq:
  "c_string s cs \<Longrightarrow> i \<le> length cs \<Longrightarrow> strlen_from s i = Some (length cs)"
proof (induction "length cs - i" arbitrary: i)
  case 0
  then show ?case by (subst strlen_from.simps) (simp add: c_string_def)
next
  case (Suc k)
  then have i: "i < length cs" by simp
  then have "cs ! i \<noteq> 0" using Suc.prems unfolding c_string_def by (metis nth_mem)
  moreover have "strlen_from s (Suc i) = Some (length cs)"
    using Suc.hyps(2) Suc.prems i by (intro Suc.hyps(1)) auto
  ultimately show ?case
    using Suc.prems(1) i by (subst strlen_from.simps) (simp add: c_string_def)
qed

lemma strlen_eq: "c_string s cs \<Longrightarrow> strlen s = Some (length cs)"
  by (simp add: strlen_def strlen_from_eq)

text \<open>The comparison of two strings: the difference of the first bytes that differ, the
  terminating NUL taken as the byte 0.\<close>

fun str_diff :: "uchar list \<Rightarrow> uchar list \<Rightarrow> int" where
  "str_diff [] [] = 0"
| "str_diff [] (y # ys) = - uint y"
| "str_diff (x # xs) [] = uint x"
| "str_diff (x # xs) (y # ys) = (if x = y then str_diff xs ys else uint x - uint y)"

lemma str_diff_0_iff: "0 \<notin> set cs \<Longrightarrow> 0 \<notin> set ds \<Longrightarrow> str_diff cs ds = 0 \<longleftrightarrow> cs = ds"
  by (induction cs ds rule: str_diff.induct) (auto simp: uint_0_iff simp flip: word_uint_eq_iff)

lemma str_diff_neg_iff:
  "0 \<notin> set cs \<Longrightarrow> 0 \<notin> set ds \<Longrightarrow> str_diff cs ds < 0 \<longleftrightarrow> ord_class.lexordp cs ds"
proof (induction cs ds rule: str_diff.induct)
  case (2 y ys)
  then have "0 < uint y" by (simp add: uint_0_iff order_less_le)
  then show ?case by simp
next
  case (3 x xs)
  then show ?case by (simp add: not_less)
qed (auto simp: word_less_def word_uint_eq_iff)

text \<open>\<open>bounded_string p n cs\<close>: the bytes \<open>cs\<close> stand at \<open>p\<close>, up to the first NUL or the \<open>n\<close>th byte.\<close>

definition bounded_string :: "cview \<Rightarrow> nat \<Rightarrow> uchar list \<Rightarrow> bool" where
  "bounded_string p n cs \<longleftrightarrow> 0 \<notin> set cs \<and> length cs \<le> n \<and>
     (\<forall>i<length cs. p i = Some (cs ! i)) \<and> (length cs < n \<longrightarrow> p (length cs) = Some 0)"

lemma c_string_bounded: "c_string p cs \<Longrightarrow> bounded_string p n (take n cs)"
  by (cases "length cs < n") (auto simp: c_string_def bounded_string_def dest: in_set_takeD)

lemma bounded_string_adv:
  "bounded_string p (Suc n) (c # cs) \<Longrightarrow> bounded_string (adv p 1) n cs"
  by (simp add: bounded_string_def adv_def All_less_Suc2)

lemma c_string_adv: "c_string p (c # cs) \<Longrightarrow> c_string (adv p 1) cs"
  by (simp add: c_string_def adv_def All_less_Suc2)

lemma bounded_string_head:
  "bounded_string p (Suc n) cs \<Longrightarrow> p 0 = Some (case cs of [] \<Rightarrow> 0 | c # _ \<Rightarrow> c)"
  by (cases cs) (auto simp: bounded_string_def)

lemma strncmp_eq:
  "bounded_string p n cs \<Longrightarrow> bounded_string q n ds \<Longrightarrow> strncmp p q n = Some (str_diff cs ds)"
proof (induction p q n arbitrary: cs ds rule: strncmp.induct)
  case (1 p q)
  then show ?case by (simp add: bounded_string_def)
next
  case (2 p q n)
  have cs0: "0 \<notin> set cs" and ds0: "0 \<notin> set ds"
    using "2.prems" by (auto simp: bounded_string_def)
  have hd: "p 0 = Some (case cs of [] \<Rightarrow> 0 | c # _ \<Rightarrow> c)"
      "q 0 = Some (case ds of [] \<Rightarrow> 0 | c # _ \<Rightarrow> c)"
    using "2.prems" bounded_string_head by blast+
  show ?case
  proof (cases "cs \<noteq> [] \<and> ds \<noteq> [] \<and> hd cs = hd ds")
    case True
    then obtain c cs' ds' where c: "cs = c # cs'" "ds = c # ds'"
      by (metis list.collapse)
    with "2.prems" have "strncmp (adv p 1) (adv q 1) n = Some (str_diff cs' ds')"
      using hd cs0 by (intro "2.IH") (auto dest: bounded_string_adv)
    with hd c cs0 show ?thesis by auto
  next
    case False
    with hd cs0 ds0 show ?thesis by (cases cs; cases ds) auto
  qed
qed

lemma strcmp_from_eq:
  "c_string (adv p i) cs \<Longrightarrow> c_string (adv q i) ds \<Longrightarrow> strcmp_from p q i = Some (str_diff cs ds)"
proof (induction cs ds arbitrary: i rule: str_diff.induct)
  case 1
  then have "p i = Some 0" "q i = Some 0" by (auto simp: c_string_def adv_def)
  then show ?case by (subst strcmp_from.simps) simp
next
  case (2 y ys)
  then have "p i = Some 0" "q i = Some y" by (auto simp: c_string_def adv_def)
  then show ?case by (subst strcmp_from.simps) simp
next
  case (3 x xs)
  then have "p i = Some x" "q i = Some 0" by (auto simp: c_string_def adv_def)
  with 3 show ?case by (subst strcmp_from.simps) (auto simp: c_string_def)
next
  case (4 x xs y ys)
  have p: "p i = Some x" "q i = Some y" "x \<noteq> 0"
    using "4.prems" by (auto simp: c_string_def adv_def)
  have "c_string (adv p (Suc i)) xs" "c_string (adv q (Suc i)) ys"
    using "4.prems" [THEN c_string_adv] by simp_all
  with p "4.IH" show ?case by (subst strcmp_from.simps) auto
qed

lemma strcmp_eq: "c_string p cs \<Longrightarrow> c_string q ds \<Longrightarrow> strcmp p q = Some (str_diff cs ds)"
  unfolding strcmp_def by (rule strcmp_from_eq) simp_all

lemma strncpy_pad_eq:
  "i + n \<le> length s \<Longrightarrow>
     strncpy_pad n s i = Some (take i s @ replicate n 0 @ drop (i + n) s)"
proof (induction n arbitrary: s i)
  case (Suc n)
  then have "strncpy_pad n (s[i := 0]) (Suc i) =
      Some (take (Suc i) (s[i := 0]) @ replicate n 0 @ drop (Suc i + n) (s[i := 0]))"
    by (intro Suc.IH) simp
  with Suc.prems show ?case by (simp add: put_def take_Suc_conv_app_nth)
qed simp

lemma strncpy_copy_eq:
  assumes "bounded_string (adv t i) n cs" and "i + n \<le> length s"
  shows "strncpy_copy n s t i =
    Some (take i s @ cs @ replicate (n - length cs) 0 @ drop (i + n) s)"
  using assms
proof (induction n arbitrary: s i cs)
  case 0
  then show ?case by (simp add: bounded_string_def)
next
  case (Suc n)
  have t: "t i = Some (case cs of [] \<Rightarrow> 0 | c # _ \<Rightarrow> c)"
    using bounded_string_head [OF Suc.prems(1)] by (simp add: adv_def)
  show ?case
  proof (cases cs)
    case Nil
    with t Suc.prems(2) show ?thesis
      by (simp add: put_def strncpy_pad_eq take_Suc_conv_app_nth)
  next
    case (Cons c ds)
    then have "bounded_string (adv t (Suc i)) n ds" and "c \<noteq> 0"
      using bounded_string_adv Suc.prems(1) by (force, auto simp: bounded_string_def)
    with Cons t Suc show ?thesis by (simp add: put_def take_Suc_conv_app_nth)
  qed
qed

lemma strncpy_eq:
  assumes "bounded_string t n cs" and "n \<le> length s"
  shows "strncpy s t (int n) = Some (cs @ replicate (n - length cs) 0 @ drop n s)"
  using strncpy_copy_eq [of t 0 n cs s] assms by (simp add: strncpy_def)

text \<open>What \<open>safestrcpy\<close> leaves behind from position \<open>i\<close> on: a NUL-terminated prefix of the source.\<close>

lemma safestrcpy_loop_eq:
  assumes "c_string (adv t i) cs" and "i + n < length s"
  shows "\<exists>s'. safestrcpy_loop n s t i = Some s' \<and> length s' = length s \<and>
    take (Suc (i + length (take n cs))) s' = take i s @ take n cs @ [0]"
  using assms
proof (induction n arbitrary: s i cs)
  case 0
  then show ?case by (simp add: put_def take_Suc_conv_app_nth)
next
  case (Suc n)
  show ?case
  proof (cases cs)
    case Nil
    then have "t i = Some 0" using Suc.prems by (simp add: c_string_def adv_def)
    with Nil Suc.prems show ?thesis by (simp add: put_def take_Suc_conv_app_nth)
  next
    case (Cons c ds)
    then have "c_string (adv t (Suc i)) ds" and t: "t i = Some c" "c \<noteq> 0"
      using c_string_adv Suc.prems(1) by (force, auto simp: c_string_def adv_def)
    then obtain s' where "safestrcpy_loop n (s[i := c]) t (Suc i) = Some s'" "length s' = length s"
        "take (Suc (Suc i + length (take n ds))) s' = take (Suc i) (s[i := c]) @ take n ds @ [0]"
      using Suc.IH [of "Suc i" ds "s[i := c]"] Suc.prems(2) by auto
    with Cons t Suc.prems(2) show ?thesis by (simp add: put_def take_Suc_conv_app_nth)
  qed
qed

lemma c_string_take:
  assumes "take (Suc (length cs)) s = cs @ [0]" and "0 \<notin> set cs"
  shows "c_string (arr s) cs"
proof -
  have "s = cs @ 0 # drop (Suc (length cs)) s"
    using append_take_drop_id [of "Suc (length cs)" s] assms(1) by simp
  then show ?thesis using c_string_arr [OF assms(2)] by metis
qed

lemma safestrcpy_eq:
  assumes "c_string t cs" and "0 < n" and "nat n \<le> length s"
  shows "\<exists>s'. safestrcpy s t n = Some s' \<and> length s' = length s \<and>
    c_string (arr s') (take (nat n - 1) cs)"
proof -
  have "nat (n - 1) < length s" using assms by linarith
  then obtain s' where s': "safestrcpy_loop (nat (n - 1)) s t 0 = Some s'" "length s' = length s"
      "take (Suc (length (take (nat (n - 1)) cs))) s' = take (nat (n - 1)) cs @ [0]"
    using safestrcpy_loop_eq [of t 0 cs "nat (n - 1)" s] assms(1) by auto
  have "0 \<notin> set (take (nat (n - 1)) cs)"
    using assms(1) by (auto simp: c_string_def dest: in_set_takeD)
  with s' have "c_string (arr s') (take (nat (n - 1)) cs)" by (intro c_string_take)
  moreover have "nat (n - 1) = nat n - 1" by simp
  ultimately show ?thesis using s' assms(2) by (auto simp: safestrcpy_def)
qed

section \<open>Properties\<close>

text \<open>C22: \<open>memmove\<close> copies \<open>n\<close> bytes from \<open>src\<close> to \<open>dst\<close> and changes nothing else, also when the two
  ranges overlap in either direction.\<close>

theorem memmove_correct:
  assumes "unat src + unat n < 2 ^ 64" and "unat dst + unat n < 2 ^ 64"
  shows "memmove m dst src n =
    (\<lambda>a. if in_range dst (unat n) a then m (src + (a - dst)) else m a)"
  using memmove_blit [OF assms] by (simp add: blit_def)

theorem memmove_correct_witness:
  "memmove (\<lambda>a. ucast a) 0x1002 0x1000 6 0x1005 = 3 \<and> memmove (\<lambda>a. ucast a) 0x1000 0x1002 6 0x1005 = 7"
  using memmove_correct [of "0x1000" 6 "0x1002" "\<lambda>a. ucast a"]
    memmove_correct [of "0x1002" 6 "0x1000" "\<lambda>a. ucast a"] by (simp add: in_range_def)

text \<open>C23: \<open>strcmp\<close> ends on every two NUL-terminated strings; its result is 0 exactly when they are equal and
  negative exactly when the first one comes first in lexicographic order.\<close>

theorem strcmp_correct:
  assumes "c_string p cs" and "c_string q ds"
  shows "\<exists>d. strcmp p q = Some d \<and> (d = 0 \<longleftrightarrow> cs = ds) \<and> (d < 0 \<longleftrightarrow> ord_class.lexordp cs ds)"
  using strcmp_eq [OF assms] str_diff_0_iff str_diff_neg_iff assms by (auto simp: c_string_def)

theorem strcmp_correct_witness:
  "c_string (arr [98, 0]) [98] \<and> c_string (arr [98, 99, 0]) [98, 99] \<and>
   (\<exists>d. strcmp (arr [98, 0]) (arr [98, 99, 0]) = Some d \<and> d \<noteq> 0)"
proof -
  have "c_string (arr [98, 0]) [98]" "c_string (arr [98, 99, 0]) [98, 99]"
    using c_string_arr [of "[98]" "[]"] c_string_arr [of "[98, 99]" "[]"] by simp_all
  then show ?thesis using strcmp_correct [of "arr [98, 0]" "[98]" "arr [98, 99, 0]" "[98, 99]"] by auto
qed

text \<open>C24: \<open>safestrcpy\<close> with a positive size writes inside the destination and leaves there, terminated, the
  longest prefix of the source that fits.\<close>

theorem safestrcpy_correct:
  assumes "c_string t cs" and "0 < n" and "nat n \<le> length s"
  shows "\<exists>s'. safestrcpy s t n = Some s' \<and> length s' = length s \<and> strlen (arr s') = Some (min (nat n - 1) (length cs)) \<and>
    c_string (arr s') (take (nat n - 1) cs)"
  using safestrcpy_eq [OF assms] strlen_eq by (fastforce simp: min.commute)

theorem safestrcpy_correct_witness:
  "\<exists>s'. safestrcpy [1, 1, 1] (arr [104, 101, 108, 108, 111, 0]) 3 = Some s' \<and> c_string (arr s') [104, 101]"
  using safestrcpy_correct [of "arr [104, 101, 108, 108, 111, 0]" "[104, 101, 108, 108, 111]" 3 "[1, 1, 1]"]
    c_string_arr [of "[104, 101, 108, 108, 111]" "[]"] by auto

text \<open>C25: \<open>strncpy\<close> fills exactly \<open>n\<close> bytes of the destination: the source up to its NUL, cut at \<open>n\<close> bytes,
  and zeros after it; \<open>strncmp\<close> compares such fields as \<open>strcmp\<close> compares strings.\<close>

theorem strncpy_strncmp_correct:
  assumes "bounded_string t n cs" and "n \<le> length s"
  shows "\<exists>s'. strncpy s t (int n) = Some s' \<and> s' = cs @ replicate (n - length cs) 0 @ drop n s \<and>
    strncmp (arr s') t n = Some 0"
proof -
  let ?s' = "cs @ replicate (n - length cs) 0 @ drop n s"
  have "bounded_string (arr ?s') n cs"
    using assms by (auto simp: bounded_string_def arr_def nth_append)
  with strncmp_eq [OF this assms(1)] str_diff_0_iff [of cs cs] assms
  show ?thesis using strncpy_eq [OF assms] by (auto simp: bounded_string_def)
qed

theorem strncpy_strncmp_correct_witness:
  "\<exists>s'. strncpy [9, 9, 9, 9, 9] (arr [46, 46, 0]) 4 = Some s' \<and> s' = [46, 46, 0, 0, 9]"
proof -
  have "bounded_string (arr [46, 46, 0]) 4 [46, 46]"
    using c_string_bounded [OF c_string_arr [of "[46, 46]" "[]"], of 4] by simp
  from strncpy_strncmp_correct [OF this, of "[9, 9, 9, 9, 9]"] show ?thesis
    by (auto simp: numeral_2_eq_2)
qed

end
