(* ===== verification/Kalloc.thy ===== *)
theory Kalloc
  imports Riscv CString
begin

text \<open>
  The physical page allocator, \<open>kernel/kalloc.c\<close>.  The free list is threaded through the free
  pages: the first eight bytes of a free page hold the address of the next one (\<open>struct run\<close>).
  The linker symbol \<open>end\<close> is the field \<open>kend\<close>, which nothing changes.  The invariant
  \<open>kmem_inv s ps\<close> says that the list holds exactly the pages \<open>ps\<close>, all different, aligned and
  between \<open>end\<close> and \<open>PHYSTOP\<close>.
\<close>

section \<open>State and operations\<close>

record mstate = kstate +
  mem :: pmem
  freelist :: addr
  kend :: addr

definition kfree :: "addr \<Rightarrow> ('z mstate_scheme, unit) kfun" where
  "kfree pa = bnd (gets kend) (\<lambda>e.
     if pa mod PGSIZE \<noteq> 0 \<or> pa < e \<or> pa \<ge> PHYSTOP then panic ''kfree''
     else thn (modify (\<lambda>s. s\<lparr>mem := memset (mem s) pa 1 (unat PGSIZE)\<rparr>))
         (thn (acquire KmemLock)
         (thn (modify (\<lambda>s. s\<lparr>mem := store64 (mem s) pa (freelist s)\<rparr>))
         (thn (modify (\<lambda>s. s\<lparr>freelist := pa\<rparr>))
              (release KmemLock)))))"

definition kalloc :: "('z mstate_scheme, addr) kfun" where
  "kalloc = thn (acquire KmemLock)
     (bnd (gets freelist) (\<lambda>r.
      thn (if r \<noteq> 0 then modify (\<lambda>s. s\<lparr>freelist := load64 (mem s) r\<rparr>) else ret ())
     (thn (release KmemLock)
     (thn (if r \<noteq> 0 then modify (\<lambda>s. s\<lparr>mem := memset (mem s) r 5 (unat PGSIZE)\<rparr>) else ret ())
          (ret r)))))"

lemma kfree_Ret_less: "kfree p s = Ret u t \<Longrightarrow> p < PHYSTOP"
  by (auto simp: kfree_def returns_iff split: if_splits)

text \<open>The loop of \<open>freerange\<close>; it ends because \<open>kfree\<close> panics on a page at or above \<open>PHYSTOP\<close>.\<close>

function freerange_loop :: "addr \<Rightarrow> addr \<Rightarrow> ('z mstate_scheme, unit) kfun" where
  "freerange_loop p pa_end s =
     (if p + PGSIZE \<le> pa_end
      then bnd (kfree p) (\<lambda>_. freerange_loop (p + PGSIZE) pa_end) s
      else Ret () s)"
  by pat_completeness auto
termination
proof (relation "measure (\<lambda>(p, pa_end, s). 2 ^ 64 - unat p)")
  fix p pa_end :: addr and s t :: "'z mstate_scheme" and u
  assume "kfree p s = Ret u t"
  then have "p < PHYSTOP" by (rule kfree_Ret_less)
  then have "unat (p + PGSIZE) = unat p + 4096"
    by (simp add: PHYSTOP_def KERNBASE_def PGSIZE_def word_less_nat_alt unat_word_ariths)
  then show "((p + PGSIZE, pa_end, t), p, pa_end, s) \<in> measure (\<lambda>(p, pa_end, s). 2 ^ 64 - unat p)"
    using unat64_less [of p] by simp
qed simp

declare freerange_loop.simps [simp del]

definition freerange :: "addr \<Rightarrow> addr \<Rightarrow> ('z mstate_scheme, unit) kfun" where
  "freerange pa_start pa_end = freerange_loop (PGROUNDUP pa_start) pa_end"

definition kinit :: "('z mstate_scheme, unit) kfun" where
  "kinit = thn (initlock KmemLock) (bnd (gets kend) (\<lambda>e. freerange e PHYSTOP))"

section \<open>The free list\<close>

primrec free_chain :: "pmem \<Rightarrow> addr \<Rightarrow> addr list \<Rightarrow> bool" where
  "free_chain m p [] \<longleftrightarrow> p = 0"
| "free_chain m p (q # qs) \<longleftrightarrow> p = q \<and> free_chain m (load64 m q) qs"

definition frame_ok :: "addr \<Rightarrow> addr \<Rightarrow> bool" where
  "frame_ok e p \<longleftrightarrow> page_aligned p \<and> e \<le> p \<and> p < PHYSTOP"

definition kmem_inv :: "'z mstate_scheme \<Rightarrow> addr list \<Rightarrow> bool" where
  "kmem_inv s ps \<longleftrightarrow> free_chain (mem s) (freelist s) ps \<and> distinct ps \<and>
     (\<forall>p\<in>set ps. frame_ok (kend s) p) \<and> 0 < kend s"

lemma unat_PGSIZE [simp]: "unat PGSIZE = 4096"
  by (simp add: PGSIZE_def)

lemma page_aligned_PGSIZE [simp]: "page_aligned PGSIZE"
  by (simp add: page_aligned_def)

lemma other_page:
  assumes "page_aligned p" and "page_aligned q" and "p \<noteq> q" and "in_range q 8 b"
  shows "\<not> in_page p b"
  using assms in_page_unique [of p q b] by (auto simp: in_range_def)

lemma load64_other_page:
  assumes "page_aligned p" and "page_aligned q" and "p \<noteq> q" and "\<And>a. \<not> in_page p a \<Longrightarrow> m' a = m a"
  shows "load64 m' q = load64 m q"
  by (rule load64_cong) (use assms other_page in blast)

lemma free_chain_cong:
  "(\<And>q. q \<in> set qs \<Longrightarrow> load64 m q = load64 m' q) \<Longrightarrow> free_chain m p qs = free_chain m' p qs"
  by (induction qs arbitrary: p) auto

text \<open>Writing inside a page that is not on the list leaves the list as it is.\<close>

lemma free_chain_frame:
  assumes "page_aligned p" and "\<forall>q\<in>set qs. page_aligned q" and "p \<notin> set qs"
    and "\<And>a. \<not> in_page p a \<Longrightarrow> m' a = m a"
  shows "free_chain m' r qs = free_chain m r qs"
proof (rule free_chain_cong)
  fix q assume "q \<in> set qs"
  with assms(2,3) have "page_aligned q" "p \<noteq> q" by auto
  then show "load64 m' q = load64 m q" using assms(1,4) by (intro load64_other_page) auto
qed

lemma frame_okD: "frame_ok e p \<Longrightarrow> page_aligned p \<and> e \<le> p \<and> p < PHYSTOP"
  by (simp add: frame_ok_def)

lemma kmem_inv_pages: "kmem_inv s ps \<Longrightarrow> \<forall>p\<in>set ps. page_aligned p"
  by (auto simp: kmem_inv_def frame_ok_def)

lemma kmem_inv_nonzero: "kmem_inv s ps \<Longrightarrow> 0 \<notin> set ps"
  by (auto simp: kmem_inv_def frame_ok_def)

lemma kmem_inv_frame:
  assumes "kmem_inv s ps" and "freelist t = freelist s" and "kend t = kend s"
    and "page_aligned p" and "p \<notin> set ps" and "\<And>a. \<not> in_page p a \<Longrightarrow> mem t a = mem s a"
  shows "kmem_inv t ps"
  using assms free_chain_frame [OF assms(4) kmem_inv_pages [OF assms(1)] assms(5,6)]
  by (simp add: kmem_inv_def)

section \<open>What the allocator does\<close>

lemma kfree_run:
  assumes "frame_ok (kend s) p" and "KmemLock \<notin> set (held s)"
  shows "kfree p s = Ret () (s\<lparr>mem := store64 (memset (mem s) p 1 4096) p (freelist s),
    freelist := p\<rparr>)"
  using assms by (auto simp: kfree_def monad_simps frame_ok_def page_aligned_iff_mod)

lemma kfree_bad:
  "\<not> frame_ok (kend s) p \<Longrightarrow> kfree p s = Panic ''kfree''"
  by (auto simp: kfree_def monad_simps frame_ok_def page_aligned_iff_mod not_less not_le)

lemma kfree_inv:
  assumes inv: "kmem_inv s ps" and p: "frame_ok (kend s) p" "p \<notin> set ps"
    and "KmemLock \<notin> set (held s)" and run: "kfree p s = Ret u t"
  shows "kmem_inv t (p # ps)"
proof -
  have al: "page_aligned p" using p by (simp add: frame_ok_def)
  let ?m = "store64 (memset (mem s) p 1 4096) p (freelist s)"
  have t: "t = s\<lparr>mem := ?m, freelist := p\<rparr>" using kfree_run [OF p(1) assms(4)] run by simp
  have "\<not> in_page p a \<Longrightarrow> ?m a = mem s a" for a
    by (subst store64_other) (auto simp: memset_eq in_range_def)
  then have "free_chain ?m (freelist s) ps = free_chain (mem s) (freelist s) ps"
    using free_chain_frame [OF al kmem_inv_pages [OF inv] p(2)] by blast
  with inv p show ?thesis by (simp add: t kmem_inv_def)
qed

lemma kalloc_run:
  assumes "kmem_inv s (p # ps)" and "KmemLock \<notin> set (held s)"
  shows "kalloc s = Ret p (s\<lparr>mem := memset (mem s) p 5 4096, freelist := load64 (mem s) p\<rparr>)"
proof -
  have "freelist s = p" "p \<noteq> 0"
    using assms(1) kmem_inv_nonzero [OF assms(1)] by (auto simp: kmem_inv_def)
  with assms(2) show ?thesis by (simp add: kalloc_def monad_simps)
qed

lemma kalloc_empty:
  assumes "kmem_inv s []" and "KmemLock \<notin> set (held s)"
  shows "kalloc s = Ret 0 s"
  using assms by (simp add: kalloc_def monad_simps kmem_inv_def)

lemma kalloc_inv:
  assumes "kmem_inv s (p # ps)" and "KmemLock \<notin> set (held s)" and "kalloc s = Ret r t"
  shows "kmem_inv t ps"
proof -
  have p: "page_aligned p" "\<forall>q\<in>set ps. page_aligned q" "p \<notin> set ps"
    using assms(1) by (auto simp: kmem_inv_def frame_ok_def)
  have "free_chain (memset (mem s) p 5 4096) x ps = free_chain (mem s) x ps" for x
    by (rule free_chain_frame [OF p]) (simp add: memset_eq)
  then show ?thesis
    using assms kalloc_run [OF assms(1,2)] by (auto simp: kmem_inv_def)
qed

lemma unat_PHYSTOP: "unat PHYSTOP = 0x88000000"
  by (simp add: PHYSTOP_def KERNBASE_def)

lemma aligned_less_next:
  assumes "page_aligned p" and "page_aligned q" and "unat p + 4096 < 2 ^ 64"
  shows "q < p + 4096 \<longleftrightarrow> q \<le> p"
proof -
  obtain i j where "unat p = 4096 * i" "unat q = 4096 * j"
    using assms unfolding page_aligned_def dvd_def by blast
  moreover have "unat (p + 4096) = unat p + 4096" using assms(3) by (simp add: unat_word_ariths)
  ultimately show ?thesis by (auto simp: word_less_nat_alt word_le_nat_alt)
qed

lemma freerange_loop_all:
  assumes "kmem_inv s ps" and "set ps = {q. frame_ok (kend s) q \<and> q < p}"
    and "page_aligned p" and "kend s \<le> p" and "p \<le> PHYSTOP" and "KmemLock \<notin> set (held s)"
  shows "\<exists>t qs. freerange_loop p PHYSTOP s = Ret () t \<and> kmem_inv t qs \<and>
    set qs = {q. frame_ok (kend s) q} \<and> held t = held s"
  using assms
proof (induction p PHYSTOP s arbitrary: ps rule: freerange_loop.induct)
  case (1 p s)
  have room: "unat p + 4096 < 2 ^ 64"
    using "1.prems"(5) by (simp add: word_le_nat_alt unat_PHYSTOP)
  then have nxt: "unat (p + PGSIZE) = unat p + 4096" by (simp add: PGSIZE_def unat_word_ariths)
  show ?case
  proof (cases "p + PGSIZE \<le> PHYSTOP")
    case True
    then have pok: "frame_ok (kend s) p" "p \<notin> set ps"
      using "1.prems" nxt by (auto simp: frame_ok_def word_less_nat_alt word_le_nat_alt)
    obtain t where t: "kfree p s = Ret () t" "kend t = kend s" "held t = held s"
      using kfree_run [OF pok(1) "1.prems"(6)] by simp
    have "kmem_inv t (p # ps)" using kfree_inv [OF "1.prems"(1) pok "1.prems"(6) t(1)] .
    moreover have "page_aligned q \<Longrightarrow> q < p + PGSIZE \<longleftrightarrow> q = p \<or> q < p" for q
      using aligned_less_next [OF "1.prems"(3) _ room, of q] by (simp add: PGSIZE_def le_less disj_commute)
    then have "set (p # ps) = {q. frame_ok (kend t) q \<and> q < p + PGSIZE}"
      using "1.prems"(2) pok(1) t(2) by (simp add: frame_ok_def) blast
    ultimately have "\<exists>t' qs. freerange_loop (p + PGSIZE) PHYSTOP t = Ret () t' \<and>
        kmem_inv t' qs \<and> set qs = {q. frame_ok (kend t) q} \<and> held t' = held t"
      using "1.prems"(3,4,6) t(2,3) True nxt
      by (intro "1.hyps" [OF True t(1), of "p # ps"])
        (auto simp: page_aligned_PGSIZE word_le_nat_alt)
    with True t show ?thesis by (simp add: freerange_loop.simps [of p] monad_simps)
  next
    case False
    obtain i where "unat p = 4096 * i" using "1.prems"(3) by (auto simp: page_aligned_def)
    with False "1.prems"(5) nxt have "p = PHYSTOP"
      by (auto simp: word_le_nat_alt unat_PHYSTOP word_unat_eq_iff)
    moreover from this have "set ps = {q. frame_ok (kend s) q}"
      using "1.prems"(2) by (auto simp: frame_ok_def)
    moreover have "freerange_loop p PHYSTOP s = Ret () s"
      using False by (simp add: freerange_loop.simps)
    ultimately show ?thesis using "1.prems"(1) by blast
  qed
qed

lemma kinit_all:
  assumes "freelist s = 0" and "0 < kend s" and "kend s \<le> PHYSTOP"
  shows "\<exists>t ps. kinit s = Ret () t \<and> kmem_inv t ps \<and> set ps = {p. frame_ok (kend s) p} \<and>
    set (held t) = set (held s) - {KmemLock}"
proof -
  let ?s = "s\<lparr>held := removeAll KmemLock (held s)\<rparr>" and ?p = "PGROUNDUP (kend s)"
  have p: "unat ?p = (unat (kend s) + 4095) div 4096 * 4096"
    using assms(3) by (intro unat_PGROUNDUP) (simp add: word_le_nat_alt unat_PHYSTOP)
  have up: "kend s \<le> ?p" "?p \<le> PHYSTOP"
    using assms(3) by (auto simp: word_le_nat_alt p unat_PHYSTOP)
  have "\<not> (frame_ok (kend s) q \<and> q < ?p)" for q
    using PGROUNDUP_least [of q "kend s"] by (auto simp: frame_ok_def)
  then have "set [] = {q. frame_ok (kend s) q \<and> q < ?p}" by auto
  moreover have "kmem_inv ?s []" using assms by (simp add: kmem_inv_def)
  ultimately obtain t qs where "freerange_loop ?p PHYSTOP ?s = Ret () t" "kmem_inv t qs"
      "set qs = {q. frame_ok (kend s) q}" "held t = held ?s"
    using freerange_loop_all [of ?s "[]" ?p] assms up by auto
  then show ?thesis by (auto simp: kinit_def freerange_def monad_simps)
qed

section \<open>The contract of the allocator\<close>

text \<open>What the rest of the kernel relies on: \<open>free s ps\<close> says that the frames \<open>ps\<close> can be allocated,
  \<open>good s p\<close> that \<open>p\<close> is a frame of the allocator.\<close>

locale frame_allocator =
  fixes alloc :: "('s, addr) kfun"
    and dealloc :: "addr \<Rightarrow> ('s, unit) kfun"
    and free :: "'s \<Rightarrow> addr list \<Rightarrow> bool"
    and good :: "'s \<Rightarrow> addr \<Rightarrow> bool"
  assumes alloc_some: "free s (p # ps) \<Longrightarrow> \<exists>t. alloc s = Ret p t \<and> free t ps \<and> good t = good s"
    and alloc_none: "free s [] \<Longrightarrow> alloc s = Ret 0 s"
    and dealloc_good: "free s ps \<Longrightarrow> good s p \<Longrightarrow> p \<notin> set ps \<Longrightarrow>
      \<exists>t. dealloc p s = Ret () t \<and> free t (p # ps) \<and> good t = good s"
    and free_frames: "free s ps \<Longrightarrow> distinct ps \<and> 0 \<notin> set ps \<and> (\<forall>p\<in>set ps. good s p)"
begin

lemma alloc_nonzero: "free s ps \<Longrightarrow> alloc s = Ret p t \<Longrightarrow> p = 0 \<longleftrightarrow> ps = []"
  using alloc_some alloc_none free_frames by (cases ps) fastforce+

lemma alloc_dealloc:
  assumes "free s (p # ps)"
  shows "\<exists>t u. alloc s = Ret p t \<and> dealloc p t = Ret () u \<and> free u (p # ps)"
proof -
  obtain t where t: "alloc s = Ret p t" "free t ps" "good t = good s"
    using alloc_some [OF assms] by blast
  moreover have "good s p" "p \<notin> set ps" using free_frames [OF assms] by auto
  ultimately show ?thesis using dealloc_good [of t ps p] by auto
qed

lemma alloc_list:
  "free s (fs @ ps) \<Longrightarrow> \<exists>t. mapM (\<lambda>_. alloc) fs s = Ret fs t \<and> free t ps \<and> good t = good s"
proof (induction fs arbitrary: s)
  case (Cons f fs)
  then obtain t where "alloc s = Ret f t" "free t (fs @ ps)" "good t = good s"
    using alloc_some [of s f "fs @ ps"] by auto
  with Cons.IH [of t] show ?case by (auto simp: monad_simps)
qed (simp add: monad_simps)

lemma dealloc_list:
  "free s ps \<Longrightarrow> \<forall>f\<in>set fs. good s f \<Longrightarrow> distinct fs \<Longrightarrow> set fs \<inter> set ps = {} \<Longrightarrow>
    \<exists>t. for_each fs dealloc s = Ret () t \<and> free t (rev fs @ ps)"
proof (induction fs arbitrary: s ps)
  case (Cons f fs)
  then obtain t where "dealloc f s = Ret () t" "free t (f # ps)" "good t = good s"
    using dealloc_good [of s ps f] by auto
  moreover from this Cons.prems obtain u where "for_each fs dealloc t = Ret () u" "free u (rev fs @ f # ps)"
    using Cons.IH [of t "f # ps"] by auto
  ultimately show ?case by (auto simp: monad_simps)
qed (simp add: monad_simps)

end

definition kmem_free :: "'z mstate_scheme \<Rightarrow> addr list \<Rightarrow> bool" where
  "kmem_free s ps \<longleftrightarrow> kmem_inv s ps \<and> KmemLock \<notin> set (held s)"

interpretation km: frame_allocator kalloc kfree kmem_free "\<lambda>s. frame_ok (kend s)"
proof
  fix s :: "'z mstate_scheme" and p ps
  assume f: "kmem_free s (p # ps)"
  then show "\<exists>t. kalloc s = Ret p t \<and> kmem_free t ps \<and> frame_ok (kend t) = frame_ok (kend s)"
    using kalloc_run [of s p ps] kalloc_inv [of s p ps] by (auto simp: kmem_free_def)
next
  fix s :: "'z mstate_scheme" and p ps
  assume "kmem_free s ps" "frame_ok (kend s) p" "p \<notin> set ps"
  then show "\<exists>t. kfree p s = Ret () t \<and> kmem_free t (p # ps) \<and> frame_ok (kend t) = frame_ok (kend s)"
    using kfree_run [of s p] kfree_inv [of s ps p] by (auto simp: kmem_free_def)
qed (auto simp: kmem_free_def kalloc_empty kmem_inv_nonzero, auto simp: kmem_inv_def)

section \<open>A small machine\<close>

text \<open>A machine with four free frames at the top of RAM, for concrete runs.\<close>

definition small_ram :: mstate where
  "small_ram = \<lparr>held = [],
     mem = store64 (store64 (store64 (\<lambda>_. 0) 0x87FFC000 0x87FFD000) 0x87FFD000 0x87FFE000)
       0x87FFE000 0x87FFF000,
     freelist = 0x87FFC000, kend = 0x87FFC000\<rparr>"

lemma small_ram_free: "kmem_free small_ram [0x87FFC000, 0x87FFD000, 0x87FFE000, 0x87FFF000]"
  by (simp add: kmem_free_def kmem_inv_def small_ram_def frame_ok_def page_aligned_def
      PHYSTOP_def KERNBASE_def load64_store64_other load64_of_zero)

text \<open>Memory whose free list is a given list of frames, for larger examples.\<close>

definition head_of :: "addr list \<Rightarrow> addr" where
  "head_of ps = (case ps of [] \<Rightarrow> 0 | p # _ \<Rightarrow> p)"

primrec chain_mem :: "addr list \<Rightarrow> pmem" where
  "chain_mem [] = (\<lambda>_. 0)"
| "chain_mem (p # ps) = store64 (chain_mem ps) p (head_of ps)"

definition top_frames :: "nat \<Rightarrow> addr list" where
  "top_frames n = map (\<lambda>i. 0x87000000 + 4096 * of_nat i) [0..<n]"

lemma chain_mem_chain:
  assumes "\<forall>p\<in>set ps. page_aligned p" and "distinct ps"
  shows "free_chain (chain_mem ps) (head_of ps) ps"
  using assms
proof (induction ps)
  case (Cons p ps)
  have "store64 m p v a = m a" if "\<not> in_page p a" for m v a
  proof -
    have "\<not> in_range p 8 a" using that Cons.prems(1) by (auto simp: in_range_def)
    then show ?thesis by (rule store64_other)
  qed
  then have "free_chain (chain_mem (p # ps)) r ps = free_chain (chain_mem ps) r ps" for r
    using Cons.prems by (intro free_chain_frame [where p = p]) auto
  with Cons show ?case by (simp add: head_of_def)
qed (simp add: head_of_def)

lemma top_frames_ok:
  assumes "n \<le> 4096"
  shows "distinct (top_frames n)" and "\<forall>p\<in>set (top_frames n). frame_ok 0x87000000 p" and "length (top_frames n) = n"
proof -
  have u: "unat (0x87000000 + 4096 * of_nat i :: addr) = 0x87000000 + 4096 * i" if "i < n" for i
    using that assms by (simp add: unat_word_ariths unat_of_nat)
  have "inj_on (\<lambda>i. 0x87000000 + 4096 * of_nat i :: addr) {0..<n}"
  proof (rule inj_onI)
    fix i j
    assume ij: "i \<in> {0..<n}" "j \<in> {0..<n}" "(0x87000000 + 4096 * of_nat i :: addr) = 0x87000000 + 4096 * of_nat j"
    from ij(1,2) have "i < n" "j < n" by auto
    from u [OF this(1)] u [OF this(2)] have "0x87000000 + 4096 * i = 0x87000000 + 4096 * j" unfolding ij(3) by linarith
    then show "i = j" by simp
  qed
  then show "distinct (top_frames n)" by (simp add: top_frames_def distinct_map)
  show "\<forall>p\<in>set (top_frames n). frame_ok 0x87000000 p"
    using u assms by (auto simp: top_frames_def frame_ok_def page_aligned_def word_le_nat_alt word_less_nat_alt
        PHYSTOP_def KERNBASE_def)
qed (simp add: top_frames_def)

text \<open>A state whose free frames are the first \<open>n\<close> pages from \<open>0x87000000\<close> on.\<close>

definition with_frames :: "nat \<Rightarrow> 'z mstate_scheme \<Rightarrow> 'z mstate_scheme" where
  "with_frames n s = s\<lparr>mem := chain_mem (top_frames n), freelist := head_of (top_frames n), kend := 0x87000000\<rparr>"

lemma with_frames_free:
  assumes "n \<le> 4096" and "KmemLock \<notin> set (held s)"
  shows "kmem_free (with_frames n s) (top_frames n)"
proof -
  note ok = top_frames_ok [OF assms(1)]
  then have "\<forall>p\<in>set (top_frames n). page_aligned p" by (auto simp: frame_ok_def)
  from chain_mem_chain [OF this ok(1)] ok assms(2) show ?thesis
    by (simp add: kmem_free_def kmem_inv_def with_frames_def)
qed

section \<open>Properties\<close>

text \<open>C16: \<open>kinit\<close> puts every whole page between the end of the kernel and \<open>PHYSTOP\<close> on the free list,
  each of them once, and nothing else, and leaves the allocator's lock free.\<close>

theorem kinit_frees_all:
  assumes "freelist s = 0" and "0 < kend s" and "kend s \<le> PHYSTOP"
  shows "\<exists>t ps. kinit s = Ret () t \<and> kmem_free t ps \<and> distinct ps \<and>
    set ps = {p. page_aligned p \<and> kend s \<le> p \<and> p < PHYSTOP}"
proof -
  obtain t ps where "kinit s = Ret () t" "kmem_inv t ps" "set ps = {p. frame_ok (kend s) p}"
      "set (held t) = set (held s) - {KmemLock}"
    using kinit_all [OF assms] by blast
  moreover from this have "kmem_free t ps" "distinct ps" by (simp_all add: kmem_free_def kmem_inv_def)
  ultimately show ?thesis unfolding frame_ok_def by blast
qed

theorem kinit_frees_all_witness:
  "\<exists>t ps. kinit (small_ram\<lparr>freelist := 0\<rparr>) = Ret () t \<and> kmem_free t ps \<and> distinct ps \<and>
    set ps = {p. page_aligned p \<and> 0x87FFC000 \<le> p \<and> p < PHYSTOP}"
  using kinit_frees_all [of "small_ram\<lparr>freelist := 0\<rparr>"]
  by (simp add: small_ram_def PHYSTOP_def KERNBASE_def)

text \<open>C17: \<open>kalloc\<close> takes the first frame off the free list, fills it with 5s and changes no other byte;
  with an empty list it returns 0 and changes nothing.\<close>

theorem kalloc_correct:
  assumes "kmem_free s ps"
  shows "case ps of [] \<Rightarrow> kalloc s = Ret 0 s
    | p # qs \<Rightarrow> \<exists>t. kalloc s = Ret p t \<and> p \<noteq> 0 \<and> frame_ok (kend s) p \<and> kmem_free t qs \<and>
        (\<forall>a. mem t a = (if in_page p a then 5 else mem s a))"
proof (cases ps)
  case (Cons p qs)
  with assms km.free_frames [OF assms] km.alloc_some [of s p qs] kalloc_run [of s p qs] show ?thesis
    by (auto simp: kmem_free_def memset_eq)
qed (use assms in \<open>simp add: km.alloc_none\<close>)

theorem kalloc_correct_witness:
  "\<exists>t. kalloc small_ram = Ret 0x87FFC000 t \<and> kmem_free t [0x87FFD000, 0x87FFE000, 0x87FFF000]"
  using kalloc_correct [OF small_ram_free] by auto

text \<open>C18: \<open>kfree\<close> of an allocated frame puts it at the head of the free list and touches no byte outside
  the frame; an address that is misaligned or outside the allocator's memory makes it panic.\<close>

theorem kfree_correct:
  assumes "kmem_free s ps" and "p \<notin> set ps"
  shows "if frame_ok (kend s) p
    then \<exists>t. kfree p s = Ret () t \<and> kmem_free t (p # ps) \<and> (\<forall>a. \<not> in_page p a \<longrightarrow> mem t a = mem s a)
    else kfree p s = Panic ''kfree''"
proof (cases "frame_ok (kend s) p")
  case True
  then obtain t where t: "kfree p s = Ret () t" "kmem_free t (p # ps)"
    using km.dealloc_good [OF assms(1) True assms(2)] by blast
  have "mem t = store64 (memset (mem s) p 1 4096) p (freelist s)"
    using kfree_run [OF True] t(1) assms(1) by (auto simp: kmem_free_def)
  moreover have "\<not> in_range p 8 a" if "\<not> in_page p a" for a using that by (simp add: in_range_def)
  ultimately have "\<forall>a. \<not> in_page p a \<longrightarrow> mem t a = mem s a" by (simp add: store64_other memset_eq)
  with t True show ?thesis by auto
qed (simp add: kfree_bad)

theorem kfree_correct_witness:
  "\<exists>t u. kalloc small_ram = Ret 0x87FFC000 t \<and> kfree 0x87FFC000 t = Ret () u \<and>
    kmem_free u [0x87FFC000, 0x87FFD000, 0x87FFE000, 0x87FFF000]"
proof -
  obtain t where t: "kalloc small_ram = Ret 0x87FFC000 t" "kmem_free t [0x87FFD000, 0x87FFE000, 0x87FFF000]"
      "frame_ok (kend t) = frame_ok (kend small_ram)"
    using km.alloc_some [OF small_ram_free] by blast
  moreover have "frame_ok (kend t) 0x87FFC000"
    using t(3) km.free_frames [OF small_ram_free] by simp
  ultimately show ?thesis using kfree_correct [OF t(2), of "0x87FFC000"] by auto
qed

text \<open>C19: frames handed out by a run of \<open>kalloc\<close> calls are distinct and nonzero, and freeing them all, in
  any order, makes exactly the frames that were free before free again.\<close>

theorem kalloc_kfree_many:
  assumes "kmem_free s (fs @ ps)" and "distinct gs" and "set gs = set fs"
  shows "\<exists>t u. mapM (\<lambda>_. kalloc) fs s = Ret fs t \<and> distinct fs \<and> 0 \<notin> set fs \<and> kmem_free t ps \<and>
    for_each gs kfree t = Ret () u \<and> kmem_free u (rev gs @ ps)"
proof -
  obtain t where t: "mapM (\<lambda>_. kalloc) fs s = Ret fs t" "kmem_free t ps" "frame_ok (kend t) = frame_ok (kend s)"
    using km.alloc_list [OF assms(1)] by blast
  note f = km.free_frames [OF assms(1)]
  obtain u where "for_each gs kfree t = Ret () u" "kmem_free u (rev gs @ ps)"
    using km.dealloc_list [OF t(2), of gs] t(3) f assms(2,3) by auto
  with t f show ?thesis by auto
qed

theorem kalloc_kfree_many_witness:
  "\<exists>t u. mapM (\<lambda>_. kalloc) [0x87FFC000, 0x87FFD000] small_ram = Ret [0x87FFC000, 0x87FFD000] t \<and>
    for_each [0x87FFC000, 0x87FFD000] kfree t = Ret () u \<and>
    kmem_free u [0x87FFD000, 0x87FFC000, 0x87FFE000, 0x87FFF000]"
  using kalloc_kfree_many [of small_ram "[0x87FFC000, 0x87FFD000]" "[0x87FFE000, 0x87FFF000]"
      "[0x87FFC000, 0x87FFD000]"] small_ram_free by auto

end
