(* ===== verification/Vm.thy ===== *)
theory Vm
  imports Kalloc
begin

text \<open>
  Page tables, the first part of \<open>kernel/vm.c\<close>: the three-level Sv39 walk over page-table pages
  in physical memory, mapping, unmapping, growing, copying and freeing user address spaces.
  The linker symbols \<open>etext\<close> and \<open>trampoline\<close> are fields that nothing changes.  A page-table
  pointer is the physical address of the page, as in the source; the entry for \<open>PX level va\<close>
  is the 64-bit word at \<open>pte_at pagetable level va\<close>.
\<close>

unbundle bit_operations_syntax

section \<open>State\<close>

record vstate = mstate +
  kernel_pagetable :: addr
  satp :: uint64
  etext :: addr
  trampoline :: addr

definition load_pte :: "addr \<Rightarrow> ('z mstate_scheme, uint64) kfun" where
  "load_pte a = gets (\<lambda>s. load64 (mem s) a)"

definition store_pte :: "addr \<Rightarrow> uint64 \<Rightarrow> ('z mstate_scheme, unit) kfun" where
  "store_pte a v = modify (\<lambda>s. s\<lparr>mem := store64 (mem s) a v\<rparr>)"

definition zero_page :: "addr \<Rightarrow> ('z mstate_scheme, unit) kfun" where
  "zero_page p = modify (\<lambda>s. s\<lparr>mem := memset (mem s) p 0 (unat PGSIZE)\<rparr>)"

section \<open>Walking and mapping\<close>

text \<open>The loop of \<open>walk\<close> from \<open>level\<close> down to 1; the last argument is \<open>alloc\<close>.\<close>

primrec walk_loop :: "nat \<Rightarrow> addr \<Rightarrow> uint64 \<Rightarrow> bool \<Rightarrow> ('z mstate_scheme, addr) kfun" where
  "walk_loop 0 pagetable va alloc = ret (pte_at pagetable 0 va)"
| "walk_loop (Suc level) pagetable va alloc =
     bnd (load_pte (pte_at pagetable (Suc level) va)) (\<lambda>pte.
       if pte AND PTE_V \<noteq> 0 then walk_loop level (PTE2PA pte) va alloc
       else if \<not> alloc then ret 0
       else bnd kalloc (\<lambda>new.
         if new = 0 then ret 0
         else thn (zero_page new)
             (thn (store_pte (pte_at pagetable (Suc level) va) (PA2PTE new OR PTE_V))
                  (walk_loop level new va alloc))))"

definition walk :: "addr \<Rightarrow> uint64 \<Rightarrow> bool \<Rightarrow> ('z mstate_scheme, addr) kfun" where
  "walk pagetable va alloc =
     (if va \<ge> MAXVA then panic ''walk'' else walk_loop 2 pagetable va alloc)"

definition walkaddr :: "addr \<Rightarrow> uint64 \<Rightarrow> ('z mstate_scheme, addr) kfun" where
  "walkaddr pagetable va =
     (if va \<ge> MAXVA then ret 0
      else bnd (walk pagetable va False) (\<lambda>pte.
        if pte = 0 then ret 0
        else bnd (load_pte pte) (\<lambda>v.
          if v AND PTE_V = 0 then ret 0
          else if v AND PTE_U = 0 then ret 0
          else ret (PTE2PA v))))"

lemma walk_Ret_less: "walk pt va al s = Ret r t \<Longrightarrow> va < MAXVA"
  by (auto simp: walk_def returns_iff not_le split: if_splits)

lemma unat_MAXVA: "unat MAXVA = 2 ^ 38"
  by (simp add: MAXVA_def push_bit_eq_mult)

lemma next_page_decreases:
  "a < MAXVA \<Longrightarrow> 2 ^ 64 - unat (a + PGSIZE) < 2 ^ 64 - unat a"
  by (simp add: word_less_nat_alt unat_MAXVA PGSIZE_def unat_word_ariths)

text \<open>The loop of \<open>mappages\<close> from address \<open>a\<close> on; it ends because \<open>walk\<close> panics from \<open>MAXVA\<close> on.\<close>

function mappages_loop ::
  "addr \<Rightarrow> uint64 \<Rightarrow> uint64 \<Rightarrow> uint64 \<Rightarrow> uint64 \<Rightarrow> ('z mstate_scheme, int) kfun" where
  "mappages_loop pagetable a lst pa perm s =
     bnd (walk pagetable a True) (\<lambda>pte.
       if pte = 0 then ret (- 1)
       else bnd (load_pte pte) (\<lambda>v.
         if v AND PTE_V \<noteq> 0 then panic ''remap''
         else thn (store_pte pte (PA2PTE pa OR perm OR PTE_V))
           (if a = lst then ret 0
            else mappages_loop pagetable (a + PGSIZE) lst (pa + PGSIZE) perm))) s"
  by pat_completeness auto
termination
  by (relation "measure (\<lambda>(pt, a, lst, pa, perm, s). 2 ^ 64 - unat a)")
    (auto dest!: walk_Ret_less intro!: next_page_decreases [simplified])

declare mappages_loop.simps [simp del]

definition mappages ::
  "addr \<Rightarrow> uint64 \<Rightarrow> uint64 \<Rightarrow> uint64 \<Rightarrow> uint64 \<Rightarrow> ('z mstate_scheme, int) kfun" where
  "mappages pagetable va sz pa perm =
     mappages_loop pagetable (PGROUNDDOWN va) (PGROUNDDOWN (va + sz - 1)) pa perm"

definition kvmmap ::
  "addr \<Rightarrow> uint64 \<Rightarrow> uint64 \<Rightarrow> uint64 \<Rightarrow> uint64 \<Rightarrow> ('z mstate_scheme, unit) kfun" where
  "kvmmap kpgtbl va pa sz perm =
     bnd (mappages kpgtbl va sz pa perm) (\<lambda>r. if r \<noteq> 0 then panic ''kvmmap'' else ret ())"

section \<open>Unmapping\<close>

function uvmunmap_loop ::
  "addr \<Rightarrow> uint64 \<Rightarrow> uint64 \<Rightarrow> bool \<Rightarrow> ('z mstate_scheme, unit) kfun" where
  "uvmunmap_loop pagetable a stop do_free s =
     (if a < stop
      then bnd (walk pagetable a False) (\<lambda>pte.
        if pte = 0 then panic ''uvmunmap: walk''
        else bnd (load_pte pte) (\<lambda>v.
          if v AND PTE_V = 0 then panic ''uvmunmap: not mapped''
          else if PTE_FLAGS v = PTE_V then panic ''uvmunmap: not a leaf''
          else thn (if do_free then kfree (PTE2PA v) else ret ())
              (thn (store_pte pte 0)
                   (uvmunmap_loop pagetable (a + PGSIZE) stop do_free)))) s
      else Ret () s)"
  by pat_completeness auto
termination
  by (relation "measure (\<lambda>(pt, a, stop, f, s). 2 ^ 64 - unat a)")
    (auto dest!: walk_Ret_less intro!: next_page_decreases [simplified])

declare uvmunmap_loop.simps [simp del]

definition uvmunmap :: "addr \<Rightarrow> uint64 \<Rightarrow> uint64 \<Rightarrow> bool \<Rightarrow> ('z mstate_scheme, unit) kfun" where
  "uvmunmap pagetable va npages do_free =
     (if va mod PGSIZE \<noteq> 0 then panic ''uvmunmap: not aligned''
      else uvmunmap_loop pagetable va (va + npages * PGSIZE) do_free)"

section \<open>User address spaces\<close>

definition uvmcreate :: "('z mstate_scheme, addr) kfun" where
  "uvmcreate = bnd kalloc (\<lambda>pagetable.
     if pagetable = 0 then ret 0 else thn (zero_page pagetable) (ret pagetable))"

definition uvminit :: "addr \<Rightarrow> addr \<Rightarrow> uint32 \<Rightarrow> ('z mstate_scheme, unit) kfun" where
  "uvminit pagetable src sz =
     (if ucast sz \<ge> PGSIZE then panic ''inituvm: more than a page''
      else bnd kalloc (\<lambda>m.
        thn (zero_page m)
       (thn (mappages pagetable 0 PGSIZE m (PTE_W OR PTE_R OR PTE_X OR PTE_U))
            (modify (\<lambda>s. s\<lparr>mem := memmove (mem s) m src sz\<rparr>)))))"

definition uvmdealloc :: "addr \<Rightarrow> uint64 \<Rightarrow> uint64 \<Rightarrow> ('z mstate_scheme, uint64) kfun" where
  "uvmdealloc pagetable oldsz newsz =
     (if newsz \<ge> oldsz then ret oldsz
      else thn (if PGROUNDUP newsz < PGROUNDUP oldsz
                then let npages = (ucast ((PGROUNDUP oldsz - PGROUNDUP newsz) div PGSIZE) :: uint32)
                     in uvmunmap pagetable (PGROUNDUP newsz) (scast npages) True
                else ret ())
               (ret newsz))"

lemma mappages_Ret_less: "mappages pt va PGSIZE pa perm s = Ret r t \<Longrightarrow> va < MAXVA"
proof -
  assume "mappages pt va PGSIZE pa perm s = Ret r t"
  then have "PGROUNDDOWN va < MAXVA"
    by (subst (asm) mappages_def, subst (asm) mappages_loop.simps)
      (auto simp: bnd_Ret_iff dest: walk_Ret_less)
  then show ?thesis
    by (auto simp: word_less_nat_alt unat_PGROUNDDOWN unat_MAXVA)
qed

function uvmalloc_loop ::
  "addr \<Rightarrow> uint64 \<Rightarrow> uint64 \<Rightarrow> uint64 \<Rightarrow> ('z mstate_scheme, uint64) kfun" where
  "uvmalloc_loop pagetable a oldsz newsz s =
     (if a < newsz
      then bnd kalloc (\<lambda>m.
        if m = 0 then thn (uvmdealloc pagetable a oldsz) (ret 0)
        else thn (zero_page m)
          (bnd (mappages pagetable a PGSIZE m (PTE_W OR PTE_X OR PTE_R OR PTE_U)) (\<lambda>r.
             if r \<noteq> 0 then thn (kfree m) (thn (uvmdealloc pagetable a oldsz) (ret 0))
             else uvmalloc_loop pagetable (a + PGSIZE) oldsz newsz))) s
      else Ret newsz s)"
  by pat_completeness auto
termination
  by (relation "measure (\<lambda>(pt, a, oldsz, newsz, s). 2 ^ 64 - unat a)")
    (auto dest!: mappages_Ret_less intro!: next_page_decreases [simplified])

declare uvmalloc_loop.simps [simp del]

definition uvmalloc :: "addr \<Rightarrow> uint64 \<Rightarrow> uint64 \<Rightarrow> ('z mstate_scheme, uint64) kfun" where
  "uvmalloc pagetable oldsz newsz =
     (if newsz < oldsz then ret oldsz
      else uvmalloc_loop pagetable (PGROUNDUP oldsz) (PGROUNDUP oldsz) newsz)"

text \<open>\<open>freewalk\<close> recurses into lower-level tables; the first argument bounds the depth.  Sv39
  tables have three levels, so 3 is enough for every table that \<open>walk\<close> builds.\<close>

primrec freewalk :: "nat \<Rightarrow> addr \<Rightarrow> ('z mstate_scheme, unit) kfun" where
  "freewalk 0 pagetable = undef ''freewalk: deeper than the bound''"
| "freewalk (Suc depth) pagetable =
     thn (for_each [0..<512] (\<lambda>i.
            bnd (load_pte (pagetable + 8 * of_nat i)) (\<lambda>pte.
              if pte AND PTE_V \<noteq> 0 \<and> pte AND (PTE_R OR PTE_W OR PTE_X) = 0
              then thn (freewalk depth (PTE2PA pte)) (store_pte (pagetable + 8 * of_nat i) 0)
              else if pte AND PTE_V \<noteq> 0 then panic ''freewalk: leaf''
              else ret ())))
         (kfree pagetable)"

definition uvmfree :: "addr \<Rightarrow> uint64 \<Rightarrow> ('z mstate_scheme, unit) kfun" where
  "uvmfree pagetable sz =
     thn (if sz > 0 then uvmunmap pagetable 0 (PGROUNDUP sz div PGSIZE) True else ret ())
         (freewalk 3 pagetable)"

function uvmcopy_loop :: "addr \<Rightarrow> addr \<Rightarrow> uint64 \<Rightarrow> uint64 \<Rightarrow> ('z mstate_scheme, int) kfun" where
  "uvmcopy_loop old new i sz s =
     (if i < sz
      then bnd (walk old i False) (\<lambda>pte.
        if pte = 0 then panic ''uvmcopy: pte should exist''
        else bnd (load_pte pte) (\<lambda>v.
          if v AND PTE_V = 0 then panic ''uvmcopy: page not present''
          else bnd kalloc (\<lambda>m.
            if m = 0 then thn (uvmunmap new 0 (i div PGSIZE) True) (ret (- 1))
            else thn (modify (\<lambda>s. s\<lparr>mem := memmove (mem s) m (PTE2PA v) (ucast PGSIZE)\<rparr>))
              (bnd (mappages new i PGSIZE m (PTE_FLAGS v)) (\<lambda>r.
                 if r \<noteq> 0 then thn (kfree m) (thn (uvmunmap new 0 (i div PGSIZE) True) (ret (- 1)))
                 else uvmcopy_loop old new (i + PGSIZE) sz))))) s
      else Ret 0 s)"
  by pat_completeness auto
termination
  by (relation "measure (\<lambda>(old, new, i, sz, s). 2 ^ 64 - unat i)")
    (auto dest!: walk_Ret_less intro!: next_page_decreases [simplified])

declare uvmcopy_loop.simps [simp del]

definition uvmcopy :: "addr \<Rightarrow> addr \<Rightarrow> uint64 \<Rightarrow> ('z mstate_scheme, int) kfun" where
  "uvmcopy old new sz = uvmcopy_loop old new 0 sz"

definition uvmclear :: "addr \<Rightarrow> uint64 \<Rightarrow> ('z mstate_scheme, unit) kfun" where
  "uvmclear pagetable va = bnd (walk pagetable va False) (\<lambda>pte.
     if pte = 0 then panic ''uvmclear''
     else bnd (load_pte pte) (\<lambda>v. store_pte pte (v AND NOT PTE_U)))"

section \<open>The kernel's own page table\<close>

definition proc_mapstacks :: "addr \<Rightarrow> ('z mstate_scheme, unit) kfun" where
  "proc_mapstacks kpgtbl = for_each [0..<NPROC] (\<lambda>i.
     bnd kalloc (\<lambda>pa.
       if pa = 0 then panic ''kalloc''
       else kvmmap kpgtbl (KSTACK (of_nat i)) pa PGSIZE (PTE_R OR PTE_W)))"

definition kvmmake :: "('z vstate_scheme, addr) kfun" where
  "kvmmake = bnd kalloc (\<lambda>kpgtbl.
     bnd (gets etext) (\<lambda>etxt. bnd (gets trampoline) (\<lambda>tramp.
       thn (zero_page kpgtbl)
      (thn (kvmmap kpgtbl UART0 UART0 PGSIZE (PTE_R OR PTE_W))
      (thn (kvmmap kpgtbl VIRTIO0 VIRTIO0 PGSIZE (PTE_R OR PTE_W))
      (thn (kvmmap kpgtbl PLIC PLIC 0x400000 (PTE_R OR PTE_W))
      (thn (kvmmap kpgtbl KERNBASE KERNBASE (etxt - KERNBASE) (PTE_R OR PTE_X))
      (thn (kvmmap kpgtbl etxt etxt (PHYSTOP - etxt) (PTE_R OR PTE_W))
      (thn (kvmmap kpgtbl TRAMPOLINE tramp PGSIZE (PTE_R OR PTE_X))
      (thn (proc_mapstacks kpgtbl)
           (ret kpgtbl)))))))))))"

definition kvminit :: "('z vstate_scheme, unit) kfun" where
  "kvminit = bnd kvmmake (\<lambda>k. modify (\<lambda>s. s\<lparr>kernel_pagetable := k\<rparr>))"

definition SATP_SV39 :: uint64 where "SATP_SV39 = push_bit 60 8"

definition MAKE_SATP :: "addr \<Rightarrow> uint64" where
  "MAKE_SATP pagetable = SATP_SV39 OR drop_bit 12 pagetable"

definition kvminithart :: "('z vstate_scheme, unit) kfun" where
  "kvminithart = modify (\<lambda>s. s\<lparr>satp := MAKE_SATP (kernel_pagetable s)\<rparr>)"

end
