(* ===== verification/PageTable.thy ===== *)
theory PageTable
  imports Vm
begin

text \<open>
  The abstract view of a page table: \<open>node m pt d va\<close> is the table page that the walk for \<open>va\<close>
  reaches after \<open>d\<close> steps from the root, and \<open>vmap m pt va\<close> the leaf entry for \<open>va\<close> (0 when there
  is none).  \<open>pt_inj\<close> says that the table is a tree: a page is reached at one depth only and only
  by addresses that agree on the indices above it.  The lemmas show how the two kinds of writes
  that \<open>vm.c\<close> does to tables, linking in a fresh page and setting a leaf entry, act on this view,
  and from them what \<open>walk\<close>, \<open>mappages\<close> and \<open>uvmunmap\<close> do.
\<close>

unbundle bit_operations_syntax

section \<open>Tables as trees\<close>

definition table_step :: "pmem \<Rightarrow> nat \<Rightarrow> addr \<Rightarrow> uint64 \<Rightarrow> addr option" where
  "table_step m level p va =
     (let pte = load64 m (pte_at p level va)
      in if pte AND PTE_V \<noteq> 0 then Some (PTE2PA pte) else None)"

primrec node :: "pmem \<Rightarrow> addr \<Rightarrow> nat \<Rightarrow> uint64 \<Rightarrow> addr option" where
  "node m pt 0 va = Some pt"
| "node m pt (Suc d) va = Option.bind (node m pt d va) (\<lambda>p. table_step m (2 - d) p va)"

definition vmap :: "pmem \<Rightarrow> addr \<Rightarrow> uint64 \<Rightarrow> uint64" where
  "vmap m pt va = (case node m pt 2 va of None \<Rightarrow> 0 | Some p \<Rightarrow> load64 m (pte_at p 0 va))"

definition agree :: "nat \<Rightarrow> uint64 \<Rightarrow> uint64 \<Rightarrow> bool" where
  "agree d va vb \<longleftrightarrow> (\<forall>k<d. PX (2 - k) va = PX (2 - k) vb)"

definition pt_inj :: "pmem \<Rightarrow> addr \<Rightarrow> bool" where
  "pt_inj m pt \<longleftrightarrow> (\<forall>d\<le>2. \<forall>e\<le>2. \<forall>va vb p.
     node m pt d va = Some p \<longrightarrow> node m pt e vb = Some p \<longrightarrow> d = e \<and> agree d va vb)"

definition tables :: "pmem \<Rightarrow> addr \<Rightarrow> addr set" where
  "tables m pt = {p. \<exists>d\<le>2. \<exists>va. node m pt d va = Some p}"

lemma agree_refl [simp]: "agree d va va"
  by (simp add: agree_def)

lemma agree_sym: "agree d va vb \<Longrightarrow> agree d vb va"
  by (simp add: agree_def)

lemma agree_Suc: "agree (Suc d) va vb \<longleftrightarrow> agree d va vb \<and> PX (2 - d) va = PX (2 - d) vb"
  by (auto simp: agree_def less_Suc_eq)

lemma agree_mono: "agree e va vb \<Longrightarrow> d \<le> e \<Longrightarrow> agree d va vb"
  by (simp add: agree_def)

lemma node_agree: "agree d va vb \<Longrightarrow> node m pt d va = node m pt d vb"
  by (induction d) (simp_all add: agree_Suc table_step_def pte_at_def)

lemma node_aligned: "page_aligned pt \<Longrightarrow> node m pt d va = Some p \<Longrightarrow> page_aligned p"
  by (cases d) (auto simp: bind_eq_Some_conv table_step_def Let_def split: if_splits)

lemma node_in_tables: "node m pt d va = Some p \<Longrightarrow> d \<le> 2 \<Longrightarrow> p \<in> tables m pt"
  by (auto simp: tables_def)

lemma root_in_tables [simp]: "pt \<in> tables m pt"
  using node_in_tables [of m pt 0] by simp

lemma tables_aligned: "page_aligned pt \<Longrightarrow> p \<in> tables m pt \<Longrightarrow> page_aligned p"
  by (auto simp: tables_def dest: node_aligned)

lemma pt_injD:
  assumes "pt_inj m pt" and "node m pt d va = Some p" and "node m pt e vb = Some p"
    and "d \<le> 2" and "e \<le> 2"
  shows "d = e" and "agree d va vb"
  using assms unfolding pt_inj_def by blast+

lemma in_range_refl: "in_range a 8 a"
  by (simp add: in_range_def)

text \<open>The page \<open>p\<close> and the index \<open>PX level va\<close> are determined by the address of the entry.\<close>

lemma pte_at_eq_iff:
  assumes "page_aligned p" and "page_aligned q"
  shows "pte_at p l va = pte_at q k vb \<longleftrightarrow> p = q \<and> PX l va = PX k vb"
proof
  assume eq: "pte_at p l va = pte_at q k vb"
  have "in_page p (pte_at p l va)" "in_page q (pte_at q k vb)"
    using in_page_pte_at [OF assms(1) in_range_refl] in_page_pte_at [OF assms(2) in_range_refl] .
  then have "p = q" using in_page_unique assms eq by metis
  moreover have "unat (PX l va) = unat (PX k vb)"
    using eq unat_pte_at assms \<open>p = q\<close> by (metis add_left_cancel mult_left_cancel zero_neq_numeral)
  ultimately show "p = q \<and> PX l va = PX k vb" by (simp add: word_unat_eq_iff)
qed (simp add: pte_at_def)

text \<open>Memory that differs only outside the table pages has the same tables.\<close>

lemma load_pte_frame:
  assumes "page_aligned p" and "\<And>a. in_page p a \<Longrightarrow> m' a = m a"
  shows "load64 m' (pte_at p l va) = load64 m (pte_at p l va)"
  by (rule load64_cong) (use assms in_page_pte_at in blast)

lemma node_frame:
  assumes "page_aligned pt" and "\<And>p a. p \<in> tables m pt \<Longrightarrow> in_page p a \<Longrightarrow> m' a = m a" and "d \<le> 3"
  shows "node m' pt d va = node m pt d va"
  using assms(3)
proof (induction d)
  case (Suc d)
  then have IH: "node m' pt d va = node m pt d va" by simp
  show ?case
  proof (cases "node m pt d va")
    case (Some p)
    with Suc.prems have "p \<in> tables m pt" by (intro node_in_tables) auto
    then have "load64 m' (pte_at p l va) = load64 m (pte_at p l va)" for l
      using assms tables_aligned by (intro load_pte_frame) blast+
    with IH Some show ?thesis by (simp add: table_step_def)
  qed (use IH in simp)
qed simp

lemma vmap_frame:
  assumes "page_aligned pt" and "\<And>p a. p \<in> tables m pt \<Longrightarrow> in_page p a \<Longrightarrow> m' a = m a"
  shows "vmap m' pt va = vmap m pt va"
proof -
  have "node m' pt 2 va = node m pt 2 va" by (rule node_frame [OF assms]) simp_all
  moreover have "load64 m' (pte_at p 0 va) = load64 m (pte_at p 0 va)" if "node m pt 2 va = Some p" for p
    using that assms node_in_tables [OF that] tables_aligned by (intro load_pte_frame) auto
  ultimately show ?thesis by (simp add: vmap_def split: option.splits)
qed

lemma tables_cong:
  assumes "\<And>d va. d \<le> 2 \<Longrightarrow> node m' pt d va = node m pt d va"
  shows "tables m' pt = tables m pt" and "pt_inj m' pt \<longleftrightarrow> pt_inj m pt"
  using assms by (simp_all add: tables_def pt_inj_def cong: conj_cong)

lemma tables_frame:
  assumes "page_aligned pt" and "\<And>p a. p \<in> tables m pt \<Longrightarrow> in_page p a \<Longrightarrow> m' a = m a"
  shows "tables m' pt = tables m pt" and "pt_inj m' pt \<longleftrightarrow> pt_inj m pt"
  using node_frame [OF assms] by (auto intro!: tables_cong)

section \<open>Writes to tables\<close>

lemma load64_zero_page:
  assumes "page_aligned p" and "\<And>a. in_page p a \<Longrightarrow> m a = 0"
  shows "load64 m (pte_at p l va) = 0"
proof -
  have "load64 m (pte_at p l va) = load64 (\<lambda>_. 0) (pte_at p l va)"
    by (rule load64_cong) (use assms in_page_pte_at in blast)
  then show ?thesis by (simp add: load64_def numeral_eq_Suc)
qed

lemma load_pte_store_pte:
  assumes "page_aligned p" and "page_aligned q"
  shows "load64 (store64 m (pte_at q k vb) v) (pte_at p l va) =
         (if p = q \<and> PX l va = PX k vb then v else load64 m (pte_at p l va))"
proof (cases "pte_at p l va = pte_at q k vb")
  case False
  then have "\<not> (p = q \<and> PX l va = PX k vb)" by (auto simp: pte_at_def)
  with False show ?thesis
    using pte_at_aligned [OF assms(1)] pte_at_aligned [OF assms(2)]
    by (simp only: load64_store64_other if_False)
next
  case True
  with pte_at_eq_iff [OF assms] have "p = q \<and> PX l va = PX k vb" by simp
  with True show ?thesis by (simp only: load64_store64 simp_thms if_True)
qed

text \<open>Linking the zeroed page \<open>n\<close> under the invalid entry of \<open>va\<close> at depth \<open>d\<close>.\<close>

lemma node_link:
  assumes pt: "page_aligned pt" and n: "page_aligned n" and inj: "pt_inj m pt" and "d < 2"
    and q: "node m pt d va = Some q" and fresh: "n \<notin> tables m pt"
    and unlinked: "load64 m (pte_at q (2 - d) va) AND PTE_V = 0"
    and v: "v AND PTE_V \<noteq> 0" "PTE2PA v = n"
    and entry: "\<And>p l vb. page_aligned p \<Longrightarrow> load64 m' (pte_at p l vb) =
      (if p = q \<and> PX l vb = PX (2 - d) va then v
       else if p = n then 0 else load64 m (pte_at p l vb))"
    and "e \<le> 2"
  shows "node m' pt e vb =
    (if d < e \<and> agree (Suc d) va vb then if e = Suc d then Some n else None else node m pt e vb)"
  using \<open>e \<le> 2\<close>
proof (induction e)
  case (Suc e)
  have al: "page_aligned p" if "node m pt k w = Some p" for p k w
    using node_aligned [OF pt that] .
  have "n \<noteq> q" using q fresh \<open>d < 2\<close> node_in_tables by fastforce
  consider (below) "d < e" "agree (Suc d) va vb" | (other) "\<not> (d < e \<and> agree (Suc d) va vb)"
    by blast
  then show ?case
  proof cases
    case below
    with Suc \<open>n \<noteq> q\<close> entry [OF n] show ?thesis by (simp add: table_step_def)
  next
    case other
    with Suc have IH: "node m' pt e vb = node m pt e vb" by auto
    show ?thesis
    proof (cases "node m pt e vb")
      case None
      then have "\<not> (d = e \<and> agree (Suc d) va vb)"
        using q node_agree [of d va vb] by (auto simp: agree_Suc)
      with other IH None show ?thesis by (auto simp: less_Suc_eq)
    next
      case (Some p)
      have "p \<noteq> n" using Some fresh Suc.prems node_in_tables [of m pt e vb p] by auto
      have "p = q \<and> PX (2 - e) vb = PX (2 - d) va \<longleftrightarrow> d = e \<and> agree (Suc d) va vb"
        using pt_injD [OF inj q, of e vb] Some q \<open>d < 2\<close> Suc.prems node_agree [of d va vb m pt]
        by (auto simp: agree_Suc)
      with other IH Some \<open>p \<noteq> n\<close> v entry [OF al [OF Some]] show ?thesis
        by (auto simp: table_step_def less_Suc_eq)
    qed
  qed
qed simp

definition linked :: "pmem \<Rightarrow> pmem \<Rightarrow> addr \<Rightarrow> nat \<Rightarrow> uint64 \<Rightarrow> addr \<Rightarrow> bool" where
  "linked m m' pt d va n \<longleftrightarrow> (\<forall>e\<le>2. \<forall>vb. node m' pt e vb =
     (if d < e \<and> agree (Suc d) va vb then if e = Suc d then Some n else None else node m pt e vb))"

lemma linked_node:
  "linked m m' pt d va n \<Longrightarrow> e \<le> 2 \<Longrightarrow> node m' pt e vb =
     (if d < e \<and> agree (Suc d) va vb then if e = Suc d then Some n else None else node m pt e vb)"
  by (simp add: linked_def)

lemma unlinked_below:
  assumes "node m pt d va = Some q" and "load64 m (pte_at q (2 - d) va) AND PTE_V = 0"
    and "agree (Suc d) va vb" and "d < e"
  shows "node m pt e vb = None"
  using \<open>d < e\<close>
proof (induction e)
  case (Suc e)
  have "node m pt (Suc d) vb = None"
    using assms(1-3) node_agree [OF assms(3), of m pt] by (simp add: table_step_def)
  with Suc show ?case by (cases "d = e") auto
qed simp

lemma linked_inj:
  assumes "linked m m' pt d va n" and inj: "pt_inj m pt" and fresh: "n \<notin> tables m pt"
  shows "pt_inj m' pt"
  unfolding pt_inj_def
proof (intro allI impI)
  fix e f w x p
  assume ef: "e \<le> (2::nat)" "f \<le> 2" and n: "node m' pt e w = Some p" "node m' pt f x = Some p"
  have new: "p = n \<and> k = Suc d \<and> agree (Suc d) va y \<or> p \<noteq> n \<and> node m pt k y = Some p"
    if "k \<le> 2" "node m' pt k y = Some p" for k y
    using that linked_node [OF assms(1) that(1), of y] fresh node_in_tables [of m pt k y p]
    by (auto split: if_splits)
  have "agree (Suc d) w x" if "agree (Suc d) va w" "agree (Suc d) va x"
    using that by (auto simp: agree_def)
  with new [OF ef(1) n(1)] new [OF ef(2) n(2)] show "e = f \<and> agree e w x"
    using pt_injD [OF inj _ _ ef, of w p x] by auto
qed

lemma linked_tables:
  assumes "linked m m' pt d va n"
  shows "tables m' pt \<subseteq> insert n (tables m pt)"
proof
  fix p assume "p \<in> tables m' pt"
  then obtain e vb where "e \<le> 2" "node m' pt e vb = Some p" by (auto simp: tables_def)
  with linked_node [OF assms this(1), of vb] show "p \<in> insert n (tables m pt)"
    by (auto simp: node_in_tables split: if_splits)
qed

lemma linked_vmap:
  assumes "linked m m' pt d va n" and pt: "page_aligned pt" and n: "page_aligned n"
    and inj: "pt_inj m pt" and "d < 2"
    and q: "node m pt d va = Some q" and fresh: "n \<notin> tables m pt"
    and unlinked: "load64 m (pte_at q (2 - d) va) AND PTE_V = 0"
    and entry: "\<And>p l vb. page_aligned p \<Longrightarrow> load64 m' (pte_at p l vb) =
      (if p = q \<and> PX l vb = PX (2 - d) va then v
       else if p = n then 0 else load64 m (pte_at p l vb))"
  shows "vmap m' pt vb = vmap m pt vb"
proof (cases "agree (Suc d) va vb")
  case True
  have "n \<noteq> q" using q fresh \<open>d < 2\<close> node_in_tables by fastforce
  with True linked_node [OF assms(1), of 2 vb] \<open>d < 2\<close> unlinked_below [OF q unlinked True, of 2] entry [OF n]
  show ?thesis by (auto simp: vmap_def)
next
  case False
  then have same: "node m' pt 2 vb = node m pt 2 vb" using linked_node [OF assms(1), of 2 vb] by simp
  show ?thesis
  proof (cases "node m pt 2 vb")
    case (Some p)
    have "p \<noteq> q" using pt_injD(1) [OF inj q, of 2 vb] Some \<open>d < 2\<close> by auto
    moreover have "p \<noteq> n" using Some fresh node_in_tables [of m pt 2 vb p] by auto
    ultimately show ?thesis
      using same Some entry [OF node_aligned [OF pt Some]] by (simp add: vmap_def)
  qed (simp add: vmap_def same)
qed

text \<open>Setting a leaf entry changes the translation of one page and nothing else.\<close>

lemma node_set_leaf:
  assumes pt: "page_aligned pt" and inj: "pt_inj m pt" and q: "node m pt 2 va = Some q" and "e \<le> 2"
  shows "node (store64 m (pte_at q 0 va) v) pt e vb = node m pt e vb"
  using \<open>e \<le> 2\<close>
proof (induction e)
  case (Suc e)
  then have IH: "node (store64 m (pte_at q 0 va) v) pt e vb = node m pt e vb" by simp
  show ?case
  proof (cases "node m pt e vb")
    case (Some p)
    have "p \<noteq> q" using pt_injD(1) [OF inj q, of e vb] Some Suc.prems by auto
    with IH Some node_aligned [OF pt Some] node_aligned [OF pt q] show ?thesis
      by (simp add: table_step_def load_pte_store_pte)
  qed (use IH in simp)
qed simp

lemma vmap_set_leaf:
  assumes pt: "page_aligned pt" and inj: "pt_inj m pt" and q: "node m pt 2 va = Some q"
  shows "vmap (store64 m (pte_at q 0 va) v) pt vb = (if agree 3 va vb then v else vmap m pt vb)"
proof -
  have n: "node (store64 m (pte_at q 0 va) v) pt 2 vb = node m pt 2 vb"
    by (rule node_set_leaf [OF assms]) simp
  have 3: "agree 3 va vb \<longleftrightarrow> agree 2 va vb \<and> PX 0 va = PX 0 vb"
    using agree_Suc [of 2 va vb] by (simp add: numeral_eq_Suc)
  show ?thesis
  proof (cases "node m pt 2 vb")
    case None
    with q node_agree [of 2 va vb m pt] have "\<not> agree 3 va vb" using 3 by auto
    with None n show ?thesis by (simp add: vmap_def)
  next
    case (Some p)
    have "p = q \<longleftrightarrow> agree 2 va vb"
      using pt_injD(2) [OF inj q, of 2 vb] Some q node_agree [of 2 va vb m pt] by auto
    with Some n 3 node_aligned [OF pt Some] node_aligned [OF pt q] show ?thesis
      by (auto simp: vmap_def load_pte_store_pte)
  qed
qed

lemma set_leaf_keeps:
  assumes "page_aligned pt" and "pt_inj m pt" and "node m pt 2 va = Some q"
  shows "pt_inj (store64 m (pte_at q 0 va) v) pt"
    and "tables (store64 m (pte_at q 0 va) v) pt = tables m pt"
  using tables_cong [of "store64 m (pte_at q 0 va) v" pt m] node_set_leaf [OF assms] assms(2)
  by blast+

section \<open>walk\<close>

text \<open>A table in a state whose free frames are \<open>ps\<close>.\<close>

definition pt_wf :: "'z mstate_scheme \<Rightarrow> addr list \<Rightarrow> addr \<Rightarrow> bool" where
  "pt_wf s ps pt \<longleftrightarrow> page_aligned pt \<and> pt_inj (mem s) pt \<and>
     tables (mem s) pt \<inter> set ps = {} \<and> 0 \<notin> tables (mem s) pt"

text \<open>Memory and the free list are all that may differ between \<open>s\<close> and \<open>t\<close>.\<close>

definition mem_only :: "'z mstate_scheme \<Rightarrow> 'z mstate_scheme \<Rightarrow> bool" where
  "mem_only s t \<longleftrightarrow> (\<exists>m f. t = s\<lparr>freelist := f, mem := m\<rparr>)"

lemma mem_only_refl [simp]: "mem_only s s"
  unfolding mem_only_def by (intro exI [of _ "mem s"] exI [of _ "freelist s"]) simp

lemma mem_only_trans: "mem_only s t \<Longrightarrow> mem_only t u \<Longrightarrow> mem_only s u"
  unfolding mem_only_def by fastforce

lemma mem_only_updates [simp]:
  "mem_only s (s\<lparr>freelist := f, mem := m\<rparr>)" "mem_only s (s\<lparr>mem := m\<rparr>)"
  "mem_only s (s\<lparr>mem := m, freelist := f\<rparr>)" "mem_only s (s\<lparr>freelist := f\<rparr>)"
proof -
  have "s\<lparr>mem := m\<rparr> = s\<lparr>freelist := freelist s, mem := m\<rparr>" "s\<lparr>freelist := f\<rparr> = s\<lparr>freelist := f, mem := mem s\<rparr>"
    "s\<lparr>mem := m, freelist := f\<rparr> = s\<lparr>freelist := f, mem := m\<rparr>" by simp_all
  then show "mem_only s (s\<lparr>freelist := f, mem := m\<rparr>)" "mem_only s (s\<lparr>mem := m\<rparr>)"
    "mem_only s (s\<lparr>mem := m, freelist := f\<rparr>)" "mem_only s (s\<lparr>freelist := f\<rparr>)"
    unfolding mem_only_def by metis+
qed

lemma mem_only_keeps: "mem_only s t \<Longrightarrow> held t = held s" "mem_only s t \<Longrightarrow> kend t = kend s"
  by (auto simp: mem_only_def)

text \<open>From \<open>s\<close> to \<open>t\<close> the table took some frames off the front of the free list \<open>ps\<close>, and every
  page outside the table and every other part of the state stayed as it was; \<open>grows\<close> says that
  every translation stayed too.\<close>

definition extends :: "'z mstate_scheme \<Rightarrow> addr list \<Rightarrow> addr \<Rightarrow> 'z mstate_scheme \<Rightarrow> addr list \<Rightarrow> bool" where
  "extends s ps pt t qs \<longleftrightarrow>
     mem_only s t \<and> (\<exists>new. ps = new @ qs) \<and>
     kmem_inv t qs \<and> pt_wf t qs pt \<and>
     tables (mem t) pt \<subseteq> tables (mem s) pt \<union> (set ps - set qs) \<and>
     (\<forall>a. (\<forall>p \<in> tables (mem s) pt \<union> (set ps - set qs). \<not> in_page p a) \<longrightarrow> mem t a = mem s a)"

definition grows :: "'z mstate_scheme \<Rightarrow> addr list \<Rightarrow> addr \<Rightarrow> 'z mstate_scheme \<Rightarrow> addr list \<Rightarrow> bool" where
  "grows s ps pt t qs \<longleftrightarrow> extends s ps pt t qs \<and> (\<forall>vb. vmap (mem t) pt vb = vmap (mem s) pt vb)"

lemma extends_refl: "kmem_inv s ps \<Longrightarrow> pt_wf s ps pt \<Longrightarrow> extends s ps pt s ps"
  by (simp add: extends_def)

lemma grows_refl: "kmem_inv s ps \<Longrightarrow> pt_wf s ps pt \<Longrightarrow> grows s ps pt s ps"
  by (simp add: grows_def extends_refl)

lemma extendsD:
  assumes "extends s ps pt t qs"
  shows "kmem_inv t qs" "pt_wf t qs pt" "held t = held s" "kend t = kend s" "set qs \<subseteq> set ps"
    "length qs \<le> length ps"
    "(\<And>p. p \<in> tables (mem s) pt \<union> (set ps - set qs) \<Longrightarrow> \<not> in_page p a) \<Longrightarrow> mem t a = mem s a"
    "tables (mem t) pt \<subseteq> tables (mem s) pt \<union> (set ps - set qs)"
    "mem_only s t"
  using assms by (auto simp: extends_def mem_only_keeps)

lemma extends_trans:
  assumes "extends s ps pt t qs" and "extends t qs pt u rs"
  shows "extends s ps pt u rs"
proof -
  note a = extendsD [OF assms(1)] and b = extendsD [OF assms(2)]
  have sub: "tables (mem t) pt \<union> (set qs - set rs) \<subseteq> tables (mem s) pt \<union> (set ps - set rs)"
    using a(5,8) b(5) by auto
  have "mem u x = mem s x" if "\<forall>p \<in> tables (mem s) pt \<union> (set ps - set rs). \<not> in_page p x" for x
  proof -
    have "mem u x = mem t x" using that sub by (intro b(7)) blast
    also have "\<dots> = mem s x" using that b(5) by (intro a(7)) blast
    finally show ?thesis .
  qed
  moreover have "mem_only s u" using a(9) b(9) by (rule mem_only_trans)
  moreover have "\<exists>new. ps = new @ rs"
    using assms unfolding extends_def by (metis append_assoc)
  moreover have "tables (mem u) pt \<subseteq> tables (mem s) pt \<union> (set ps - set rs)"
    using b(8) sub by blast
  ultimately show ?thesis using b(1,2) by (simp add: extends_def)
qed

lemma grows_trans: "grows s ps pt t qs \<Longrightarrow> grows t qs pt u rs \<Longrightarrow> grows s ps pt u rs"
  by (auto simp: grows_def intro: extends_trans)

lemma kmem_inv_Cons:
  "kmem_inv s (n # ps) \<Longrightarrow> page_aligned n \<and> n \<notin> set ps \<and> n \<noteq> 0"
  by (auto simp: kmem_inv_def frame_ok_def)

text \<open>One turn of \<open>walk\<close> that allocates: the memory after \<open>kalloc\<close>, \<open>memset\<close> and the store.\<close>

definition link_mem :: "pmem \<Rightarrow> addr \<Rightarrow> addr \<Rightarrow> pmem" where
  "link_mem m e n = store64 (memset (memset m n 5 4096) n 0 4096) e (PA2PTE n OR PTE_V)"

lemma link_mem_entry:
  assumes "page_aligned p" and "page_aligned q" and "page_aligned n" and "n \<noteq> q"
  shows "load64 (link_mem m (pte_at q k va) n) (pte_at p l vb) =
    (if p = q \<and> PX l vb = PX k va then PA2PTE n OR PTE_V
     else if p = n then 0 else load64 m (pte_at p l vb))"
proof -
  let ?m = "memset (memset m n 5 4096) n 0 4096"
  have "load64 ?m (pte_at n l vb) = 0"
    by (rule load64_zero_page [OF assms(3)]) (simp add: memset_eq)
  moreover have "load64 ?m (pte_at p l vb) = load64 m (pte_at p l vb)" if "p \<noteq> n"
    by (rule load_pte_frame [OF assms(1)])
      (use in_page_unique [OF assms(1,3)] that in \<open>auto simp: memset_eq\<close>)
  ultimately show ?thesis
    using assms(4) by (auto simp: link_mem_def load_pte_store_pte [OF assms(1,2)])
qed

lemma link_mem_frame:
  assumes "page_aligned q" and "\<not> in_page q a" and "\<not> in_page n a"
  shows "link_mem m (pte_at q k va) n a = m a"
proof -
  have "\<not> in_range (pte_at q k va) 8 a" using in_page_pte_at [OF assms(1)] assms(2) by blast
  with assms(3) show ?thesis by (simp add: link_mem_def store64_other memset_eq)
qed

lemma walk_link:
  assumes inv: "kmem_inv s (n # ps)" and wf: "pt_wf s (n # ps) pt" and "d < 2"
    and q: "node (mem s) pt d va = Some q"
    and unlinked: "load64 (mem s) (pte_at q (2 - d) va) AND PTE_V = 0"
    and t: "t = s\<lparr>freelist := load64 (mem s) n, mem := link_mem (mem s) (pte_at q (2 - d) va) n\<rparr>"
  shows "grows s (n # ps) pt t ps" and "node (mem t) pt (Suc d) va = Some n"
proof -
  note n = kmem_inv_Cons [OF inv]
  have pt: "page_aligned pt" and inj: "pt_inj (mem s) pt" and fresh: "n \<notin> tables (mem s) pt"
    using wf by (auto simp: pt_wf_def)
  have alq: "page_aligned q" using node_aligned [OF pt q] .
  have qt: "q \<in> tables (mem s) pt" using node_in_tables [OF q] \<open>d < 2\<close> by simp
  with fresh have "n \<noteq> q" by auto
  let ?v = "PA2PTE n OR PTE_V"
  have v: "?v AND PTE_V \<noteq> 0" "PTE2PA ?v = n"
    using n PTE_V_set by (auto intro!: PTE2PA_PA2PTE simp: PTE_V_def)
  have entry: "load64 (mem t) (pte_at p l vb) = (if p = q \<and> PX l vb = PX (2 - d) va then ?v
      else if p = n then 0 else load64 (mem s) (pte_at p l vb))" if "page_aligned p" for p l vb
    using link_mem_entry [OF that alq _ \<open>n \<noteq> q\<close>] n by (simp add: t)
  have linked: "linked (mem s) (mem t) pt d va n"
    unfolding linked_def using node_link [OF pt _ inj \<open>d < 2\<close> q fresh unlinked v entry] n by blast
  have frame: "mem t a = mem s a" if "\<not> in_page q a" "\<not> in_page n a" for a
    using link_mem_frame [OF alq that] by (simp add: t)
  have "free_chain (mem t) x ps = free_chain (mem s) x ps" for x
  proof (rule free_chain_cong)
    fix f assume "f \<in> set ps"
    with inv wf qt have "page_aligned f" "f \<noteq> n" "f \<noteq> q" by (auto simp: kmem_inv_def frame_ok_def pt_wf_def)
    with n alq show "load64 (mem t) f = load64 (mem s) f"
      by (intro load64_cong frame) (use other_page in blast)+
  qed
  with inv have "kmem_inv t ps" by (simp add: kmem_inv_def t)
  moreover have sub: "tables (mem t) pt \<subseteq> insert n (tables (mem s) pt)" using linked_tables [OF linked] .
  moreover have "pt_wf t ps pt"
    using wf sub n linked_inj [OF linked inj fresh] by (auto simp: pt_wf_def)
  moreover have "vmap (mem t) pt vb = vmap (mem s) pt vb" for vb
    using linked_vmap [OF linked pt _ inj \<open>d < 2\<close> q fresh unlinked entry] n by blast
  ultimately show "grows s (n # ps) pt t ps"
    using frame qt n unfolding grows_def extends_def by (auto simp: t)
  show "node (mem t) pt (Suc d) va = Some n"
    using linked_node [OF linked, of "Suc d" va] \<open>d < 2\<close> by simp
qed

lemma walk_loop_lookup:
  assumes "l \<le> 2" and "node (mem s) pt (2 - l) va = Some q"
  shows "walk_loop l q va False s =
    Ret (case node (mem s) pt 2 va of None \<Rightarrow> 0 | Some p \<Rightarrow> pte_at p 0 va) s"
  using assms
proof (induction l arbitrary: q)
  case (Suc l)
  then have step: "2 - l = Suc (2 - Suc l)" by simp
  show ?case
  proof (cases "load64 (mem s) (pte_at q (Suc l) va) AND PTE_V = 0")
    case True
    with unlinked_below [OF Suc.prems(2), of va 2] Suc.prems(1) show ?thesis
      by (simp add: load_pte_def monad_simps)
  next
    case False
    have "node (mem s) pt (2 - l) va = Some (PTE2PA (load64 (mem s) (pte_at q (Suc l) va)))"
      unfolding step using Suc.prems False by (simp add: table_step_def)
    with False Suc show ?thesis by (simp add: load_pte_def monad_simps)
  qed
qed (simp add: monad_simps)

lemma walk_below: "va < MAXVA \<Longrightarrow> walk pt va alloc = walk_loop 2 pt va alloc"
  by (auto simp: walk_def)

lemma walk_lookup:
  "va < MAXVA \<Longrightarrow> walk pt va False s =
     Ret (case node (mem s) pt 2 va of None \<Rightarrow> 0 | Some p \<Rightarrow> pte_at p 0 va) s"
  using walk_loop_lookup [of 2 s pt va pt] by (simp add: walk_below)

lemma pte_at_nonzero:
  assumes "page_aligned p" and "p \<noteq> 0"
  shows "pte_at p l va \<noteq> 0"
  using unat_pte_at [OF assms(1), of l va] assms(2) by (metis add_is_0 unat_eq_zero)

text \<open>\<open>pte_slot s pt va r\<close>: the walk for \<open>va\<close> ends at the entry with address \<open>r\<close>.\<close>

definition pte_slot :: "'z mstate_scheme \<Rightarrow> addr \<Rightarrow> uint64 \<Rightarrow> addr \<Rightarrow> bool" where
  "pte_slot s pt va r \<longleftrightarrow> (\<exists>p. node (mem s) pt 2 va = Some p \<and> r = pte_at p 0 va)"

lemma pte_slot_nonzero: "pt_wf s ps pt \<Longrightarrow> pte_slot s pt va r \<Longrightarrow> r \<noteq> 0"
  using node_in_tables [of "mem s" pt 2 va] node_aligned [of pt "mem s" 2 va]
  by (auto simp: pt_wf_def pte_slot_def dest: pte_at_nonzero)

lemma load_pte_slot: "pte_slot s pt va r \<Longrightarrow> load64 (mem s) r = vmap (mem s) pt va"
  by (auto simp: pte_slot_def vmap_def)

lemma vmap_slot: "vmap (mem s) pt va AND PTE_V \<noteq> 0 \<Longrightarrow> \<exists>r. pte_slot s pt va r"
  by (cases "node (mem s) pt 2 va") (auto simp: vmap_def pte_slot_def)

lemma vmap_agree: "agree 3 va vb \<Longrightarrow> vmap m pt va = vmap m pt vb"
proof -
  assume "agree 3 va vb"
  then have "agree 2 va vb" "PX 0 va = PX 0 vb" using agree_Suc [of 2 va vb] by (simp_all add: numeral_3_eq_3)
  then show ?thesis
    using node_agree [of 2 va vb m pt] by (simp add: vmap_def pte_at_def split: option.split)
qed

text \<open>A walk that finds every table on its way does not allocate, whatever \<open>alloc\<close> is.\<close>

lemma walk_loop_slot:
  assumes "l \<le> 2" and "node (mem s) pt (2 - l) va = Some q" and "node (mem s) pt 2 va = Some p"
  shows "walk_loop l q va alloc s = Ret (pte_at p 0 va) s"
  using assms
proof (induction l arbitrary: q)
  case (Suc l)
  then have step: "2 - l = Suc (2 - Suc l)" by simp
  have valid: "load64 (mem s) (pte_at q (Suc l) va) AND PTE_V \<noteq> 0"
    using unlinked_below [OF Suc.prems(2), of va 2] Suc.prems(1,3) by fastforce
  have "node (mem s) pt (2 - l) va = Some (PTE2PA (load64 (mem s) (pte_at q (Suc l) va)))"
    unfolding step using Suc.prems valid by (simp add: table_step_def)
  with valid Suc show ?case by (simp add: load_pte_def monad_simps)
qed (simp add: monad_simps)

lemma walk_slot:
  assumes "va < MAXVA" and "pte_slot s pt va r"
  shows "walk pt va alloc s = Ret r s"
  using assms walk_loop_slot [of 2 s pt va pt] by (auto simp: pte_slot_def walk_below)

lemma walk_loop_alloc:
  assumes "l \<le> 2" and "node (mem s) pt (2 - l) va = Some q"
    and "kmem_inv s ps" and "pt_wf s ps pt" and "KmemLock \<notin> set (held s)"
  shows "\<exists>r t qs. walk_loop l q va True s = Ret r t \<and> grows s ps pt t qs \<and>
    length ps \<le> length qs + l \<and> (if r = 0 then qs = [] \<and> length ps < l else pte_slot t pt va r)"
  using assms
proof (induction l arbitrary: q s ps)
  case 0
  then have "pte_slot s pt va (pte_at q 0 va)" by (simp add: pte_slot_def)
  with 0 pte_slot_nonzero [OF 0(4) this] grows_refl [OF 0(3,4)] show ?case
    by (auto simp: monad_simps)
next
  case (Suc l)
  then have step: "2 - l = Suc (2 - Suc l)" and lv: "2 - (2 - Suc l) = Suc l" by simp_all
  show ?case
  proof (cases "load64 (mem s) (pte_at q (Suc l) va) AND PTE_V = 0")
    case False
    have "node (mem s) pt (2 - l) va = Some (PTE2PA (load64 (mem s) (pte_at q (Suc l) va)))"
      unfolding step using Suc.prems False by (simp add: table_step_def)
    from Suc.IH [OF _ this Suc.prems(3-5)] Suc.prems(1) False show ?thesis
      by (fastforce simp: load_pte_def monad_simps)
  next
    case True
    show ?thesis
    proof (cases ps)
      case Nil
      with Suc.prems have "kalloc s = Ret 0 s" "grows s ps pt s []"
        using kalloc_empty grows_refl by auto
      with True Nil show ?thesis by (auto simp: load_pte_def monad_simps)
    next
      case (Cons n rest)
      let ?t = "s\<lparr>freelist := load64 (mem s) n, mem := link_mem (mem s) (pte_at q (Suc l) va) n\<rparr>"
      have n: "n \<noteq> 0" using Suc.prems(3) Cons kmem_inv_Cons by auto
      have run: "walk_loop (Suc l) q va True s = walk_loop l n va True ?t"
        using Suc.prems(3,5) Cons True n
        by (simp add: load_pte_def store_pte_def zero_page_def monad_simps link_mem_def comp_def
          kalloc_run [of s n rest])
      have g: "grows s ps pt ?t rest" "node (mem ?t) pt (2 - l) va = Some n"
        using walk_link [of s n rest pt "2 - Suc l" va q ?t] Suc.prems True Cons lv step by simp_all
      have "KmemLock \<notin> set (held ?t)" using Suc.prems(5) by simp
      from Suc.IH [OF _ g(2) extendsD(1,2) [OF g(1) [unfolded grows_def, THEN conjunct1]] this] Suc.prems(1)
      obtain r u qs where "walk_loop l n va True ?t = Ret r u" "grows ?t rest pt u qs"
          "length rest \<le> length qs + l" "if r = 0 then qs = [] \<and> length rest < l else pte_slot u pt va r"
        by auto
      with run Cons grows_trans [OF g(1)] show ?thesis by (auto split: if_splits)
    qed
  qed
qed

lemma walk_alloc:
  assumes "va < MAXVA" and "kmem_inv s ps" and "pt_wf s ps pt" and "KmemLock \<notin> set (held s)"
  obtains r t qs where "walk pt va True s = Ret r t" and "grows s ps pt t qs"
    and "length ps \<le> length qs + 2" and "if r = 0 then qs = [] \<and> length ps < 2 else pte_slot t pt va r"
proof -
  have "node (mem s) pt (2 - 2) va = Some pt" by simp
  from walk_loop_alloc [OF order_refl this assms(2-4)] that assms(1) show thesis
    by (auto simp: walk_below)
qed

lemma unat_MAXVA_less: "va < MAXVA \<longleftrightarrow> unat va < 2 ^ 38"
  by (simp add: word_less_nat_alt unat_MAXVA)

lemma nine_bits: "(x::nat) = y \<longleftrightarrow> x div 512 = y div 512 \<and> x mod 512 = y mod 512"
  by (metis div_mult_mod_eq)

lemma sv39_indices:
  fixes x y :: nat
  assumes "x < 2 ^ 38" and "y < 2 ^ 38"
  shows "x div 4096 = y div 4096 \<longleftrightarrow> x div 2 ^ 30 mod 512 = y div 2 ^ 30 mod 512 \<and>
    x div 2 ^ 21 mod 512 = y div 2 ^ 21 mod 512 \<and> x div 2 ^ 12 mod 512 = y div 2 ^ 12 mod 512"
proof -
  have "z div 2 ^ 30 mod 512 = z div 2 ^ 30" if "z < 2 ^ 38" for z :: nat
    using that by simp
  then show ?thesis
    using nine_bits [of "x div 2 ^ 12" "y div 2 ^ 12"] nine_bits [of "x div 2 ^ 21" "y div 2 ^ 21"] assms
    by (simp flip: div_mult2_eq)
qed

lemma agree_3: "agree 3 va vb \<longleftrightarrow> PX 2 va = PX 2 vb \<and> PX 1 va = PX 1 vb \<and> PX 0 va = PX 0 vb"
  using agree_Suc [of 2 va vb] agree_Suc [of 1 va vb] agree_Suc [of 0 va vb]
  by (simp add: numeral_3_eq_3 numeral_2_eq_2 agree_def [of 0])

lemma agree_page:
  assumes "va < MAXVA" and "vb < MAXVA"
  shows "agree 3 va vb \<longleftrightarrow> unat va div 4096 = unat vb div 4096"
  using sv39_indices [of "unat va" "unat vb"] assms
  by (simp add: agree_3 word_unat_eq_iff unat_PX unat_MAXVA_less)

section \<open>mappages\<close>

lemma set_slot:
  assumes inv: "kmem_inv s ps" and wf: "pt_wf s ps pt" and slot: "pte_slot s pt va r"
    and t: "t = s\<lparr>mem := store64 (mem s) r v\<rparr>"
  shows "extends s ps pt t ps" and "vmap (mem t) pt vb = (if agree 3 va vb then v else vmap (mem s) pt vb)"
    and "tables (mem t) pt = tables (mem s) pt"
proof -
  obtain q where q: "node (mem s) pt 2 va = Some q" and r: "r = pte_at q 0 va"
    using slot by (auto simp: pte_slot_def)
  have pt: "page_aligned pt" and inj: "pt_inj (mem s) pt" using wf by (auto simp: pt_wf_def)
  have alq: "page_aligned q" and qt: "q \<in> tables (mem s) pt"
    using node_aligned [OF pt q] node_in_tables [OF q] by auto
  then have "q \<notin> set ps" using wf by (auto simp: pt_wf_def)
  have frame: "mem t a = mem s a" if "\<not> in_page q a" for a
  proof -
    have "\<not> in_range r 8 a" using in_page_pte_at [OF alq] that by (auto simp only: r)
    then show ?thesis by (simp add: t store64_other)
  qed
  have "kmem_inv t ps"
    by (rule kmem_inv_frame [OF inv _ _ alq \<open>q \<notin> set ps\<close> frame]) (simp_all add: t)
  moreover show tab: "tables (mem t) pt = tables (mem s) pt"
    using set_leaf_keeps(2) [OF pt inj q] by (simp add: t r)
  moreover have "pt_inj (mem t) pt" using set_leaf_keeps(1) [OF pt inj q] by (simp add: t r)
  ultimately show "extends s ps pt t ps"
    using wf frame qt unfolding extends_def pt_wf_def
    by (auto simp: t)
  show "vmap (mem t) pt vb = (if agree 3 va vb then v else vmap (mem s) pt vb)"
    using vmap_set_leaf [OF pt inj q] by (simp add: t r)
qed

text \<open>\<open>map_range f va n pa perm\<close> is the translation \<open>f\<close> after \<open>n\<close> pages from \<open>va\<close> on were mapped
  to the pages from \<open>pa\<close> on.\<close>

definition map_range :: "(uint64 \<Rightarrow> uint64) \<Rightarrow> uint64 \<Rightarrow> nat \<Rightarrow> uint64 \<Rightarrow> uint64 \<Rightarrow> uint64 \<Rightarrow> uint64" where
  "map_range f va n pa perm vb =
     (let i = unat vb div 4096 - unat va div 4096
      in if unat va div 4096 \<le> unat vb div 4096 \<and> i < n
         then PA2PTE (pa + 4096 * of_nat i) OR perm OR PTE_V else f vb)"

lemma map_range_0 [simp]: "map_range f va 0 pa perm vb = f vb"
  by (simp add: map_range_def)

lemma map_range_step:
  assumes "unat va + 4096 < 2 ^ 64"
    and "\<And>vb. P vb \<Longrightarrow> f' vb = (if unat va div 4096 = unat vb div 4096 then PA2PTE pa OR perm OR PTE_V else f vb)"
    and "P vb"
  shows "map_range f' (va + 4096) n (pa + 4096) perm vb = map_range f va (Suc n) pa perm vb"
proof -
  have "unat (va + 4096) = unat va + 4096" using assms(1) by (simp add: unat_word_ariths)
  then have d: "unat (va + 4096) div 4096 = Suc (unat va div 4096)" by simp
  show ?thesis
  proof (cases "unat va div 4096 < unat vb div 4096")
    case True
    then obtain i where "unat vb div 4096 - unat va div 4096 = Suc i" 
      "unat vb div 4096 - Suc (unat va div 4096) = i"
      by (metis Suc_diff_Suc)
    with True d assms(2) [OF assms(3)] show ?thesis by (simp add: map_range_def algebra_simps)
  next
    case False
    with d assms(2) [OF assms(3)] show ?thesis by (auto simp: map_range_def)
  qed
qed

lemma grows_extends: "grows s ps pt t qs \<Longrightarrow> extends s ps pt t qs"
  by (simp add: grows_def)

lemma grows_vmap: "grows s ps pt t qs \<Longrightarrow> vmap (mem t) pt vb = vmap (mem s) pt vb"
  by (simp add: grows_def)

text \<open>One turn of the loop of \<open>mappages\<close>: it runs out of frames, or it maps the page.\<close>

lemma mappages_turn:
  assumes "a < MAXVA" and "kmem_inv s ps" and "pt_wf s ps pt" and "KmemLock \<notin> set (held s)"
    and "vmap (mem s) pt a AND PTE_V = 0"
  obtains (full) t where "mappages_loop pt a lst pa perm s = Ret (- 1) t" and "grows s ps pt t []"
      and "length ps < 2"
  | (mapped) t qs where "mappages_loop pt a lst pa perm s =
        (if a = lst then Ret 0 t else mappages_loop pt (a + PGSIZE) lst (pa + PGSIZE) perm t)"
      and "extends s ps pt t qs" and "length ps \<le> length qs + 2"
      and "\<And>vb. vb < MAXVA \<Longrightarrow> vmap (mem t) pt vb =
        (if unat a div 4096 = unat vb div 4096 then PA2PTE pa OR perm OR PTE_V else vmap (mem s) pt vb)"
proof -
  from walk_alloc [OF assms(1-4)] obtain r t qs where w: "walk pt a True s = Ret r t"
      "grows s ps pt t qs" "length ps \<le> length qs + 2"
      "if r = 0 then qs = [] \<and> length ps < 2 else pte_slot t pt a r" by metis
  show thesis
  proof (cases "r = 0")
    case True
    with w full show thesis by (simp add: mappages_loop.simps monad_simps)
  next
    case False
    with w have slot: "pte_slot t pt a r" by simp
    let ?v = "PA2PTE pa OR perm OR PTE_V"
    let ?t = "t\<lparr>mem := store64 (mem t) r ?v\<rparr>"
    note e = extendsD(1,2) [OF grows_extends [OF w(2)]]
    have "load64 (mem t) r AND PTE_V = 0"
      using assms(5) load_pte_slot [OF slot] grows_vmap [OF w(2)] by simp
    then have "mappages_loop pt a lst pa perm s =
        (if a = lst then Ret 0 ?t else mappages_loop pt (a + PGSIZE) lst (pa + PGSIZE) perm ?t)"
      using w(1) False by (subst mappages_loop.simps) (simp add: monad_simps load_pte_def store_pte_def)
    moreover have "extends s ps pt ?t qs"
      using extends_trans [OF grows_extends [OF w(2)] set_slot(1) [OF e slot refl]] .
    moreover have "vmap (mem ?t) pt vb =
        (if unat a div 4096 = unat vb div 4096 then ?v else vmap (mem s) pt vb)" if "vb < MAXVA" for vb
      using set_slot(2) [OF e slot refl, of ?v vb] grows_vmap [OF w(2)] agree_page [OF assms(1) that] by simp
    ultimately show thesis using mapped w(3) by blast
  qed
qed

lemma mappages_loop_run:
  assumes "lst = a + 4096 * of_nat k" and "unat a + 4096 * k < 2 ^ 38"
    and "kmem_inv s ps" and "pt_wf s ps pt" and "KmemLock \<notin> set (held s)"
    and "\<And>vb. unat a div 4096 \<le> unat vb div 4096 \<Longrightarrow> unat vb div 4096 \<le> unat a div 4096 + k \<Longrightarrow>
      vmap (mem s) pt vb AND PTE_V = 0"
  shows "\<exists>r t qs j. mappages_loop pt a lst pa perm s = Ret r t \<and> extends s ps pt t qs \<and>
    (\<forall>vb<MAXVA. vmap (mem t) pt vb = map_range (vmap (mem s) pt) a j pa perm vb) \<and>
    (if r = 0 then j = Suc k else r = - 1 \<and> j \<le> k \<and> qs = [] \<and> length ps < 2 * Suc k)"
  using assms
proof (induction k arbitrary: a pa s ps)
  case 0
  then have a: "a < MAXVA" "vmap (mem s) pt a AND PTE_V = 0" by (simp_all add: unat_MAXVA_less)
  show ?case
  proof (cases rule: mappages_turn [OF a(1) "0.prems"(3-5) a(2), where lst = lst and pa = pa and perm = perm,
        case_names full mapped])
    case (full t)
    then show ?thesis
      by (intro exI [of _ "- 1"] exI [of _ t] exI [of _ "[]"] exI [of _ 0]) (simp add: grows_def)
  next
    case (mapped t qs)
    then have "vmap (mem t) pt vb = map_range (vmap (mem s) pt) a (Suc 0) pa perm vb" if "vb < MAXVA" for vb
      using that by (auto simp: map_range_def)
    with mapped show ?thesis using "0.prems"(1) by auto
  qed
next
  case (Suc k)
  then have a: "a < MAXVA" "vmap (mem s) pt a AND PTE_V = 0" and room: "unat a + 4096 < 2 ^ 64"
    by (simp_all add: unat_MAXVA_less)
  then have nxt: "unat (a + PGSIZE) = unat a + 4096" by (simp add: PGSIZE_def unat_word_ariths)
  show ?case
  proof (cases rule: mappages_turn [OF a(1) Suc.prems(3-5) a(2), where lst = lst and pa = pa and perm = perm,
        case_names full mapped])
    case (full t)
    then show ?thesis
      by (intro exI [of _ "- 1"] exI [of _ t] exI [of _ "[]"] exI [of _ 0]) (simp add: grows_def)
  next
    case (mapped t qs)
    have "unat lst = unat a + 4096 * Suc k" using Suc.prems(1,2) unat_nth_page [of a "Suc k"] by simp
    then have "a \<noteq> lst" by auto
    have "vmap (mem t) pt vb AND PTE_V = 0"
      if "unat (a + PGSIZE) div 4096 \<le> unat vb div 4096" "unat vb div 4096 \<le> unat (a + PGSIZE) div 4096 + k" for vb
    proof -
      have "unat vb div 4096 < 2 ^ 26" using that(2) Suc.prems(2) nxt by simp
      then have "vb < MAXVA" by (simp add: unat_MAXVA_less)
      moreover have "unat (a + PGSIZE) div 4096 = Suc (unat a div 4096)" using nxt by simp
      ultimately show ?thesis using mapped(4) that Suc.prems(6) [of vb] by auto
    qed
    then obtain r u rs j where u: "mappages_loop pt (a + PGSIZE) lst (pa + PGSIZE) perm t = Ret r u"
        "extends t qs pt u rs"
        "\<forall>vb<MAXVA. vmap (mem u) pt vb = map_range (vmap (mem t) pt) (a + PGSIZE) j (pa + PGSIZE) perm vb"
        "if r = 0 then j = Suc k else r = - 1 \<and> j \<le> k \<and> rs = [] \<and> length qs < 2 * Suc k"
      using Suc.IH [of "a + PGSIZE" t qs "pa + PGSIZE"] Suc.prems(1,2,5) nxt extendsD(1-3) [OF mapped(2)]
      by (auto simp: PGSIZE_def algebra_simps)
    have "vmap (mem u) pt vb = map_range (vmap (mem s) pt) a (Suc j) pa perm vb" if "vb < MAXVA" for vb
      using u(3) that map_range_step [OF room, where P = "\<lambda>vb. vb < MAXVA" and f' = "vmap (mem t) pt",
          OF mapped(4) that] by (simp add: PGSIZE_def)
    with \<open>a \<noteq> lst\<close> mapped(1,3) u(1,4) extends_trans [OF mapped(2) u(2)] show ?thesis
      by (intro exI [of _ r] exI [of _ u] exI [of _ rs] exI [of _ "Suc j"]) (auto split: if_splits)
  qed
qed

lemma PGROUNDDOWN_span:
  assumes "0 < sz" and "unat va + unat sz \<le> 2 ^ 38"
    and "k = (unat va + unat sz - 1) div 4096 - unat va div 4096"
  shows "PGROUNDDOWN (va + sz - 1) = PGROUNDDOWN va + 4096 * of_nat k"
    and "unat (PGROUNDDOWN va) + 4096 * k < 2 ^ 38"
proof -
  have pos: "0 < unat sz" using assms(1) by (simp add: word_less_nat_alt)
  have "unat (va + sz - 1) = unat va + unat sz - 1"
    using assms(2) pos by (subst unat_minus_one) (auto simp: unat_word_ariths simp flip: unat_eq_zero)
  moreover have "unat va div 4096 \<le> (unat va + unat sz - 1) div 4096"
    using pos by (intro div_le_mono) simp
  ultimately have up: "unat (PGROUNDDOWN (va + sz - 1)) = unat (PGROUNDDOWN va) + 4096 * k"
    by (simp add: unat_PGROUNDDOWN assms(3) algebra_simps)
  moreover have "unat (PGROUNDDOWN (va + sz - 1)) \<le> unat va + unat sz - 1"
    using \<open>unat (va + sz - 1) = _\<close> by (simp add: unat_PGROUNDDOWN)
  ultimately show k: "unat (PGROUNDDOWN va) + 4096 * k < 2 ^ 38" using assms(2) pos by linarith
  with up show "PGROUNDDOWN (va + sz - 1) = PGROUNDDOWN va + 4096 * of_nat k"
    by (simp add: word_unat_eq_iff unat_nth_page)
qed

lemma map_range_PGROUNDDOWN:
  "map_range f (PGROUNDDOWN va) n pa perm = map_range f va n pa perm"
  by (auto simp: map_range_def unat_PGROUNDDOWN)

text \<open>The number of pages that the \<open>sz\<close> bytes from \<open>va\<close> on touch.\<close>

definition span :: "uint64 \<Rightarrow> uint64 \<Rightarrow> nat" where
  "span va sz = Suc ((unat va + unat sz - 1) div 4096 - unat va div 4096)"

lemma mappages_run:
  assumes "0 < sz" and "unat va + unat sz \<le> 2 ^ 38"
    and "kmem_inv s ps" and "pt_wf s ps pt" and "KmemLock \<notin> set (held s)"
    and "\<And>vb. unat va div 4096 \<le> unat vb div 4096 \<Longrightarrow> unat vb div 4096 < unat va div 4096 + span va sz \<Longrightarrow>
      vmap (mem s) pt vb AND PTE_V = 0"
  obtains r t qs j where "mappages pt va sz pa perm s = Ret r t" and "extends s ps pt t qs"
    and "\<And>vb. vb < MAXVA \<Longrightarrow> vmap (mem t) pt vb = map_range (vmap (mem s) pt) va j pa perm vb"
    and "if r = 0 then j = span va sz else r = - 1 \<and> j < span va sz \<and> qs = [] \<and> length ps < 2 * span va sz"
proof -
  let ?k = "(unat va + unat sz - 1) div 4096 - unat va div 4096"
  have "unat (PGROUNDDOWN va) div 4096 = unat va div 4096" by (simp add: unat_PGROUNDDOWN)
  with mappages_loop_run [OF PGROUNDDOWN_span [OF assms(1,2) refl] assms(3-5), of pa perm] assms(6)
  obtain r t qs j where "mappages pt va sz pa perm s = Ret r t" "extends s ps pt t qs"
      "\<forall>vb<MAXVA. vmap (mem t) pt vb = map_range (vmap (mem s) pt) va j pa perm vb"
      "if r = 0 then j = Suc ?k else r = - 1 \<and> j \<le> ?k \<and> qs = [] \<and> length ps < 2 * Suc ?k"
    by (auto simp: mappages_def span_def map_range_PGROUNDDOWN less_Suc_eq_le)
  then show thesis by (intro that [of r t qs j]) (auto simp: span_def less_Suc_eq_le split: if_splits)
qed

lemma mappages_remap:
  assumes "va < MAXVA" and "pt_wf s ps pt" and "vmap (mem s) pt va AND PTE_V \<noteq> 0"
  shows "mappages pt va sz pa perm s = Panic ''remap''"
proof -
  let ?a = "PGROUNDDOWN va"
  have "unat ?a \<le> unat va" by (simp add: unat_PGROUNDDOWN)
  then have a: "?a < MAXVA" using assms(1) by (simp add: unat_MAXVA_less)
  have "agree 3 va ?a" using agree_page [OF assms(1) a] by (simp add: unat_PGROUNDDOWN)
  then have same: "vmap (mem s) pt ?a = vmap (mem s) pt va" by (simp add: vmap_agree)
  with assms(3) obtain r where r: "pte_slot s pt ?a r" by (metis vmap_slot)
  with same assms(3) pte_slot_nonzero [OF assms(2) r] load_pte_slot [OF r] show ?thesis
    by (simp add: mappages_def mappages_loop.simps walk_slot [OF a r] load_pte_def monad_simps)
qed

lemma walkaddr_run:
  assumes "pt_wf s ps pt"
  shows "walkaddr pt va s = Ret (let v = vmap (mem s) pt va
    in if va < MAXVA \<and> v AND PTE_V \<noteq> 0 \<and> v AND PTE_U \<noteq> 0 then PTE2PA v else 0) s"
proof (cases "va < MAXVA")
  case True
  show ?thesis
  proof (cases "node (mem s) pt 2 va")
    case None
    with True show ?thesis by (auto simp: walkaddr_def walk_lookup monad_simps vmap_def)
  next
    case (Some p)
    then have r: "pte_slot s pt va (pte_at p 0 va)" by (simp add: pte_slot_def)
    from True pte_slot_nonzero [OF assms r] load_pte_slot [OF r] show ?thesis
      by (auto simp: walkaddr_def walk_slot [OF True r] load_pte_def monad_simps Let_def)
  qed
qed (auto simp: walkaddr_def monad_simps not_le)

section \<open>uvmunmap\<close>

text \<open>From \<open>s\<close> to \<open>t\<close> the frames \<open>fs\<close> went back to the free list \<open>ps\<close>; the table keeps its pages, and
  outside of them and of \<open>fs\<close> nothing changed.\<close>

definition releases :: "'z mstate_scheme \<Rightarrow> addr list \<Rightarrow> addr \<Rightarrow> 'z mstate_scheme \<Rightarrow> addr list \<Rightarrow> bool" where
  "releases s ps pt t fs \<longleftrightarrow>
     mem_only s t \<and> kmem_inv t (fs @ ps) \<and> pt_wf t (fs @ ps) pt \<and>
     tables (mem t) pt = tables (mem s) pt \<and>
     (\<forall>a. (\<forall>p \<in> tables (mem s) pt \<union> set fs. \<not> in_page p a) \<longrightarrow> mem t a = mem s a)"

lemma releases_refl: "kmem_inv s ps \<Longrightarrow> pt_wf s ps pt \<Longrightarrow> releases s ps pt s []"
  by (simp add: releases_def)

lemma releasesD:
  assumes "releases s ps pt t fs"
  shows "kmem_inv t (fs @ ps)" "pt_wf t (fs @ ps) pt" "held t = held s" "kend t = kend s"
    "tables (mem t) pt = tables (mem s) pt" "mem_only s t"
    "(\<And>p. p \<in> tables (mem s) pt \<union> set fs \<Longrightarrow> \<not> in_page p a) \<Longrightarrow> mem t a = mem s a"
  using assms by (auto simp: releases_def mem_only_keeps)

lemma releases_trans:
  assumes "releases s ps pt t fs" and "releases t (fs @ ps) pt u gs"
  shows "releases s ps pt u (gs @ fs)"
proof -
  note a = releasesD [OF assms(1)] and b = releasesD [OF assms(2)]
  have "mem_only s u" using a(6) b(6) by (rule mem_only_trans)
  moreover have "mem u x = mem s x" if "\<forall>p \<in> tables (mem s) pt \<union> set (gs @ fs). \<not> in_page p x" for x
  proof -
    have "mem u x = mem t x" using that a(5) by (intro b(7)) auto
    also have "\<dots> = mem s x" using that by (intro a(7)) auto
    finally show ?thesis .
  qed
  ultimately show ?thesis using a(5) b(1,2,5) by (simp add: releases_def)
qed

lemma extends_releases:
  "extends s ps pt t ps \<Longrightarrow> tables (mem t) pt = tables (mem s) pt \<Longrightarrow> releases s ps pt t []"
  by (auto simp: extends_def releases_def)

lemma kfree_releases:
  assumes inv: "kmem_inv s ps" and wf: "pt_wf s ps pt" and "KmemLock \<notin> set (held s)"
    and f: "frame_ok (kend s) f" "f \<notin> set ps" "f \<notin> tables (mem s) pt"
  obtains t where "kfree f s = Ret () t" and "releases s ps pt t [f]"
    and "\<And>vb. vmap (mem t) pt vb = vmap (mem s) pt vb"
    and "\<And>va r. pte_slot t pt va r \<longleftrightarrow> pte_slot s pt va r"
proof -
  let ?t = "s\<lparr>freelist := f, mem := store64 (memset (mem s) f 1 4096) f (freelist s)\<rparr>"
  have run: "kfree f s = Ret () ?t" using kfree_run [OF f(1) assms(3)] by simp
  have alf: "page_aligned f" using f(1) by (simp add: frame_ok_def)
  have pt: "page_aligned pt" using wf by (simp add: pt_wf_def)
  have frame: "mem ?t a = mem s a" if "\<not> in_page f a" for a
    using that by (simp, subst store64_other) (auto simp: memset_eq in_range_def)
  have tab: "mem ?t a = mem s a" if "p \<in> tables (mem s) pt" "in_page p a" for p a
    using that f(3) in_page_unique [OF alf tables_aligned [OF pt that(1)]] by (intro frame) blast
  note same = tables_frame [OF pt tab]
  have "releases s ps pt ?t [f]"
    using kfree_inv [OF inv f(1,2) assms(3) run] wf same f frame unfolding releases_def pt_wf_def
    by auto
  moreover have "vmap (mem ?t) pt vb = vmap (mem s) pt vb" for vb by (rule vmap_frame [OF pt tab])
  moreover have "node (mem ?t) pt 2 va = node (mem s) pt 2 va" for va by (rule node_frame [OF pt tab]) simp_all
  ultimately show thesis using run that [of ?t] by (simp add: pte_slot_def)
qed

lemma uvmunmap_turn:
  assumes a: "a < MAXVA" "a < stop" and inv: "kmem_inv s ps" and wf: "pt_wf s ps pt"
    and lock: "KmemLock \<notin> set (held s)" and v: "v = vmap (mem s) pt a" "v AND PTE_V \<noteq> 0" "PTE_FLAGS v \<noteq> PTE_V"
    and f: "do_free \<Longrightarrow> frame_ok (kend s) (PTE2PA v) \<and> PTE2PA v \<notin> set ps \<union> tables (mem s) pt"
  obtains t where "uvmunmap_loop pt a stop do_free s = uvmunmap_loop pt (a + PGSIZE) stop do_free t"
    and "releases s ps pt t (if do_free then [PTE2PA v] else [])"
    and "\<And>vb. vb < MAXVA \<Longrightarrow>
      vmap (mem t) pt vb = (if unat a div 4096 = unat vb div 4096 then 0 else vmap (mem s) pt vb)"
proof -
  from v vmap_slot obtain r where r: "pte_slot s pt a r" by metis
  let ?fs = "if do_free then [PTE2PA v] else []"
  obtain u where u: "(if do_free then kfree (PTE2PA v) else ret ()) s = Ret () u"
      "releases s ps pt u ?fs" "\<And>vb. vmap (mem u) pt vb = vmap (mem s) pt vb" "pte_slot u pt a r"
  proof (cases do_free)
    case True
    with f have ok: "frame_ok (kend s) (PTE2PA v)" "PTE2PA v \<notin> set ps" "PTE2PA v \<notin> tables (mem s) pt"
      by auto
    show thesis
    proof (rule kfree_releases [OF inv wf lock ok])
      fix t assume "kfree (PTE2PA v) s = Ret () t" "releases s ps pt t [PTE2PA v]"
        "\<And>vb. vmap (mem t) pt vb = vmap (mem s) pt vb"
        "\<And>va r. pte_slot t pt va r \<longleftrightarrow> pte_slot s pt va r"
      with r True show thesis by (intro that [of t]) simp_all
    qed
  next
    case False
    with releases_refl [OF inv wf] r show thesis by (intro that [of s]) (simp_all add: monad_simps)
  qed
  let ?t = "u\<lparr>mem := store64 (mem u) r 0\<rparr>"
  note e = releasesD(1,2) [OF u(2)]
  have "uvmunmap_loop pt a stop do_free s = uvmunmap_loop pt (a + PGSIZE) stop do_free ?t"
    using a v(2,3) pte_slot_nonzero [OF wf r]
    by (subst uvmunmap_loop.simps)
      (simp add: walk_slot [OF a(1) r] load_pte_slot [OF r] v(1) [symmetric] u(1)
        load_pte_def store_pte_def monad_simps del: if_split)
  moreover have "releases s ps pt ?t ?fs"
    using releases_trans [OF u(2) extends_releases [OF set_slot(1,3) [OF e u(4) refl]]] by simp
  moreover have "vmap (mem ?t) pt vb = (if unat a div 4096 = unat vb div 4096 then 0 else vmap (mem s) pt vb)"
    if "vb < MAXVA" for vb
    using set_slot(2) [OF e u(4) refl, of 0 vb] u(3) agree_page [OF a(1) that] by simp
  ultimately show thesis by (rule that)
qed

text \<open>The pages \<open>a\<close>, \<open>a + 4096\<close>, ... of a range of \<open>n\<close> pages are mapped, and the frames behind them
  may be freed: they are frames of the allocator, distinct, in use and no tables.\<close>

definition frame_of :: "pmem \<Rightarrow> addr \<Rightarrow> uint64 \<Rightarrow> addr" where
  "frame_of m pt va = PTE2PA (vmap m pt va)"

definition mapped_frames :: "pmem \<Rightarrow> addr \<Rightarrow> uint64 \<Rightarrow> nat \<Rightarrow> addr list" where
  "mapped_frames m pt a n = map (\<lambda>i. frame_of m pt (a + 4096 * of_nat i)) [0..<n]"

definition leaf_range :: "pmem \<Rightarrow> addr \<Rightarrow> uint64 \<Rightarrow> nat \<Rightarrow> bool" where
  "leaf_range m pt a n \<longleftrightarrow> (\<forall>i<n. let v = vmap m pt (a + 4096 * of_nat i)
     in v AND PTE_V \<noteq> 0 \<and> PTE_FLAGS v \<noteq> PTE_V)"

definition freeable :: "'z mstate_scheme \<Rightarrow> addr list \<Rightarrow> addr \<Rightarrow> addr list \<Rightarrow> bool" where
  "freeable s ps pt fs \<longleftrightarrow> distinct fs \<and> (\<forall>f\<in>set fs. frame_ok (kend s) f) \<and>
     set fs \<inter> (set ps \<union> tables (mem s) pt) = {}"

lemma mapped_frames_Suc:
  "mapped_frames m pt a (Suc n) = frame_of m pt a # mapped_frames m pt (a + 4096) n"
  unfolding mapped_frames_def by (subst map_upt_Suc) (simp add: algebra_simps)

lemma leaf_range_Suc:
  "leaf_range m pt a (Suc n) \<longleftrightarrow> vmap m pt a AND PTE_V \<noteq> 0 \<and> PTE_FLAGS (vmap m pt a) \<noteq> PTE_V \<and>
     leaf_range m pt (a + 4096) n"
  by (simp add: leaf_range_def All_less_Suc2 Let_def algebra_simps)

lemma range_cong:
  assumes "unat a + 4096 * n \<le> 2 ^ 38"
    and "\<And>vb. vb < MAXVA \<Longrightarrow> unat a div 4096 \<le> unat vb div 4096 \<Longrightarrow> vmap m' pt vb = vmap m pt vb"
  shows "mapped_frames m' pt a n = mapped_frames m pt a n" and "leaf_range m' pt a n = leaf_range m pt a n"
proof -
  have "vmap m' pt (a + 4096 * of_nat i) = vmap m pt (a + 4096 * of_nat i)" if "i < n" for i
    using assms(1) that unat_nth_page [of a i] by (intro assms(2)) (simp_all add: unat_MAXVA_less)
  then show "mapped_frames m' pt a n = mapped_frames m pt a n" "leaf_range m' pt a n = leaf_range m pt a n"
    by (simp_all add: mapped_frames_def frame_of_def leaf_range_def)
qed

lemma freeable_step:
  assumes "freeable s ps pt (f # fs)" and "releases s ps pt t gs" and "set gs \<subseteq> {f}"
  shows "freeable t (gs @ ps) pt fs"
  using assms releasesD(4,5) [OF assms(2)] by (auto simp: freeable_def)

lemma uvmunmap_loop_run:
  assumes "unat a + 4096 * n \<le> 2 ^ 38" and "stop = a + 4096 * of_nat n"
    and "kmem_inv s ps" and "pt_wf s ps pt" and "KmemLock \<notin> set (held s)"
    and "leaf_range (mem s) pt a n"
    and "do_free \<Longrightarrow> freeable s ps pt (mapped_frames (mem s) pt a n)"
  shows "\<exists>t. uvmunmap_loop pt a stop do_free s = Ret () t \<and>
    releases s ps pt t (if do_free then rev (mapped_frames (mem s) pt a n) else []) \<and>
    (\<forall>vb<MAXVA. vmap (mem t) pt vb =
       (if unat a div 4096 \<le> unat vb div 4096 \<and> unat vb div 4096 < unat a div 4096 + n then 0
        else vmap (mem s) pt vb))"
  using assms
proof (induction n arbitrary: a s ps)
  case 0
  then show ?case
    using releases_refl [OF 0(3,4)] by (auto simp: uvmunmap_loop.simps mapped_frames_def)
next
  case (Suc n)
  let ?v = "vmap (mem s) pt a"
  have stop: "unat stop = unat a + 4096 * Suc n"
    using Suc.prems(1,2) unat_nth_page [of a "Suc n"] by simp
  then have a: "a < MAXVA" "a < stop"
    using Suc.prems(1) by (simp_all add: word_less_nat_alt unat_MAXVA)
  have nxt: "unat (a + 4096) = unat a + 4096" using Suc.prems(1) by (simp add: unat_word_ariths)
  have v: "?v AND PTE_V \<noteq> 0" "PTE_FLAGS ?v \<noteq> PTE_V" using Suc.prems(6) by (simp_all add: leaf_range_Suc)
  have f: "frame_ok (kend s) (PTE2PA ?v) \<and> PTE2PA ?v \<notin> set ps \<union> tables (mem s) pt" if do_free
    using Suc.prems(7) [OF that] by (auto simp: mapped_frames_Suc freeable_def frame_of_def)
  let ?fs = "if do_free then [PTE2PA ?v] else []"
  obtain t where t: "uvmunmap_loop pt a stop do_free s = uvmunmap_loop pt (a + 4096) stop do_free t"
      "releases s ps pt t ?fs"
      "\<And>vb. vb < MAXVA \<Longrightarrow>
        vmap (mem t) pt vb = (if unat a div 4096 = unat vb div 4096 then 0 else vmap (mem s) pt vb)"
    using uvmunmap_turn [OF a Suc.prems(3-5) refl v f, unfolded PGSIZE_def] by blast
  note rel = releasesD [OF t(2)]
  have room: "unat (a + 4096) + 4096 * n \<le> 2 ^ 38" using Suc.prems(1) nxt by simp
  have "vmap (mem t) pt vb = vmap (mem s) pt vb"
    if "vb < MAXVA" "unat (a + 4096) div 4096 \<le> unat vb div 4096" for vb
    using t(3) [OF that(1)] that(2) nxt by auto
  note r = range_cong [OF room this]
  have "freeable t (?fs @ ps) pt (mapped_frames (mem t) pt (a + 4096) n)" if do_free
    using freeable_step [OF _ t(2)] Suc.prems(7) [OF that] that
    by (simp add: r mapped_frames_Suc frame_of_def)
  moreover have "leaf_range (mem t) pt (a + 4096) n" "stop = a + 4096 + 4096 * of_nat n"
      "KmemLock \<notin> set (held t)"
    using Suc.prems(2,5,6) rel(3) by (simp_all add: r leaf_range_Suc algebra_simps)
  ultimately obtain u where u: "uvmunmap_loop pt (a + 4096) stop do_free t = Ret () u"
      "releases t (?fs @ ps) pt u (if do_free then rev (mapped_frames (mem s) pt (a + 4096) n) else [])"
      "\<And>vb. vb < MAXVA \<Longrightarrow> vmap (mem u) pt vb =
         (if unat (a + 4096) div 4096 \<le> unat vb div 4096 \<and> unat vb div 4096 < unat (a + 4096) div 4096 + n
          then 0 else vmap (mem t) pt vb)"
    using Suc.IH [OF room _ rel(1,2)] r(1) by metis
  have "vmap (mem u) pt vb = (if unat a div 4096 \<le> unat vb div 4096 \<and> unat vb div 4096 < unat a div 4096 + Suc n
      then 0 else vmap (mem s) pt vb)" if "vb < MAXVA" for vb
    using u(3) [OF that] t(3) [OF that] nxt by auto
  with t(1) u(1) releases_trans [OF t(2) u(2)] show ?case
    by (auto simp: mapped_frames_Suc frame_of_def)
qed

lemma uvmunmap_run:
  assumes "page_aligned va" and "unat va + 4096 * n \<le> 2 ^ 38"
    and "kmem_inv s ps" and "pt_wf s ps pt" and "KmemLock \<notin> set (held s)"
    and "leaf_range (mem s) pt va n"
    and "do_free \<Longrightarrow> freeable s ps pt (mapped_frames (mem s) pt va n)"
  obtains t where "uvmunmap pt va (of_nat n) do_free s = Ret () t"
    and "releases s ps pt t (if do_free then rev (mapped_frames (mem s) pt va n) else [])"
    and "\<And>vb. vb < MAXVA \<Longrightarrow> vmap (mem t) pt vb =
       (if unat va div 4096 \<le> unat vb div 4096 \<and> unat vb div 4096 < unat va div 4096 + n then 0
        else vmap (mem s) pt vb)"
  using uvmunmap_loop_run [OF assms(2) refl assms(3-7)] assms(1) that
  by (auto simp: uvmunmap_def page_aligned_iff_mod PGSIZE_def mult.commute)

text \<open>A page that is not mapped makes \<open>uvmunmap\<close> panic.\<close>

lemma uvmunmap_unmapped:
  assumes "page_aligned va" and "va < MAXVA" and "0 < n" and "unat va + 4096 * n \<le> 2 ^ 38"
    and "pt_wf s ps pt" and "vmap (mem s) pt va AND PTE_V = 0"
  shows "\<exists>e. uvmunmap pt va (of_nat n) do_free s = Panic e"
proof -
  have "va < va + of_nat n * PGSIZE"
    using unat_nth_page [of va n] assms(3,4) by (simp add: word_less_nat_alt PGSIZE_def mult.commute)
  moreover have "load64 (mem s) r AND PTE_V = 0" if "walk pt va False s = Ret r s" "r \<noteq> 0" for r
    using that walk_lookup [OF assms(2), of pt s] assms(6)
    by (auto simp: vmap_def split: option.splits)
  ultimately show ?thesis using assms(1) walk_lookup [OF assms(2), of pt s]
    by (auto simp: uvmunmap_def page_aligned_iff_mod uvmunmap_loop.simps monad_simps load_pte_def)
qed

section \<open>Fresh tables\<close>

lemma zero_table:
  assumes "page_aligned p" and "\<And>a. in_page p a \<Longrightarrow> m a = 0"
  shows "vmap m p va = 0" and "tables m p = {p}" and "pt_inj m p"
proof -
  have n: "node m p (Suc d) va = None" for d va
  proof (induction d)
    case 0
    then show ?case using load64_zero_page [OF assms] by (simp add: table_step_def)
  qed simp
  then show "vmap m p va = 0" using n [of 1 va] by (simp add: vmap_def numeral_2_eq_2)
  have d: "node m p d va = Some q \<longleftrightarrow> d = 0 \<and> q = p" for d va q using n by (cases d) auto
  show "tables m p = {p}" by (auto simp: tables_def d)
  show "pt_inj m p" by (auto simp: pt_inj_def d agree_def)
qed

lemma uvmcreate_run:
  assumes "kmem_free s (p # ps)"
  obtains t where "uvmcreate s = Ret p t" and "kmem_free t ps" and "pt_wf t ps p"
    and "\<And>va. vmap (mem t) p va = 0" and "mem_only s t"
    and "\<And>a. \<not> in_page p a \<Longrightarrow> mem t a = mem s a" and "tables (mem t) p = {p}"
proof -
  have inv: "kmem_inv s (p # ps)" "KmemLock \<notin> set (held s)" using assms by (auto simp: kmem_free_def)
  note p = kmem_inv_Cons [OF inv(1)]
  let ?u = "s\<lparr>mem := memset (mem s) p 5 4096, freelist := load64 (mem s) p\<rparr>"
  let ?t = "?u\<lparr>mem := memset (mem ?u) p 0 4096\<rparr>"
  have run: "kalloc s = Ret p ?u" using kalloc_run [OF inv] by simp
  then have "uvmcreate s = Ret p ?t" using p by (simp add: uvmcreate_def monad_simps zero_page_def)
  moreover have "kmem_inv ?u ps" using kalloc_inv [OF inv run] .
  then have "kmem_inv ?t ps" by (rule kmem_inv_frame [where p = p]) (use p in \<open>auto simp: memset_eq\<close>)
  moreover have z: "mem ?t a = 0" if "in_page p a" for a using that by (simp add: memset_eq)
  have al: "page_aligned p" using p by blast
  note zero_table [OF al z]
  ultimately show thesis
    using that [of ?t] inv(2) p by (auto simp: kmem_free_def pt_wf_def memset_eq)
qed

lemma kalloc_keeps:
  assumes "kmem_free s (p # ps)" and wf: "pt_wf s (p # ps) pt"
  obtains t where "kalloc s = Ret p t" and "kmem_free t ps" and "pt_wf t ps pt"
    and "\<And>va. vmap (mem t) pt va = vmap (mem s) pt va" and "tables (mem t) pt = tables (mem s) pt"
    and "p \<notin> tables (mem t) pt" and "mem_only s t"
    and "\<And>a. \<not> in_page p a \<Longrightarrow> mem t a = mem s a"
proof -
  have inv: "kmem_inv s (p # ps)" "KmemLock \<notin> set (held s)" using assms(1) by (auto simp: kmem_free_def)
  let ?t = "s\<lparr>mem := memset (mem s) p 5 4096, freelist := load64 (mem s) p\<rparr>"
  have run: "kalloc s = Ret p ?t" using kalloc_run [OF inv] by simp
  have p: "p \<notin> tables (mem s) pt" "page_aligned p" and pt: "page_aligned pt"
    using wf kmem_inv_Cons [OF inv(1)] by (auto simp: pt_wf_def)
  have out: "mem ?t a = mem s a" if "\<not> in_page p a" for a using that by (simp add: memset_eq)
  have f: "mem ?t a = mem s a" if "q \<in> tables (mem s) pt" "in_page q a" for q a
    using that p in_page_unique [OF p(2) tables_aligned [OF pt that(1)]] by (intro out) blast
  note same = tables_frame [OF pt f] vmap_frame [OF pt f]
  have "pt_wf ?t ps pt" using wf same by (auto simp: pt_wf_def)
  moreover have "kmem_free ?t ps" using kalloc_inv [OF inv run] inv(2) by (simp add: kmem_free_def)
  ultimately show thesis using run same p(1) out by (intro that [of ?t]) auto
qed

lemma page_aligned_nth: "page_aligned (4096 * of_nat n)"
  using page_aligned_mult [of n] by (simp add: mult.commute)

section \<open>Properties\<close>

text \<open>Page \<open>vb\<close> is one of the \<open>n\<close> pages from the page of \<open>va\<close> on.\<close>

definition in_pages :: "uint64 \<Rightarrow> nat \<Rightarrow> uint64 \<Rightarrow> bool" where
  "in_pages va n vb \<longleftrightarrow> unat va div 4096 \<le> unat vb div 4096 \<and> unat vb div 4096 < unat va div 4096 + n"

text \<open>C15: \<open>uvmcreate\<close> returns a table in which nothing is mapped, built from one frame.\<close>

theorem uvmcreate_empty:
  assumes "kmem_free s (p # ps)"
  shows "\<exists>t. uvmcreate s = Ret p t \<and> kmem_free t ps \<and> pt_wf t ps p \<and> (\<forall>va. vmap (mem t) p va = 0)"
  using uvmcreate_run [OF assms] by metis

theorem uvmcreate_empty_witness:
  "\<exists>t. uvmcreate small_ram = Ret 0x87FFC000 t \<and> pt_wf t [0x87FFD000, 0x87FFE000, 0x87FFF000] 0x87FFC000"
  using uvmcreate_empty [OF small_ram_free] by blast



text \<open>A table with one user page mapped: \<open>0x5000\<close> to the frame \<open>0x87FFD000\<close>.\<close>

lemma one_page:
  "\<exists>(s::mstate) ps. kmem_free s ps \<and> pt_wf s ps 0x87FFC000 \<and> 0x87FFD000 \<notin> set ps \<union> tables (mem s) 0x87FFC000 \<and>
    kend s = 0x87FFC000 \<and> tables (mem s) 0x87FFC000 \<subseteq> {0x87FFC000, 0x87FFE000, 0x87FFF000} \<and>
    (\<forall>vb<MAXVA. vmap (mem s) 0x87FFC000 vb =
      (if in_pages 0x5000 1 vb then PA2PTE 0x87FFD000 OR (PTE_W OR PTE_R OR PTE_U) OR PTE_V else 0))"
proof -
  let ?pt = "0x87FFC000 :: addr" and ?perm = "PTE_W OR PTE_R OR PTE_U"
  obtain s :: mstate where s: "kmem_free s [0x87FFD000, 0x87FFE000, 0x87FFF000]"
      "pt_wf s [0x87FFD000, 0x87FFE000, 0x87FFF000] ?pt" "\<And>va. vmap (mem s) ?pt va = 0" "kend s = ?pt" "tables (mem s) ?pt = {?pt}"
    by (rule uvmcreate_run [OF small_ram_free]) (auto dest: mem_only_keeps(2) simp: small_ram_def)
  obtain t :: mstate where t: "kmem_free t [0x87FFE000, 0x87FFF000]" "pt_wf t [0x87FFE000, 0x87FFF000] ?pt"
      "\<And>va. vmap (mem t) ?pt va = vmap (mem s) ?pt va" "0x87FFD000 \<notin> tables (mem t) ?pt" "kend t = ?pt"
      "tables (mem t) ?pt = {?pt}"
    by (rule kalloc_keeps [OF s(1,2)]) (use s(4,5) mem_only_keeps(2) in fastforce)
  have f: "kmem_inv t [0x87FFE000, 0x87FFF000]" "KmemLock \<notin> set (held t)" using t(1) by (auto simp: kmem_free_def)
  have n: "span 0x5000 4096 = 1" by (simp add: span_def)
  have none: "vmap (mem t) ?pt vb AND PTE_V = 0" for vb by (simp add: t(3) s(3))
  have sz: "(0::uint64) < 4096" "unat (0x5000::uint64) + unat (4096::uint64) \<le> 2 ^ 38" by simp_all
  obtain r u qs j where u: "mappages ?pt 0x5000 4096 0x87FFD000 ?perm t = Ret r u"
      "extends t [0x87FFE000, 0x87FFF000] ?pt u qs"
      "\<And>vb. vb < MAXVA \<Longrightarrow> vmap (mem u) ?pt vb = map_range (vmap (mem t) ?pt) 0x5000 j 0x87FFD000 ?perm vb"
      "if r = 0 then j = 1 else r = - 1 \<and> j < 1 \<and> qs = [] \<and> length [0x87FFE000 :: addr, 0x87FFF000] < 2 * 1"
    using mappages_run [OF sz f(1) t(2) f(2) none, of "0x87FFD000" ?perm, unfolded n] by blast
  then have "r = 0" "j = 1" by (auto split: if_splits)
  note e = extendsD [OF u(2)]
  have "kmem_free u qs" using e(1,3) f(2) by (simp add: kmem_free_def)
  moreover have "0x87FFD000 \<notin> set qs \<union> tables (mem u) ?pt" using e(5,8) t(4) by auto
  moreover have "kend u = ?pt" using e(4) t(5) by simp
  moreover have "tables (mem u) ?pt \<subseteq> {?pt, 0x87FFE000, 0x87FFF000}" using e(8) t(6) by auto
  moreover have "vmap (mem u) ?pt vb = (if in_pages 0x5000 1 vb then PA2PTE 0x87FFD000 OR ?perm OR PTE_V else 0)"
    if "vb < MAXVA" for vb
    using u(3) [OF that] \<open>j = 1\<close> by (auto simp: map_range_def in_pages_def Let_def t(3) s(3))
  ultimately show ?thesis using e(2) by blast
qed



text \<open>C13: after \<open>mappages\<close> has mapped user pages, \<open>walkaddr\<close> finds for every address of the range the frame
  that belongs to it.\<close>

theorem mappages_walkaddr:
  assumes "0 < sz" and "unat va + unat sz \<le> 2 ^ 38" and "kmem_free s ps" and "pt_wf s ps pt"
    and "\<forall>vb. in_pages va (span va sz) vb \<longrightarrow> vmap (mem s) pt vb AND PTE_V = 0"
    and "page_aligned pa" and "perm < 0x400" and "perm AND PTE_U \<noteq> 0"
    and "mappages pt va sz pa perm s = Ret 0 t" and "vb < MAXVA" and "in_pages va (span va sz) vb"
  shows "walkaddr pt vb t = Ret (pa + 4096 * of_nat (unat vb div 4096 - unat va div 4096)) t"
proof -
  have f: "kmem_inv s ps" "KmemLock \<notin> set (held s)" using assms(3) by (auto simp: kmem_free_def)
  obtain qs j where run: "extends s ps pt t qs"
      "\<And>vb. vb < MAXVA \<Longrightarrow> vmap (mem t) pt vb = map_range (vmap (mem s) pt) va j pa perm vb" "j = span va sz"
    by (rule mappages_run [OF assms(1,2) f(1) assms(4) f(2), of pa perm])
      (use assms(5,9) in \<open>auto simp: in_pages_def\<close>)
  let ?p = "pa + 4096 * of_nat (unat vb div 4096 - unat va div 4096)"
  have v: "vmap (mem t) pt vb = PA2PTE ?p OR (perm OR PTE_V)"
    using run(2) [OF assms(10)] run(3) assms(11)
    by (auto simp: map_range_def in_pages_def Let_def or.assoc)
  have "page_aligned ?p" using assms(6) by (intro page_aligned_add page_aligned_nth)
  moreover have "(perm OR PTE_V) AND NOT 0x3FF = 0"
    using small_flags [OF assms(7)] by (simp only: bit.conj_disj_distrib2) (simp add: PTE_V_def)
  ultimately have "PTE2PA (vmap (mem t) pt vb) = ?p" unfolding v by (rule PTE2PA_PA2PTE)
  moreover have "vmap (mem t) pt vb AND PTE_V \<noteq> 0"
    unfolding v using PTE_V_set by (simp add: or.assoc [symmetric])
  moreover have "vmap (mem t) pt vb AND PTE_U \<noteq> 0"
    unfolding v using assms(8) by (simp add: bit.conj_disj_distrib2 or_eq_0_iff)
  ultimately show ?thesis
    using walkaddr_run [OF extendsD(2) [OF run(1)], of vb] assms(10) by (simp add: Let_def)
qed

theorem mappages_walkaddr_witness:
  "\<exists>(s::mstate) t. mappages 0x87FFC000 0x5000 4096 0x87000000 (PTE_R OR PTE_U) s = Ret 0 t \<and>
    walkaddr 0x87FFC000 0x5008 t = Ret 0x87000000 t"
proof -
  let ?ps = "[0x87FFD000, 0x87FFE000, 0x87FFF000]" and ?pt = "0x87FFC000"
  obtain s :: mstate where s: "kmem_free s ?ps" "pt_wf s ?ps ?pt" "\<And>va. vmap (mem s) ?pt va = 0"
    using uvmcreate_run [OF small_ram_free] by metis
  have n: "span 0x5000 4096 = 1" by (simp add: span_def)
  have sz: "(0::uint64) < 4096" "unat (0x5000::uint64) + unat (4096::uint64) \<le> 2 ^ 38" by simp_all
  have none: "\<forall>vb. in_pages 0x5000 (span 0x5000 4096) vb \<longrightarrow> vmap (mem s) ?pt vb AND PTE_V = 0"
    by (simp add: s(3))
  have vb: "(0x5008 :: uint64) < MAXVA" "in_pages 0x5000 (span 0x5000 4096) 0x5008"
    by (simp_all add: unat_MAXVA_less in_pages_def n)
  have perm: "PTE_R OR PTE_U < 0x400" "(PTE_R OR PTE_U) AND PTE_U \<noteq> 0" "page_aligned 0x87000000"
    by (simp_all add: PTE_R_def PTE_U_def page_aligned_def)
  have f: "kmem_inv s ?ps" "KmemLock \<notin> set (held s)" using s(1) by (auto simp: kmem_free_def)
  obtain t where t: "mappages ?pt 0x5000 4096 0x87000000 (PTE_R OR PTE_U) s = Ret 0 t"
    by (rule mappages_run [OF sz f(1) s(2) f(2), of "0x87000000" "PTE_R OR PTE_U"])
      (auto simp: s(3) n split: if_splits)
  from mappages_walkaddr [OF sz s(1,2) none perm(3,1,2) t vb]
  have "walkaddr ?pt 0x5008 t = Ret 0x87000000 t" by simp
  with t show ?thesis by blast
qed

text \<open>C12: \<open>uvmunmap\<close> of \<open>n\<close> mapped pages removes exactly these translations; with \<open>do_free\<close> the frames behind
  them go to the free list, last one first, and without it no frame is freed.\<close>

theorem uvmunmap_correct:
  assumes "page_aligned va" and "unat va + 4096 * n \<le> 2 ^ 38" and "kmem_free s ps" and "pt_wf s ps pt"
    and "leaf_range (mem s) pt va n"
    and "do_free \<longrightarrow> freeable s ps pt (mapped_frames (mem s) pt va n)"
  shows "\<exists>t qs. uvmunmap pt va (of_nat n) do_free s = Ret () t \<and> kmem_free t qs \<and> pt_wf t qs pt \<and>
    qs = (if do_free then rev (mapped_frames (mem s) pt va n) else []) @ ps \<and>
    (\<forall>vb<MAXVA. vmap (mem t) pt vb = (if in_pages va n vb then 0 else vmap (mem s) pt vb))"
proof -
  have f: "kmem_inv s ps" "KmemLock \<notin> set (held s)" using assms(3) by (auto simp: kmem_free_def)
  obtain t where t: "uvmunmap pt va (of_nat n) do_free s = Ret () t"
      "releases s ps pt t (if do_free then rev (mapped_frames (mem s) pt va n) else [])"
      "\<And>vb. vb < MAXVA \<Longrightarrow> vmap (mem t) pt vb = (if in_pages va n vb then 0 else vmap (mem s) pt vb)"
    by (rule uvmunmap_run [OF assms(1,2) f(1) assms(4) f(2) assms(5), of do_free])
      (use assms(6) in \<open>auto simp: in_pages_def\<close>)
  note r = releasesD [OF t(2)]
  have "kmem_free t ((if do_free then rev (mapped_frames (mem s) pt va n) else []) @ ps)"
    using r(1,3) f(2) by (simp add: kmem_free_def)
  with t r(2) show ?thesis by blast
qed

theorem uvmunmap_correct_witness:
  "\<exists>(s::mstate) t ps. uvmunmap 0x87FFC000 0x5000 1 True s = Ret () t \<and> kmem_free t (0x87FFD000 # ps) \<and>
    vmap (mem t) 0x87FFC000 0x5000 = 0"
proof -
  let ?pt = "0x87FFC000" and ?v = "PA2PTE 0x87FFD000 OR (PTE_W OR PTE_R OR PTE_U) OR PTE_V"
  obtain s :: mstate and ps where s: "kmem_free s ps" "pt_wf s ps ?pt" "0x87FFD000 \<notin> set ps \<union> tables (mem s) ?pt"
      "kend s = ?pt" "\<forall>vb<MAXVA. vmap (mem s) ?pt vb = (if in_pages 0x5000 1 vb then ?v else 0)"
    using one_page by blast
  have vb: "(0x5000::uint64) < MAXVA" "in_pages 0x5000 1 0x5000" by (simp_all add: unat_MAXVA_less in_pages_def)
  with s(5) have v: "vmap (mem s) ?pt 0x5000 = ?v" by simp
  have flags: "PTE2PA ?v = 0x87FFD000" "PTE_FLAGS ?v \<noteq> PTE_V" "?v AND PTE_V \<noteq> 0"
    by (simp_all add: PA2PTE_def PTE2PA_def PTE_FLAGS_def PTE_V_def PTE_W_def PTE_R_def PTE_U_def)
  have fr: "mapped_frames (mem s) ?pt 0x5000 1 = [0x87FFD000]"
    using flags(1) by (simp add: mapped_frames_def frame_of_def v)
  have "leaf_range (mem s) ?pt 0x5000 1" using flags(2,3) by (simp add: leaf_range_def v Let_def)
  moreover have "freeable s ps ?pt (mapped_frames (mem s) ?pt 0x5000 1)"
    using s(3,4) unfolding fr by (simp add: freeable_def frame_ok_def page_aligned_def PHYSTOP_def KERNBASE_def)
  moreover have "page_aligned 0x5000" "unat (0x5000::uint64) + 4096 * 1 \<le> 2 ^ 38" by (simp_all add: page_aligned_def)
  ultimately have "\<exists>t qs. uvmunmap ?pt 0x5000 (of_nat 1) True s = Ret () t \<and> kmem_free t qs \<and> pt_wf t qs ?pt \<and>
      qs = (if True then rev (mapped_frames (mem s) ?pt 0x5000 1) else []) @ ps \<and>
      (\<forall>vb<MAXVA. vmap (mem t) ?pt vb = (if in_pages 0x5000 1 vb then 0 else vmap (mem s) ?pt vb))"
    using uvmunmap_correct [of "0x5000" 1 s ps ?pt True] s(1,2) by blast
  then obtain t where "uvmunmap ?pt 0x5000 1 True s = Ret () t" "kmem_free t (0x87FFD000 # ps)"
      "vmap (mem t) ?pt 0x5000 = 0"
    using vb unfolding fr by auto
  then show ?thesis by blast
qed

end
