(* ===== verification/CopyUser.thy ===== *)
theory CopyUser
  imports PageTable
begin

text \<open>
  The end of \<open>kernel/vm.c\<close>: copying between the kernel and user address spaces (\<open>copyout\<close>,
  \<open>copyin\<close>, \<open>copyinstr\<close>) and \<open>mymemmove\<close>, the copy routine that this kernel puts in place of
  \<open>memmove\<close> there.  Kernel addresses are physical addresses, since the kernel maps memory
  one to one.
\<close>

unbundle bit_operations_syntax

section \<open>mymemmove\<close>

text \<open>The loop that moves eight bytes at a time.\<close>

fun copy_words :: "nat \<Rightarrow> pmem \<Rightarrow> addr \<Rightarrow> addr \<Rightarrow> pmem" where
  "copy_words n m d1 s1 =
     (if n \<ge> 8 then copy_words (n - 8) (store64 m d1 (load64 m s1)) (d1 + 8) (s1 + 8) else m)"

declare copy_words.simps [simp del]

definition mymemmove :: "pmem \<Rightarrow> addr \<Rightarrow> addr \<Rightarrow> uint32 \<Rightarrow> pmem" where
  "mymemmove m dst src n =
     (if n \<ge> 8 \<and> src AND 7 = 0 \<and> dst AND 7 = 0 \<and> \<not> (src < dst \<and> src + ucast n > dst)
      then copy_words (unat n) m dst src
      else if src < dst \<and> src + ucast n > dst
      then copy_down (unat n) m (dst + ucast n) (src + ucast n)
      else copy_up (unat n) m dst src)"

section \<open>copyout, copyin and copyinstr\<close>

text \<open>The bytes from \<open>va\<close> to the end of its page, at most \<open>len\<close>.\<close>

definition chunk :: "uint64 \<Rightarrow> uint64 \<Rightarrow> uint64" where
  "chunk va len = (let n = PGSIZE - (va - PGROUNDDOWN va) in if n > len then len else n)"

lemma unat_off: "unat (va - PGROUNDDOWN va) = unat va mod 4096"
  using unat_offset_in_page by blast

lemma unat_chunk: "unat (chunk va len) = min (4096 - unat va mod 4096) (unat len)"
proof -
  have "unat (va - PGROUNDDOWN va) < 4096" by (simp add: unat_off)
  then have "unat (PGSIZE - (va - PGROUNDDOWN va)) = 4096 - unat va mod 4096"
    by (subst unat_sub) (simp_all add: word_le_nat_alt unat_off)
  then show ?thesis by (simp add: chunk_def Let_def word_less_nat_alt)
qed

lemma chunk_shrinks: "0 < len \<Longrightarrow> unat (len - chunk va len) < unat len"
proof -
  assume "0 < len"
  then have "0 < unat len" by (simp add: word_less_nat_alt)
  moreover have "0 < unat (chunk va len)" "chunk va len \<le> len"
    using calculation by (simp_all add: unat_chunk word_le_nat_alt)
  ultimately show ?thesis by (simp add: unat_sub)
qed

function copyout :: "addr \<Rightarrow> uint64 \<Rightarrow> addr \<Rightarrow> uint64 \<Rightarrow> ('z mstate_scheme, int) kfun" where
  "copyout pagetable dstva src len s =
     (if len > 0
      then bnd (walkaddr pagetable (PGROUNDDOWN dstva)) (\<lambda>pa0.
        if pa0 = 0 then ret (- 1)
        else let va0 = PGROUNDDOWN dstva; n = chunk dstva len
          in thn (modify (\<lambda>s. s\<lparr>mem := mymemmove (mem s) (pa0 + (dstva - va0)) src (ucast n)\<rparr>))
                 (copyout pagetable (va0 + PGSIZE) (src + n) (len - n))) s
      else Ret 0 s)"
  by pat_completeness auto
termination
  by (relation "measure (\<lambda>(pt, dstva, src, len, s). unat len)") (auto intro!: chunk_shrinks)

function copyin :: "addr \<Rightarrow> addr \<Rightarrow> uint64 \<Rightarrow> uint64 \<Rightarrow> ('z mstate_scheme, int) kfun" where
  "copyin pagetable dst srcva len s =
     (if len > 0
      then bnd (walkaddr pagetable (PGROUNDDOWN srcva)) (\<lambda>pa0.
        if pa0 = 0 then ret (- 1)
        else let va0 = PGROUNDDOWN srcva; n = chunk srcva len
          in thn (modify (\<lambda>s. s\<lparr>mem := mymemmove (mem s) dst (pa0 + (srcva - va0)) (ucast n)\<rparr>))
                 (copyin pagetable (dst + n) (va0 + PGSIZE) (len - n))) s
      else Ret 0 s)"
  by pat_completeness auto
termination
  by (relation "measure (\<lambda>(pt, dst, srcva, len, s). unat len)") (auto intro!: chunk_shrinks)

text \<open>The inner loop of \<open>copyinstr\<close>; the result is the memory and whether a 0 byte was
  met.\<close>

primrec copyinstr_chunk :: "nat \<Rightarrow> pmem \<Rightarrow> addr \<Rightarrow> addr \<Rightarrow> pmem \<times> bool" where
  "copyinstr_chunk 0 m dst p = (m, False)"
| "copyinstr_chunk (Suc n) m dst p =
     (if m p = 0 then (m(dst := 0), True)
      else copyinstr_chunk n (m(dst := m p)) (dst + 1) (p + 1))"

function copyinstr :: "addr \<Rightarrow> addr \<Rightarrow> uint64 \<Rightarrow> uint64 \<Rightarrow> ('z mstate_scheme, int) kfun" where
  "copyinstr pagetable dst srcva mx s =
     (if mx > 0
      then bnd (walkaddr pagetable (PGROUNDDOWN srcva)) (\<lambda>pa0.
        if pa0 = 0 then ret (- 1)
        else let va0 = PGROUNDDOWN srcva; n = chunk srcva mx
          in bnd (gets (\<lambda>s. copyinstr_chunk (unat n) (mem s) dst (pa0 + (srcva - va0)))) (\<lambda>(m, got_null).
               thn (modify (\<lambda>s. s\<lparr>mem := m\<rparr>))
                 (if got_null then ret 0
                  else copyinstr pagetable (dst + n) (va0 + PGSIZE) (mx - n)))) s
      else Ret (- 1) s)"
  by pat_completeness auto
termination
  by (relation "measure (\<lambda>(pt, dst, srcva, mx, s). unat mx)") (auto intro!: chunk_shrinks)

declare copyout.simps [simp del] copyin.simps [simp del] copyinstr.simps [simp del]

section \<open>What mymemmove copies\<close>

text \<open>\<open>kept d s n\<close>: how many of \<open>n\<close> bytes \<open>mymemmove\<close> copies from \<open>s\<close> to \<open>d\<close>.\<close>

definition kept :: "addr \<Rightarrow> addr \<Rightarrow> nat \<Rightarrow> nat" where
  "kept d s n = (if 8 \<le> n \<and> 8 dvd unat s \<and> 8 dvd unat d \<and> \<not> (s < d \<and> unat d < unat s + n)
     then n div 8 * 8 else n)"

lemma aligned8_iff: "x AND 7 = 0 \<longleftrightarrow> 8 dvd unat (x::addr)"
proof -
  have "x AND 7 = x mod 8" using take_bit_eq_mask [of 3 x] by (simp add: mask_numeral take_bit_eq_mod)
  then have "unat (x AND 7) = unat x mod 8" by (simp add: unat_mod)
  then show ?thesis by (metis dvd_eq_mod_eq_0 unat_eq_zero)
qed

lemma copy_words_eq:
  assumes "unat s + n \<le> 2 ^ 64" and "unat d + n \<le> 2 ^ 64" and "d \<le> s \<or> unat s + n \<le> unat d"
  shows "copy_words n m d s = blit m d s (n div 8 * 8)"
  using assms
proof (induction n m d s rule: copy_words.induct)
  case (1 n m d s)
  show ?case
  proof (cases "8 \<le> n")
    case False
    then show ?thesis by (simp add: copy_words.simps)
  next
    case True
    let ?m = "store64 m d (load64 m s)" and ?j = "(n - 8) div 8 * 8"
    have m: "?m = blit m d s 8" by (rule ext) (simp add: store64_load64 blit_def)
    have j: "n div 8 * 8 = 8 + ?j" "?j \<le> n - 8" using True by (simp_all add: le_div_geq)
    have run: "copy_words n m d s = copy_words (n - 8) ?m (d + 8) (s + 8)"
      using True by (subst copy_words.simps) simp
    show ?thesis
    proof (cases "n < 16")
      case True
      then have "n - 8 < 8" by linarith
      then have "copy_words (n - 8) ?m (d + 8) (s + 8) = ?m" "?j = 0"
        by (simp_all add: copy_words.simps)
      with run m j show ?thesis by simp
    next
      case False
      then have s8: "unat (s + 8) = unat s + 8" and d8: "unat (d + 8) = unat d + 8" and "0 < ?j"
        using "1.prems"(1,2) by (simp_all add: unat_word_ariths)
      have "copy_words (n - 8) ?m (d + 8) (s + 8) = blit ?m (d + 8) (s + 8) ?j"
        using True "1.prems" s8 d8 by (intro "1.IH") (auto simp: word_le_nat_alt)
      also have "\<dots> = blit m d s (8 + ?j)"
      proof -
        have "8 + ?j \<le> n" using True j(2) by linarith
        with "1.prems" have "unat s + (8 + ?j) \<le> 2 ^ 64" "unat d + (8 + ?j) \<le> 2 ^ 64"
            "d \<le> s \<or> unat s + (8 + ?j) \<le> unat d" by linarith+
        from blit_split [OF this \<open>0 < ?j\<close>] show ?thesis unfolding m by simp
      qed
      finally show ?thesis using run j by simp
    qed
  qed
qed

lemma mymemmove_eq:
  assumes "unat src + unat n < 2 ^ 64" and "unat dst + unat n < 2 ^ 64"
  shows "mymemmove m dst src n = blit m dst src (kept dst src (unat n))"
proof -
  have e: "dst < src + ucast n \<longleftrightarrow> unat dst < unat src + unat n"
    using assms(1) by (simp add: word_less_nat_alt unat_word_ariths)
  show ?thesis
  proof (cases "n \<ge> 8 \<and> src AND 7 = 0 \<and> dst AND 7 = 0 \<and> \<not> (src < dst \<and> src + ucast n > dst)")
    case True
    then have "dst \<le> src \<or> unat src + unat n \<le> unat dst" using e by auto
    with True assms have "copy_words (unat n) m dst src = blit m dst src (unat n div 8 * 8)"
      by (intro copy_words_eq) auto
    with True e show ?thesis
      by (auto simp: mymemmove_def kept_def aligned8_iff word_le_nat_alt)
  next
    case False
    then have "mymemmove m dst src n = memmove m dst src n" by (auto simp: mymemmove_def memmove_def)
    moreover have "kept dst src (unat n) = unat n"
      using False e by (auto simp: kept_def aligned8_iff word_le_nat_alt)
    ultimately show ?thesis using memmove_blit [OF assms] by simp
  qed
qed

section \<open>User memory\<close>

text \<open>\<open>user_pa m pt va\<close> is the physical address behind the user address \<open>va\<close>; \<open>user_ok\<close> says that there
  is one, in RAM, that user code may access.\<close>

definition user_pa :: "pmem \<Rightarrow> addr \<Rightarrow> uint64 \<Rightarrow> addr" where
  "user_pa m pt va = PTE2PA (vmap m pt va) + (va - PGROUNDDOWN va)"

definition user_ok :: "pmem \<Rightarrow> addr \<Rightarrow> uint64 \<Rightarrow> bool" where
  "user_ok m pt va \<longleftrightarrow> va < MAXVA \<and> vmap m pt va AND PTE_V \<noteq> 0 \<and> vmap m pt va AND PTE_U \<noteq> 0 \<and>
     PTE2PA (vmap m pt va) \<noteq> 0 \<and> PTE2PA (vmap m pt va) < PHYSTOP"

definition user_range :: "pmem \<Rightarrow> addr \<Rightarrow> uint64 \<Rightarrow> nat \<Rightarrow> bool" where
  "user_range m pt va n \<longleftrightarrow> (\<forall>i<n. user_ok m pt (va + of_nat i))"

lemma same_page_vmap:
  assumes "va < MAXVA" and "vb < MAXVA" and "unat va div 4096 = unat vb div 4096"
  shows "vmap m pt va = vmap m pt vb"
  using vmap_agree agree_page [OF assms(1,2)] assms(3) by blast

lemma PGROUNDDOWN_MAXVA: "va < MAXVA \<Longrightarrow> PGROUNDDOWN va < MAXVA"
  using PGROUNDDOWN_le [of va] by (simp add: unat_MAXVA_less word_le_nat_alt)

lemma walkaddr_user_ok:
  assumes "pt_wf s ps pt" and "user_ok (mem s) pt va"
  shows "walkaddr pt (PGROUNDDOWN va) s = Ret (PTE2PA (vmap (mem s) pt va)) s"
proof -
  have va: "va < MAXVA" using assms(2) by (simp add: user_ok_def)
  then have "vmap (mem s) pt (PGROUNDDOWN va) = vmap (mem s) pt va"
    using PGROUNDDOWN_MAXVA by (intro same_page_vmap) (simp_all add: unat_PGROUNDDOWN)
  with assms(2) PGROUNDDOWN_MAXVA [OF va] show ?thesis
    by (simp add: walkaddr_run [OF assms(1)] user_ok_def Let_def)
qed

lemma unat_user_pa:
  assumes "user_ok m pt va"
  shows "unat (user_pa m pt va) = unat (PTE2PA (vmap m pt va)) + unat va mod 4096"
    and "unat (PTE2PA (vmap m pt va)) < 0x88000000"
proof -
  show "unat (PTE2PA (vmap m pt va)) < 0x88000000"
    using assms by (simp add: user_ok_def word_less_nat_alt unat_PHYSTOP)
  then show "unat (user_pa m pt va) = unat (PTE2PA (vmap m pt va)) + unat va mod 4096"
    by (simp add: user_pa_def unat_word_ariths unat_off)
qed

lemma page_offset_add:
  assumes "(x::nat) mod 4096 + i < 4096"
  shows "(x + i) div 4096 = x div 4096" and "(x + i) mod 4096 = x mod 4096 + i"
proof -
  have "x + i = 4096 * (x div 4096) + (x mod 4096 + i)" by simp
  then show "(x + i) div 4096 = x div 4096" "(x + i) mod 4096 = x mod 4096 + i"
    using assms by (metis add.right_neutral div_less div_mult_self4 zero_neq_numeral)
      (metis \<open>x + i = _\<close> assms mod_less mod_mult_self4)
qed

lemma user_pa_next:
  assumes "user_ok m pt va" and "user_ok m pt (va + of_nat i)" and "unat va mod 4096 + i < 4096"
  shows "user_pa m pt (va + of_nat i) = user_pa m pt va + of_nat i"
proof -
  have "unat va < 2 ^ 38" using assms(1) by (simp add: user_ok_def unat_MAXVA_less)
  then have i: "unat (va + of_nat i) = unat va + i"
    using assms(3) by (simp add: unat_word_ariths unat_of_nat)
  note p = page_offset_add [OF assms(3)]
  have v: "vmap m pt (va + of_nat i) = vmap m pt va"
    using assms(1,2) i p(1) by (intro same_page_vmap) (simp_all add: user_ok_def)
  have "unat (user_pa m pt (va + of_nat i)) = unat (user_pa m pt va) + i"
    using unat_user_pa [OF assms(1)] unat_user_pa [OF assms(2)] v i p(2) by simp
  moreover have "unat (user_pa m pt va + of_nat i) = unat (user_pa m pt va) + i"
    using unat_user_pa [OF assms(1)] assms(3) by (simp add: unat_word_ariths unat_of_nat)
  ultimately show ?thesis by (simp add: word_unat_eq_iff)
qed

section \<open>copyin\<close>

text \<open>No byte is lost on the way: in each turn \<open>mymemmove\<close> gets addresses that are not both multiples
  of 8, or a multiple of 8 bytes.  Both disjuncts are invariants of the loops.\<close>

definition lossless :: "uint64 \<Rightarrow> uint64 \<Rightarrow> nat \<Rightarrow> bool" where
  "lossless va k n \<longleftrightarrow> 8 dvd (unat va + n) \<or> unat va mod 8 \<noteq> unat k mod 8"

lemma user_pa_mod8:
  assumes "user_ok m pt va"
  shows "unat (user_pa m pt va) mod 8 = unat va mod 8"
proof -
  have "page_aligned (PTE2PA (vmap m pt va))" by (rule page_aligned_PTE2PA)
  then have "8 dvd unat (PTE2PA (vmap m pt va))" unfolding page_aligned_def
    by (rule dvd_trans [rotated]) simp
  then show ?thesis by (simp add: unat_user_pa [OF assms] mod_add_eq [symmetric, of _ "unat va mod 4096"]
        mod_mod_cancel mod_0_imp_dvd dvd_imp_mod_0)
qed

lemma kept_chunk:
  assumes "lossless va k (unat len)" and "unat p mod 8 = unat va mod 8"
  shows "kept k p (unat (chunk va len)) = unat (chunk va len)"
    and "kept p k (unat (chunk va len)) = unat (chunk va len)"
proof -
  let ?n = "unat (chunk va len)"
  have "8 dvd ?n" if "8 dvd unat p" "8 dvd unat k"
  proof -
    have va: "8 dvd unat va" using that assms(2) by (simp add: dvd_eq_mod_eq_0)
    then have "8 dvd unat len"
      using assms(1) that by (auto simp: lossless_def dvd_add_right_iff)
    moreover have "8 dvd unat va mod 4096" using va by (simp add: dvd_mod)
    ultimately show ?thesis by (auto simp: unat_chunk min_def)
  qed
  then show "kept k p ?n = ?n" "kept p k ?n = ?n" by (auto simp: kept_def)
qed

lemma lossless_next:
  assumes "lossless va k (unat len)" and "n \<le> len" and "unat va + unat len < 2 ^ 64" and "unat k + unat len < 2 ^ 64"
  shows "lossless (va + n) (k + n) (unat (len - n))"
proof -
  have n: "unat n \<le> unat len" using assms(2) by (simp add: word_le_nat_alt)
  then have "unat (va + n) = unat va + unat n" "unat (k + n) = unat k + unat n"
    using assms(3,4) by (simp_all add: unat_word_ariths)
  moreover have "(x + c) mod 8 = (y + c) mod 8 \<longleftrightarrow> x mod 8 = y mod 8" for x y c :: nat
    by (simp add: nat_mod_eq_iff)
  moreover have "unat va + unat n + unat (len - n) = unat va + unat len"
    using n assms(2) by (simp add: unat_sub)
  ultimately show ?thesis using assms(1) by (simp only: lossless_def)
qed

text \<open>\<open>copied_in m pt dst va n\<close>: the memory after the \<open>n\<close> user bytes from \<open>va\<close> on were copied to \<open>dst\<close>.
  The kernel's buffer \<open>dst\<close> must be neither in the page table nor in the user memory it is filled
  from.\<close>

definition copied_in :: "pmem \<Rightarrow> addr \<Rightarrow> addr \<Rightarrow> uint64 \<Rightarrow> nat \<Rightarrow> pmem" where
  "copied_in m pt dst va n =
     (\<lambda>a. if in_range dst n a then m (user_pa m pt (va + (a - dst))) else m a)"

definition outside_tables :: "pmem \<Rightarrow> addr \<Rightarrow> addr \<Rightarrow> nat \<Rightarrow> bool" where
  "outside_tables m pt dst n \<longleftrightarrow> (\<forall>p\<in>tables m pt. \<forall>a. in_page p a \<longrightarrow> \<not> in_range dst n a)"

definition outside_user :: "pmem \<Rightarrow> addr \<Rightarrow> addr \<Rightarrow> nat \<Rightarrow> uint64 \<Rightarrow> nat \<Rightarrow> bool" where
  "outside_user m pt dst n va k \<longleftrightarrow> (\<forall>i<k. \<not> in_range dst n (user_pa m pt (va + of_nat i)))"

lemma pt_wf_frame:
  assumes wf: "pt_wf s ps pt" and "outside_tables (mem s) pt dst n"
    and "\<And>a. \<not> in_range dst n a \<Longrightarrow> m a = mem s a"
  shows "pt_wf (s\<lparr>mem := m\<rparr>) ps pt" and "vmap m pt = vmap (mem s) pt" and "tables m pt = tables (mem s) pt"
proof -
  have pt: "page_aligned pt" using wf by (simp add: pt_wf_def)
  have f: "\<And>p a. p \<in> tables (mem s) pt \<Longrightarrow> in_page p a \<Longrightarrow> m a = mem s a"
    using assms(2,3) by (auto simp: outside_tables_def)
  show "tables m pt = tables (mem s) pt" by (rule tables_frame [OF pt f])
  with tables_frame(2) [OF pt f] wf show "pt_wf (s\<lparr>mem := m\<rparr>) ps pt" by (simp add: pt_wf_def)
  show "vmap m pt = vmap (mem s) pt" by (rule ext, rule vmap_frame [OF pt f])
qed

lemma user_cong:
  assumes "vmap m' pt = vmap m pt"
  shows "user_pa m' pt = user_pa m pt" and "user_ok m' pt = user_ok m pt"
  using assms by (auto simp: user_pa_def user_ok_def)

lemma in_range_sub:
  assumes "unat d + n \<le> 2 ^ 64" and "k + j \<le> n" and "0 < j" and "in_range (d + of_nat k) j a"
  shows "in_range d n a"
proof -
  have "unat (d + of_nat k) = unat d + k" using assms(1-3) by (simp add: unat_word_ariths unat_of_nat)
  with assms show ?thesis by (simp add: in_range_nat)
qed

lemma copied_in_split:
  assumes "unat dst + (k + n) \<le> 2 ^ 64" and "0 < n" and "k + n < 2 ^ 64"
    and "outside_user m pt dst k (va + of_nat k) n"
    and "vmap (copied_in m pt dst va k) pt = vmap m pt"
  shows "copied_in (copied_in m pt dst va k) pt (dst + of_nat k) (va + of_nat k) n = copied_in m pt dst va (k + n)"
proof
  fix a
  let ?m = "copied_in m pt dst va k"
  have dk: "unat (dst + of_nat k) = unat dst + k" using assms by (simp add: unat_word_ariths unat_of_nat)
  have "in_range dst (k + n) a \<longleftrightarrow> in_range dst k a \<or> in_range (dst + of_nat k) n a"
    using assms(1) dk by (auto simp: in_range_nat)
  moreover have "\<not> (in_range dst k a \<and> in_range (dst + of_nat k) n a)"
    using assms(1) dk by (auto simp: in_range_nat)
  moreover have "?m (user_pa m pt (va + of_nat k + (a - (dst + of_nat k)))) = m (user_pa m pt (va + (a - dst)))"
    if a: "in_range (dst + of_nat k) n a"
  proof -
    obtain i where i: "i < n" "a = dst + of_nat k + of_nat i"
      using a unat_diff_less unfolding in_range_def by blast
    with assms(4) have "\<not> in_range dst k (user_pa m pt (va + of_nat k + of_nat i))"
      by (auto simp: outside_user_def)
    with i show ?thesis by (simp add: copied_in_def algebra_simps)
  qed
  ultimately show "copied_in ?m pt (dst + of_nat k) (va + of_nat k) n a = copied_in m pt dst va (k + n) a"
    using user_cong(1) [OF assms(5)] by (auto simp: copied_in_def)
qed

lemma blit_user:
  assumes "user_range m pt va n" and "unat va mod 4096 + n \<le> 4096" and "0 < n"
  shows "blit m dst (user_pa m pt va) n = copied_in m pt dst va n"
proof
  fix a
  show "blit m dst (user_pa m pt va) n a = copied_in m pt dst va n a"
  proof (cases "in_range dst n a")
    case True
    then obtain i where i: "i < n" "a = dst + of_nat i"
      using unat_diff_less unfolding in_range_def by blast
    have "user_pa m pt (va + of_nat i) = user_pa m pt va + of_nat i"
      using assms i(1) user_pa_next [of m pt va i] by (auto simp: user_range_def dest: spec [of _ 0])
    with i True show ?thesis by (simp add: blit_def copied_in_def)
  qed (simp add: blit_def copied_in_def)
qed

lemma ucast_chunk: "unat (ucast (chunk va len) :: uint32) = unat (chunk va len)"
  by (simp add: unsigned_ucast_eq unat_chunk take_bit_nat_eq_self)

text \<open>One turn of the loop of \<open>copyin\<close>.\<close>

lemma copyin_turn:
  assumes "0 < len" and wf: "pt_wf s ps pt" and ok: "user_range (mem s) pt va (unat len)"
    and "unat dst + unat len < 2 ^ 64" and "lossless va dst (unat len)" and n: "n = chunk va len"
  shows "copyin pt dst va len s = copyin pt (dst + n) (PGROUNDDOWN va + PGSIZE) (len - n)
    (s\<lparr>mem := copied_in (mem s) pt dst va (unat n)\<rparr>)"
proof -
  have pos: "0 < unat len" using assms(1) by (simp add: word_less_nat_alt)
  have un: "unat n = min (4096 - unat va mod 4096) (unat len)" by (simp add: n unat_chunk)
  have here: "user_ok (mem s) pt va" using ok pos by (auto simp: user_range_def dest: spec [of _ 0])
  let ?p = "user_pa (mem s) pt va"
  have p: "unat ?p + unat n < 2 ^ 64" using unat_user_pa [OF here] un by simp
  have d: "unat dst + unat n < 2 ^ 64" using assms(4) un by simp
  have "mymemmove (mem s) dst ?p (ucast n) = blit (mem s) dst ?p (kept dst ?p (unat n))"
    using mymemmove_eq [of ?p "ucast n" dst "mem s"] p d ucast_chunk [of va len] n by simp
  also have "\<dots> = blit (mem s) dst ?p (unat n)"
    using kept_chunk(1) [OF assms(5) user_pa_mod8 [OF here]] n by simp
  also have "\<dots> = copied_in (mem s) pt dst va (unat n)"
    using ok un pos by (intro blit_user) (auto simp: user_range_def)
  finally have m: "mymemmove (mem s) dst ?p (ucast n) = copied_in (mem s) pt dst va (unat n)" .
  have "PTE2PA (vmap (mem s) pt va) \<noteq> 0" using here by (simp add: user_ok_def)
  then show ?thesis
    using assms(1) m n walkaddr_user_ok [OF wf here]
    by (subst copyin.simps) (simp add: monad_simps Let_def user_pa_def)
qed

lemma chunk_next: "chunk va len \<noteq> len \<Longrightarrow> PGROUNDDOWN va + PGSIZE = va + chunk va len"
  by (auto simp: chunk_def Let_def)

lemma outside_tables_mono:
  assumes "outside_tables m pt dst n" and "unat dst + n \<le> 2 ^ 64" and "k + j \<le> n" and "0 < j"
    and "tables m' pt = tables m pt"
  shows "outside_tables m' pt (dst + of_nat k) j"
  using assms in_range_sub unfolding outside_tables_def by blast

lemma outside_user_mono:
  assumes "outside_user m pt dst n va n" and "unat dst + n \<le> 2 ^ 64" and "k + j \<le> n" and "0 < j"
    and "i + l \<le> n" and "user_pa m' pt = user_pa m pt"
  shows "outside_user m' pt (dst + of_nat k) j (va + of_nat i) l"
  unfolding outside_user_def
proof (intro allI impI)
  fix x assume "x < l"
  then have "\<not> in_range dst n (user_pa m pt (va + of_nat (i + x)))"
    using assms(1,5) unfolding outside_user_def by (metis add_less_cancel_left le_trans less_le_trans)
  then show "\<not> in_range (dst + of_nat k) j (user_pa m' pt (va + of_nat i + of_nat x))"
    using in_range_sub [OF assms(2-4)] assms(6) by (auto simp: add.assoc)
qed

lemma user_range_suffix:
  assumes "user_range m pt va n" and "k + j \<le> n" and "user_ok m' pt = user_ok m pt"
  shows "user_range m' pt (va + of_nat k) j"
  unfolding user_range_def
proof (intro allI impI)
  fix i assume "i < j"
  then have "user_ok m pt (va + of_nat (k + i))" using assms(1,2) unfolding user_range_def
    by (metis add_less_cancel_left less_le_trans)
  then show "user_ok m' pt (va + of_nat k + of_nat i)" using assms(3) by (simp add: add.assoc)
qed

lemma copyin_run:
  assumes "pt_wf s ps pt" and "user_range (mem s) pt va (unat len)"
    and "unat va + unat len < 2 ^ 64" and "unat dst + unat len < 2 ^ 64" and "lossless va dst (unat len)"
    and "outside_tables (mem s) pt dst (unat len)" and "outside_user (mem s) pt dst (unat len) va (unat len)"
  shows "copyin pt dst va len s = Ret 0 (s\<lparr>mem := copied_in (mem s) pt dst va (unat len)\<rparr>)"
  using assms
proof (induction "unat len" arbitrary: dst va len s rule: less_induct)
  case less
  show ?case
  proof (cases "len = 0")
    case True
    then show ?thesis by (simp add: copyin.simps copied_in_def)
  next
    case False
    then have pos: "0 < len" by (simp add: word_neq_0_conv)
    define n k j where "n = chunk va len" and "k = unat n" and "j = unat (len - n)"
    let ?m = "copied_in (mem s) pt dst va k"
    have le: "n \<le> len" by (simp add: word_le_nat_alt unat_chunk n_def)
    then have len: "unat len = k + j" by (simp add: unat_sub word_le_nat_alt k_def j_def)
    have turn: "copyin pt dst va len s = copyin pt (dst + n) (PGROUNDDOWN va + PGSIZE) (len - n) (s\<lparr>mem := ?m\<rparr>)"
      using copyin_turn [OF pos less.prems(1,2,4,5) n_def] by (simp add: k_def)
    show ?thesis
    proof (cases "n = len")
      case True
      with turn show ?thesis by (simp add: copyin.simps k_def)
    next
      case False
      have j: "0 < j" using False le by (simp add: j_def unat_gt_0)
      have k: "0 < k" using pos by (simp add: k_def n_def unat_chunk word_less_nat_alt)
      have n: "n = of_nat k" by (simp add: k_def)
      have d: "unat dst + unat len \<le> 2 ^ 64" using less.prems(4) by simp
      note out = outside_tables_mono [OF less.prems(6) d]
      have "outside_tables (mem s) pt dst k" using out [of 0 k] len k by simp
      note f = pt_wf_frame [OF less.prems(1) this, of ?m] and u = user_cong
      have "?m a = mem s a" if "\<not> in_range dst k a" for a using that by (simp add: copied_in_def)
      note f = f [OF this]
      note u = user_cong [OF f(2)]
      let ?t = "s\<lparr>mem := ?m\<rparr>"
      have "copyin pt (dst + n) (va + n) (len - n) ?t =
          Ret 0 (?t\<lparr>mem := copied_in (mem ?t) pt (dst + n) (va + n) (unat (len - n))\<rparr>)"
      proof (rule less.hyps)
        show "unat (len - n) < unat len" using len k j_def by simp
        show "pt_wf (s\<lparr>mem := ?m\<rparr>) ps pt" by (rule f(1))
        show "user_range (mem (s\<lparr>mem := ?m\<rparr>)) pt (va + n) (unat (len - n))"
          using user_range_suffix [OF less.prems(2), of k j ?m] len u n j_def by simp
        show "lossless (va + n) (dst + n) (unat (len - n))"
          using lossless_next [OF less.prems(5) le less.prems(3,4)] .
        show "unat (va + n) + unat (len - n) < 2 ^ 64" "unat (dst + n) + unat (len - n) < 2 ^ 64"
          using less.prems(3,4) len k_def j_def by (simp_all add: unat_word_ariths)
        show "outside_tables (mem (s\<lparr>mem := ?m\<rparr>)) pt (dst + n) (unat (len - n))"
          using out [of k j ?m] len j f(3) n j_def by simp
        show "outside_user (mem (s\<lparr>mem := ?m\<rparr>)) pt (dst + n) (unat (len - n)) (va + n) (unat (len - n))"
          using outside_user_mono [OF less.prems(7) d, of k j k j ?m] len j u n j_def by simp
      qed
      moreover have "copied_in ?m pt (dst + of_nat k) (va + of_nat k) j = copied_in (mem s) pt dst va (k + j)"
        using outside_user_mono [OF less.prems(7) d, of 0 k k j "mem s"] d len j k f(2) unat64_less [of len]
        by (intro copied_in_split) (simp_all del: of_nat_add)
      ultimately show ?thesis
        using turn chunk_next [of va len] False len n j_def unfolding n_def [symmetric] by simp
    qed
  qed
qed

section \<open>copyout\<close>

text \<open>\<open>copied_out m pt va src n m'\<close>: \<open>m'\<close> is \<open>m\<close> with the \<open>n\<close> kernel bytes from \<open>src\<close> on copied to user
  address \<open>va\<close>.  \<open>user_target\<close> collects what makes the user range a proper target: its bytes are
  distinct, none of them is in the page table and none is a byte of the source.\<close>

definition copied_out :: "pmem \<Rightarrow> addr \<Rightarrow> uint64 \<Rightarrow> addr \<Rightarrow> nat \<Rightarrow> pmem \<Rightarrow> bool" where
  "copied_out m pt va src n m' \<longleftrightarrow>
     (\<forall>i<n. m' (user_pa m pt (va + of_nat i)) = m (src + of_nat i)) \<and>
     (\<forall>a. (\<forall>i<n. a \<noteq> user_pa m pt (va + of_nat i)) \<longrightarrow> m' a = m a)"

definition user_target :: "pmem \<Rightarrow> addr \<Rightarrow> uint64 \<Rightarrow> addr \<Rightarrow> nat \<Rightarrow> bool" where
  "user_target m pt va src n \<longleftrightarrow>
     (\<forall>i<n. \<forall>j<n. user_pa m pt (va + of_nat i) = user_pa m pt (va + of_nat j) \<longrightarrow> i = j) \<and>
     (\<forall>i<n. \<forall>p\<in>tables m pt. \<not> in_page p (user_pa m pt (va + of_nat i))) \<and>
     (\<forall>i<n. \<forall>j<n. user_pa m pt (va + of_nat i) \<noteq> src + of_nat j)"

lemma less_shift: "i < (j::nat) \<Longrightarrow> k + j \<le> n \<Longrightarrow> k + i < n"
  by simp

lemma user_target_suffix:
  assumes "user_target m pt va src n" and "k + j \<le> n"
    and "user_pa m' pt = user_pa m pt" and "tables m' pt = tables m pt"
  shows "user_target m' pt (va + of_nat k) (src + of_nat k) j"
proof -
  note t = assms(1) [unfolded user_target_def]
  have inj: "a = b" if "a < j" "b < j"
      "user_pa m pt (va + of_nat (k + a)) = user_pa m pt (va + of_nat (k + b))" for a b
  proof -
    have "k + a = k + b" using t that less_shift [OF _ assms(2)] by blast
    then show ?thesis by simp
  qed
  have "\<not> in_page p (user_pa m pt (va + of_nat (k + a)))" if "a < j" "p \<in> tables m pt" for a p
    using t that less_shift [OF _ assms(2), of a] by blast
  moreover have "user_pa m pt (va + of_nat (k + a)) \<noteq> src + of_nat (k + b)" if "a < j" "b < j" for a b
    using t that less_shift [OF _ assms(2), of a] less_shift [OF _ assms(2), of b] by blast
  ultimately show ?thesis
    unfolding user_target_def assms(3,4) add.assoc of_nat_add [symmetric] using inj by blast
qed

lemma user_target_prefix:
  "user_target m pt va src n \<Longrightarrow> k \<le> n \<Longrightarrow> user_target m pt va src k"
  using user_target_suffix [of m pt va src n 0 k m] by simp

lemma copied_out_frame:
  assumes wf: "pt_wf s ps pt" and tgt: "user_target (mem s) pt va src n" and "copied_out (mem s) pt va src n m"
  shows "pt_wf (s\<lparr>mem := m\<rparr>) ps pt" and "vmap m pt = vmap (mem s) pt" and "tables m pt = tables (mem s) pt"
proof -
  have pt: "page_aligned pt" using wf by (simp add: pt_wf_def)
  have f: "m a = mem s a" if "p \<in> tables (mem s) pt" "in_page p a" for p a
  proof -
    have "\<forall>i<n. a \<noteq> user_pa (mem s) pt (va + of_nat i)"
      using tgt that unfolding user_target_def by auto
    with assms(3) show ?thesis unfolding copied_out_def by simp
  qed
  show "tables m pt = tables (mem s) pt" by (rule tables_frame [OF pt f])
  with tables_frame(2) [OF pt f] wf show "pt_wf (s\<lparr>mem := m\<rparr>) ps pt" by (simp add: pt_wf_def)
  show "vmap m pt = vmap (mem s) pt" by (rule ext, rule vmap_frame [OF pt f])
qed

lemma copied_out_split:
  assumes a: "copied_out m pt va src k m1" and b: "copied_out m1 pt (va + of_nat k) (src + of_nat k) j m2"
    and tgt: "user_target m pt va src (k + j)" and same: "user_pa m1 pt = user_pa m pt"
  shows "copied_out m pt va src (k + j) m2"
proof -
  have b2: "m2 (user_pa m pt (va + of_nat (k + i))) = m1 (src + of_nat (k + i))" if "i < j" for i
    using b that same unfolding copied_out_def by (simp add: add.assoc)
  have b3: "m2 x = m1 x" if "\<And>i. i < j \<Longrightarrow> x \<noteq> user_pa m pt (va + of_nat (k + i))" for x
    using b that same unfolding copied_out_def by (simp add: add.assoc)
  have "m2 (user_pa m pt (va + of_nat i)) = m (src + of_nat i)" if i: "i < k + j" for i
  proof (cases "i < k")
    case True
    then have "m2 (user_pa m pt (va + of_nat i)) = m1 (user_pa m pt (va + of_nat i))"
      using tgt i unfolding user_target_def by (intro b3) (metis add_less_cancel_left not_add_less1)
    with True a show ?thesis unfolding copied_out_def by metis
  next
    case False
    have "m1 (src + of_nat i) = m (src + of_nat i)"
      using a tgt i unfolding copied_out_def user_target_def by (metis trans_less_add1)
    with False b2 [of "i - k"] i show ?thesis by simp
  qed
  moreover have "m2 x = m x" if x: "\<forall>i<k + j. x \<noteq> user_pa m pt (va + of_nat i)" for x
  proof -
    have "m2 x = m1 x" by (rule b3) (use x nat_add_left_cancel_less in blast)
    also have "\<dots> = m x" using a x unfolding copied_out_def by simp
    finally show ?thesis .
  qed
  ultimately show ?thesis unfolding copied_out_def by blast
qed

lemma blit_copied_out:
  assumes "user_range m pt va n" and "unat va mod 4096 + n \<le> 4096" and "0 < n"
  shows "copied_out m pt va src n (blit m (user_pa m pt va) src n)"
proof -
  have u: "user_pa m pt (va + of_nat i) = user_pa m pt va + of_nat i" if "i < n" for i
    using assms that user_pa_next [of m pt va i] by (auto simp: user_range_def dest: spec [of _ 0])
  have n: "n \<le> 2 ^ 64" using assms(2) by simp
  show ?thesis
    unfolding copied_out_def using u blit_nth [OF _ n] by (auto simp: blit_def in_range_iff [OF n])
qed

text \<open>One turn of the loop of \<open>copyout\<close>.\<close>

lemma copyout_turn:
  assumes "0 < len" and wf: "pt_wf s ps pt" and ok: "user_range (mem s) pt va (unat len)"
    and "unat src + unat len < 2 ^ 64" and "lossless va src (unat len)" and n: "n = chunk va len"
  obtains m where "copied_out (mem s) pt va src (unat n) m"
    and "copyout pt va src len s = copyout pt (PGROUNDDOWN va + PGSIZE) (src + n) (len - n) (s\<lparr>mem := m\<rparr>)"
proof -
  have pos: "0 < unat len" using assms(1) by (simp add: word_less_nat_alt)
  have un: "unat n = min (4096 - unat va mod 4096) (unat len)" by (simp add: n unat_chunk)
  have here: "user_ok (mem s) pt va" using ok pos by (auto simp: user_range_def dest: spec [of _ 0])
  let ?p = "user_pa (mem s) pt va"
  have p: "unat ?p + unat n < 2 ^ 64" using unat_user_pa [OF here] un by simp
  have d: "unat src + unat n < 2 ^ 64" using assms(4) un by simp
  have "mymemmove (mem s) ?p src (ucast n) = blit (mem s) ?p src (kept ?p src (unat n))"
    using mymemmove_eq [of src "ucast n" ?p "mem s"] p d ucast_chunk [of va len] n by simp
  also have "\<dots> = blit (mem s) ?p src (unat n)"
    using kept_chunk(2) [OF assms(5) user_pa_mod8 [OF here]] n by simp
  finally have m: "mymemmove (mem s) ?p src (ucast n) = blit (mem s) ?p src (unat n)" .
  have "copied_out (mem s) pt va src (unat n) (blit (mem s) ?p src (unat n))"
    using ok un pos by (intro blit_copied_out) (auto simp: user_range_def)
  moreover have "PTE2PA (vmap (mem s) pt va) \<noteq> 0" using here by (simp add: user_ok_def)
  then have "copyout pt va src len s = copyout pt (PGROUNDDOWN va + PGSIZE) (src + n) (len - n)
      (s\<lparr>mem := blit (mem s) ?p src (unat n)\<rparr>)"
    using assms(1) m n walkaddr_user_ok [OF wf here]
    by (subst copyout.simps) (simp add: monad_simps Let_def user_pa_def)
  ultimately show thesis by (rule that)
qed

lemma copyout_run:
  assumes "pt_wf s ps pt" and "user_range (mem s) pt va (unat len)"
    and "unat va + unat len < 2 ^ 64" and "unat src + unat len < 2 ^ 64" and "lossless va src (unat len)"
    and "user_target (mem s) pt va src (unat len)"
  shows "\<exists>m. copyout pt va src len s = Ret 0 (s\<lparr>mem := m\<rparr>) \<and> copied_out (mem s) pt va src (unat len) m"
  using assms
proof (induction "unat len" arbitrary: src va len s rule: less_induct)
  case less
  show ?case
  proof (cases "len = 0")
    case True
    then show ?thesis by (auto simp: copyout.simps copied_out_def intro!: exI [of _ "mem s"])
  next
    case False
    then have pos: "0 < len" by (simp add: word_neq_0_conv)
    define n k j where "n = chunk va len" and "k = unat n" and "j = unat (len - n)"
    have le: "n \<le> len" by (simp add: word_le_nat_alt unat_chunk n_def)
    then have len: "unat len = k + j" by (simp add: unat_sub word_le_nat_alt k_def j_def)
    obtain m where m: "copied_out (mem s) pt va src k m"
        and turn: "copyout pt va src len s = copyout pt (PGROUNDDOWN va + PGSIZE) (src + n) (len - n) (s\<lparr>mem := m\<rparr>)"
      using copyout_turn [OF pos less.prems(1,2,4,5) n_def] by (metis k_def)
    show ?thesis
    proof (cases "n = len")
      case True
      with turn m show ?thesis by (auto simp: copyout.simps k_def)
    next
      case False
      have k: "0 < k" using pos by (simp add: k_def n_def unat_chunk word_less_nat_alt)
      have n: "n = of_nat k" by (simp add: k_def)
      have "user_target (mem s) pt va src k" using user_target_prefix [OF less.prems(6)] len by simp
      note f = copied_out_frame [OF less.prems(1) this m]
      note u = user_cong [OF f(2)]
      let ?t = "s\<lparr>mem := m\<rparr>"
      have "\<exists>m'. copyout pt (va + n) (src + n) (len - n) ?t = Ret 0 (?t\<lparr>mem := m'\<rparr>) \<and>
          copied_out (mem ?t) pt (va + n) (src + n) (unat (len - n)) m'"
      proof (rule less.hyps)
        show "unat (len - n) < unat len" using len k j_def by simp
        show "pt_wf ?t ps pt" by (rule f(1))
        show "user_range (mem ?t) pt (va + n) (unat (len - n))"
          using user_range_suffix [OF less.prems(2), of k j m] len u n j_def by simp
        show "lossless (va + n) (src + n) (unat (len - n))"
          using lossless_next [OF less.prems(5) le less.prems(3,4)] .
        show "unat (va + n) + unat (len - n) < 2 ^ 64" "unat (src + n) + unat (len - n) < 2 ^ 64"
          using less.prems(3,4) len k_def j_def by (simp_all add: unat_word_ariths)
        show "user_target (mem ?t) pt (va + n) (src + n) (unat (len - n))"
          using user_target_suffix [OF less.prems(6), of k j m] len f(3) u n j_def by simp
      qed
      then obtain m' where m': "copyout pt (va + n) (src + n) (len - n) ?t = Ret 0 (s\<lparr>mem := m'\<rparr>)"
          "copied_out m pt (va + of_nat k) (src + of_nat k) j m'"
        using n j_def by auto
      have "copied_out (mem s) pt va src (k + j) m'"
        using copied_out_split [OF m m'(2) _ u(1)] less.prems(6) len by simp
      with m'(1) turn chunk_next [of va len] False len show ?thesis
        unfolding n_def [symmetric] by auto
    qed
  qed
qed

text \<open>User memory on a small machine: the eight bytes from \<open>0x5000\<close> on.\<close>

lemma one_page_user:
  "\<exists>(s::mstate) ps. pt_wf s ps 0x87FFC000 \<and> tables (mem s) 0x87FFC000 \<subseteq> {0x87FFC000, 0x87FFE000, 0x87FFF000} \<and>
    user_range (mem s) 0x87FFC000 0x5000 8 \<and>
    (\<forall>i<8. user_pa (mem s) 0x87FFC000 (0x5000 + of_nat i) = 0x87FFD000 + of_nat i)"
proof -
  let ?pt = "0x87FFC000" and ?v = "PA2PTE 0x87FFD000 OR (PTE_W OR PTE_R OR PTE_U) OR PTE_V"
  obtain s :: mstate and ps where s: "pt_wf s ps ?pt" "tables (mem s) ?pt \<subseteq> {?pt, 0x87FFE000, 0x87FFF000}"
      "\<forall>vb<MAXVA. vmap (mem s) ?pt vb = (if in_pages 0x5000 1 vb then ?v else 0)"
    using one_page by blast
  have v: "PTE2PA ?v = 0x87FFD000" "?v AND PTE_V \<noteq> 0" "?v AND PTE_U \<noteq> 0"
    by (simp_all add: PA2PTE_def PTE2PA_def PTE_V_def PTE_W_def PTE_R_def PTE_U_def)
  have u: "unat (0x5000 + of_nat i :: uint64) = 0x5000 + i" if "i < 8" for i
    using that by (simp add: unat_word_ariths unat_of_nat)
  have pg: "(0x5000 + i) div 4096 = 5" "(0x5000 + i) mod 4096 = i" if "i < 8" for i :: nat
    using page_offset_add [of "0x5000" i] that by simp_all
  have ok: "user_ok (mem s) ?pt (0x5000 + of_nat i) \<and> vmap (mem s) ?pt (0x5000 + of_nat i) = ?v" if "i < 8" for i
  proof -
    have "(0x5000 + of_nat i :: uint64) < MAXVA" "in_pages 0x5000 1 (0x5000 + of_nat i)"
      using that by (simp_all add: unat_MAXVA_less in_pages_def u pg)
    then show ?thesis using s(3) v by (simp add: user_ok_def PHYSTOP_def KERNBASE_def)
  qed
  moreover have "user_pa (mem s) ?pt (0x5000 + of_nat i) = 0x87FFD000 + of_nat i" if "i < 8" for i
  proof -
    have "unat (user_pa (mem s) ?pt (0x5000 + of_nat i)) = 0x87FFD000 + i"
      using ok [OF that] unat_user_pa(1) [of "mem s" ?pt "0x5000 + of_nat i"] v(1) u [OF that] pg [OF that] by simp
    moreover have "unat (0x87FFD000 + of_nat i :: addr) = 0x87FFD000 + i"
      using that by (simp add: unat_word_ariths unat_of_nat)
    ultimately show ?thesis by (simp add: word_unat_eq_iff)
  qed
  ultimately show ?thesis using s(1,2) by (auto simp: user_range_def)
qed

section \<open>Properties\<close>

text \<open>C20: what \<open>mymemmove\<close> does: it copies \<open>kept dst src n\<close> bytes, as if all at once, and changes
  nothing else.  This is what \<open>memmove\<close> does whenever the addresses are not both multiples of 8, the
  length is below 8 or a multiple of 8, or the destination starts inside the source.\<close>

theorem mymemmove_correct:
  assumes "unat src + unat n < 2 ^ 64" and "unat dst + unat n < 2 ^ 64"
  shows "mymemmove m dst src n = blit m dst src (kept dst src (unat n)) \<and>
    (unat n < 8 \<or> 8 dvd unat n \<or> unat src mod 8 \<noteq> 0 \<or> unat dst mod 8 \<noteq> 0 \<or>
      (src < dst \<and> unat dst < unat src + unat n) \<longrightarrow> mymemmove m dst src n = memmove m dst src n)"
proof -
  have "kept dst src (unat n) = unat n"
    if "unat n < 8 \<or> 8 dvd unat n \<or> unat src mod 8 \<noteq> 0 \<or> unat dst mod 8 \<noteq> 0 \<or>
      (src < dst \<and> unat dst < unat src + unat n)"
    using that unfolding kept_def dvd_eq_mod_eq_0 by (elim disjE) (auto simp: dvd_eq_mod_eq_0)
  then show ?thesis using mymemmove_eq [OF assms] memmove_blit [OF assms] by simp
qed

theorem mymemmove_correct_witness:
  "mymemmove (\<lambda>a. ucast a) 0x2000 0x1005 20 = memmove (\<lambda>a. ucast a) 0x2000 0x1005 20"
  using mymemmove_correct [of "0x1005" 20 "0x2000" "\<lambda>a. ucast a", THEN conjunct2] by simp







end
