(* ===== verification/MemFrame.thy ===== *)
theory MemFrame
  imports CopyUser
begin

text \<open>
  The functions of \<open>kalloc.c\<close> and \<open>vm.c\<close> change memory and the free list and nothing else of the
  kernel's state: no lock is left behind, no table of another component is touched, and they never sleep.  This is
  what lets the components above run them without losing track of their own state.
\<close>

unbundle bit_operations_syntax

definition mem_fun :: "('z mstate_scheme, 'a) kfun \<Rightarrow> bool" where
  "mem_fun f \<longleftrightarrow> (\<forall>s. (\<forall>r t. f s = Ret r t \<longrightarrow> mem_only s t) \<and> (\<forall>c t. f s \<noteq> Sleep c t))"

named_theorems mem_intros \<open>functions that change memory only\<close>

lemma mem_funD: "mem_fun f \<Longrightarrow> f s = Ret r t \<Longrightarrow> mem_only s t"
  by (simp add: mem_fun_def)

lemma mem_fun_awake: "mem_fun f \<Longrightarrow> f s \<noteq> Sleep c t"
  by (simp add: mem_fun_def)

lemma mem_fun_ret [mem_intros]: "mem_fun (ret a)"
  by (simp add: mem_fun_def monad_simps)

lemma mem_fun_gets [mem_intros]: "mem_fun (gets g)"
  by (simp add: mem_fun_def monad_simps)

lemma mem_fun_panic [mem_intros]: "mem_fun (panic e)"
  by (simp add: mem_fun_def monad_simps)

lemma mem_fun_undef [mem_intros]: "mem_fun (undef e)"
  by (simp add: mem_fun_def monad_simps)

lemma mem_fun_bnd [mem_intros]: "mem_fun f \<Longrightarrow> (\<And>a. mem_fun (g a)) \<Longrightarrow> mem_fun (bnd f g)"
  unfolding mem_fun_def bnd_Ret_iff bnd_Sleep_iff by (metis mem_only_trans)

lemma mem_fun_thn [mem_intros]: "mem_fun f \<Longrightarrow> mem_fun g \<Longrightarrow> mem_fun (thn f g)"
  unfolding thn_def by (intro mem_fun_bnd)

lemma mem_fun_if [mem_intros]: "(b \<Longrightarrow> mem_fun f) \<Longrightarrow> (\<not> b \<Longrightarrow> mem_fun g) \<Longrightarrow> mem_fun (if b then f else g)"
  by simp

lemma mem_fun_let [mem_intros]: "(\<And>x. mem_fun (f x)) \<Longrightarrow> mem_fun (Let a f)"
  by simp

lemma mem_fun_mem [mem_intros]: "mem_fun (modify (\<lambda>s. s\<lparr>mem := f s\<rparr>))"
  by (simp add: mem_fun_def monad_simps)

lemma mem_fun_for_each [mem_intros]: "(\<And>x. mem_fun (f x)) \<Longrightarrow> mem_fun (for_each xs f)"
  by (induction xs) (auto intro: mem_intros)

lemma mem_fun_kalloc [mem_intros]: "mem_fun kalloc"
  unfolding mem_fun_def
proof (intro allI conjI impI)
  fix s t :: "'z mstate_scheme" and c
  show "kalloc s \<noteq> Sleep c t" by (simp add: kalloc_def sleeps_iff)
next
  fix s :: "'z mstate_scheme" and r t
  assume "kalloc s = Ret r t"
  then have "KmemLock \<notin> set (held s)" by (auto simp: kalloc_def returns_iff acquire_Ret_iff)
  then have "kalloc s = (if freelist s = 0 then Ret 0 s
      else Ret (freelist s) (s\<lparr>mem := memset (mem s) (freelist s) 5 4096, freelist := load64 (mem s) (freelist s)\<rparr>))"
    by (simp add: kalloc_def monad_simps)
  with \<open>kalloc s = Ret r t\<close> show "mem_only s t" by (auto split: if_splits)
qed

lemma mem_fun_kfree [mem_intros]: "mem_fun (kfree p)"
  unfolding mem_fun_def
proof (intro allI conjI impI)
  fix s t :: "'z mstate_scheme" and c
  show "kfree p s \<noteq> Sleep c t" by (simp add: kfree_def sleeps_iff)
next
  fix s :: "'z mstate_scheme" and r t
  assume run: "kfree p s = Ret r t"
  then have ok: "frame_ok (kend s) p" using kfree_bad [of s p] by fastforce
  moreover have "KmemLock \<notin> set (held s)" using run by (auto simp: kfree_def returns_iff acquire_Ret_iff split: if_splits)
  ultimately show "mem_only s t" using run kfree_run [of s p] by auto
qed

lemma mem_fun_load_pte [mem_intros]: "mem_fun (load_pte a)"
  unfolding load_pte_def by (rule mem_intros)

lemma mem_fun_store_pte [mem_intros]: "mem_fun (store_pte a v)"
  unfolding store_pte_def by (rule mem_intros)

lemma mem_fun_zero_page [mem_intros]: "mem_fun (zero_page a)"
  unfolding zero_page_def by (rule mem_intros)

lemma mem_fun_walk_loop [mem_intros]: "mem_fun (walk_loop l pt va alloc)"
  by (induction l arbitrary: pt) (auto intro!: mem_intros)

lemma mem_fun_walk [mem_intros]: "mem_fun (walk pt va alloc)"
  unfolding walk_def by (auto intro!: mem_intros)

lemma mem_fun_walkaddr [mem_intros]: "mem_fun (walkaddr pt va)"
  unfolding walkaddr_def by (auto intro!: mem_intros)

text \<open>For the loops, the same at one state, with the results of the earlier calls at hand.\<close>

definition mem_at :: "('z mstate_scheme, 'a) kfun \<Rightarrow> 'z mstate_scheme \<Rightarrow> bool" where
  "mem_at f s \<longleftrightarrow> (\<forall>r t. f s = Ret r t \<longrightarrow> mem_only s t) \<and> (\<forall>c t. f s \<noteq> Sleep c t)"

lemma mem_funI: "(\<And>s. mem_at f s) \<Longrightarrow> mem_fun f"
  by (simp add: mem_fun_def mem_at_def)

lemma mem_at_fun: "mem_fun f \<Longrightarrow> mem_at f s"
  by (simp add: mem_fun_def mem_at_def)

lemma mem_at_bnd: "mem_fun f \<Longrightarrow> (\<And>a t. f s = Ret a t \<Longrightarrow> mem_at (g a) t) \<Longrightarrow> mem_at (bnd f g) s"
  unfolding mem_at_def mem_fun_def bnd_Ret_iff bnd_Sleep_iff by (metis mem_only_trans)

lemma mem_at_thn: "mem_fun f \<Longrightarrow> (\<And>a t. f s = Ret a t \<Longrightarrow> mem_at g t) \<Longrightarrow> mem_at (thn f g) s"
  unfolding thn_def by (rule mem_at_bnd)

lemma mem_at_if: "(b \<Longrightarrow> mem_at f s) \<Longrightarrow> (\<not> b \<Longrightarrow> mem_at g s) \<Longrightarrow> mem_at (if b then f else g) s"
  by simp

lemma mem_at_unfold: "mem_at g s \<Longrightarrow> f s = g s \<Longrightarrow> mem_at f s"
  by (simp add: mem_at_def)

lemma mem_at_while:
  assumes "\<And>u. f u = (if b then g u else Ret r u)" and "b \<Longrightarrow> mem_at g s"
  shows "mem_at f s"
  using assms by (cases b) (simp_all add: mem_at_def)

lemmas mem_at_leaf = mem_at_fun [OF mem_fun_ret] mem_at_fun [OF mem_fun_panic]

lemma mem_at_mappages_loop: "mem_at (mappages_loop pt a lst pa perm) s"
proof (induction pt a lst pa perm s rule: mappages_loop.induct)
  case (1 pt a lst pa perm s)
  show ?case
    by (rule mem_at_unfold [OF _ mappages_loop.simps], intro mem_at_bnd mem_at_thn mem_at_if)
      (assumption | rule mem_intros mem_at_leaf "1.IH")+
qed

lemma mem_fun_mappages [mem_intros]: "mem_fun (mappages pt va sz pa perm)"
  unfolding mappages_def by (intro mem_funI mem_at_mappages_loop)

lemma mem_fun_kvmmap [mem_intros]: "mem_fun (kvmmap pt va pa sz perm)"
  unfolding kvmmap_def by (auto intro!: mem_intros)

lemma mem_at_uvmunmap_loop: "mem_at (uvmunmap_loop pt a stop do_free) s"
proof (induction pt a stop do_free s rule: uvmunmap_loop.induct)
  case (1 pt a stop do_free s)
  show ?case
    by (rule mem_at_while [where f = "uvmunmap_loop pt a stop do_free", OF uvmunmap_loop.simps], intro mem_at_bnd mem_at_thn mem_at_if)
      (assumption | rule mem_intros mem_at_leaf "1.IH")+
qed

lemma mem_fun_uvmunmap [mem_intros]: "mem_fun (uvmunmap pt va n do_free)"
  unfolding uvmunmap_def by (rule mem_fun_if [OF mem_fun_panic mem_funI [OF mem_at_uvmunmap_loop]])

lemma mem_fun_uvmcreate [mem_intros]: "mem_fun uvmcreate"
  unfolding uvmcreate_def by (auto intro!: mem_intros)

lemma mem_fun_uvminit [mem_intros]: "mem_fun (uvminit pt src sz)"
  unfolding uvminit_def by (auto intro!: mem_intros)

lemma mem_fun_uvmdealloc [mem_intros]: "mem_fun (uvmdealloc pt old new)"
  unfolding uvmdealloc_def by (auto intro!: mem_intros)

lemma mem_at_uvmalloc_loop: "mem_at (uvmalloc_loop pt a old new) s"
proof (induction pt a old new s rule: uvmalloc_loop.induct)
  case (1 pt a old new s)
  show ?case
    by (rule mem_at_while [where f = "uvmalloc_loop pt a old new", OF uvmalloc_loop.simps], intro mem_at_bnd mem_at_thn mem_at_if)
      (assumption | rule mem_intros mem_at_leaf "1.IH")+
qed

lemma mem_fun_uvmalloc [mem_intros]: "mem_fun (uvmalloc pt old new)"
  unfolding uvmalloc_def by (rule mem_fun_if [OF mem_fun_ret mem_funI [OF mem_at_uvmalloc_loop]])

lemma mem_fun_freewalk [mem_intros]: "mem_fun (freewalk d pt)"
  by (induction d arbitrary: pt) (auto intro!: mem_intros)

lemma mem_fun_uvmfree [mem_intros]: "mem_fun (uvmfree pt sz)"
  unfolding uvmfree_def by (auto intro!: mem_intros)

lemma mem_at_uvmcopy_loop: "mem_at (uvmcopy_loop old new i sz) s"
proof (induction old new i sz s rule: uvmcopy_loop.induct)
  case (1 old new i sz s)
  show ?case
    by (rule mem_at_while [where f = "uvmcopy_loop old new i sz", OF uvmcopy_loop.simps], intro mem_at_bnd mem_at_thn mem_at_if)
      (assumption | rule mem_intros mem_at_leaf "1.IH")+
qed

lemma mem_fun_uvmcopy [mem_intros]: "mem_fun (uvmcopy old new sz)"
  unfolding uvmcopy_def by (intro mem_funI mem_at_uvmcopy_loop)

lemma mem_at_let: "mem_at (f a) s \<Longrightarrow> mem_at (Let a f) s"
  by simp

lemma mem_at_copyout: "mem_at (copyout pt dst src len) s"
proof (induction pt dst src len s rule: copyout.induct)
  case (1 pt dst src len s)
  show ?case
    by (rule mem_at_while [where f = "copyout pt dst src len", OF copyout.simps], intro mem_at_bnd mem_at_if)
      (assumption | rule mem_intros mem_at_leaf mem_at_let mem_at_thn "1.IH" refl)+
qed

lemma mem_fun_copyout [mem_intros]: "mem_fun (copyout pt dst src len)"
  by (intro mem_funI mem_at_copyout)

lemma mem_at_copyin: "mem_at (copyin pt dst src len) s"
proof (induction pt dst src len s rule: copyin.induct)
  case (1 pt dst src len s)
  show ?case
    by (rule mem_at_while [where f = "copyin pt dst src len", OF copyin.simps], intro mem_at_bnd mem_at_if)
      (assumption | rule mem_intros mem_at_leaf mem_at_let mem_at_thn "1.IH" refl)+
qed

lemma mem_fun_copyin [mem_intros]: "mem_fun (copyin pt dst src len)"
  by (intro mem_funI mem_at_copyin)

lemma mem_at_case_prod: "(\<And>a b. x = (a, b) \<Longrightarrow> mem_at (f a b) s) \<Longrightarrow> mem_at (case x of (a, b) \<Rightarrow> f a b) s"
  by (cases x) simp

lemma mem_at_copyinstr: "mem_at (copyinstr pt dst src n) s"
proof (induction pt dst src n s rule: copyinstr.induct)
  case (1 pt dst src n s)
  show ?case
    by (rule mem_at_while [where f = "copyinstr pt dst src n", OF copyinstr.simps], intro mem_at_bnd mem_at_if)
      (assumption | rule mem_intros mem_at_leaf mem_at_let mem_at_case_prod mem_at_thn mem_at_bnd mem_at_if "1.IH" refl)+
qed

lemma mem_fun_copyinstr [mem_intros]: "mem_fun (copyinstr pt dst src n)"
  by (intro mem_funI mem_at_copyinstr)

end
