(* ===== verification/Proc.thy ===== *)
theory Proc
  imports MemFrame
begin

text \<open>
  The process table of \<open>kernel/proc.c\<close> and \<open>kernel/proc.h\<close>, as far as it does not depend on files:
  allocating and freeing process slots and their page tables, growing a process, sleeping and
  waking, killing, waiting, and the hand-over between a process and its CPU's scheduler.
  A pointer to \<open>struct proc\<close> is the index of its slot; \<open>cur\<close> is what \<open>myproc()\<close> returns on the
  running hart.  \<open>fork\<close>, \<open>exit\<close> and \<open>userinit\<close>, which touch files, are in \<open>ProcFile\<close>.

  The kernel copies a few of its own variables to user space by address.  Such a variable is a
  field of the model's state; its bytes are written to its address in kernel memory right before
  the copy (\<open>spill32\<close>, \<open>spill64\<close>).  Addresses of kernel objects that the linker chooses are fields
  that nothing changes.
\<close>

unbundle bit_operations_syntax

section \<open>State\<close>

datatype procstate = UNUSED | USED | SLEEPING | RUNNABLE | RUNNING | ZOMBIE

record kcontext =
  c_ra :: uint64
  c_sp :: uint64
  c_s0_11 :: "uint64 list"

definition zero_context :: kcontext where
  "zero_context = \<lparr>c_ra = 0, c_sp = 0, c_s0_11 = replicate 12 0\<rparr>"

record proc =
  p_state :: procstate
  p_chan :: "chan option"
  p_killed :: int
  p_xstate :: int
  p_pid :: int
  p_parent :: "nat option"
  p_kstack :: uint64
  p_sz :: uint64
  p_pagetable :: addr
  p_trapframe :: addr
  p_context :: kcontext
  p_ofile :: "nat option list"
  p_cwd :: "nat option"
  p_name :: "uchar list"
  p_validRingBuf :: int

record pstate = vstate +
  procs :: "proc list"
  cur :: "nat option"
  initproc :: "nat option"
  nextpid :: int
  forkret_at :: addr
  proc_at :: addr

definition get_proc :: "nat \<Rightarrow> ('z pstate_scheme, proc) kfun" where
  "get_proc i = gets (\<lambda>s. procs s ! i)"

definition set_proc :: "nat \<Rightarrow> (proc \<Rightarrow> proc) \<Rightarrow> ('z pstate_scheme, unit) kfun" where
  "set_proc i f = modify (\<lambda>s. s\<lparr>procs := (procs s)[i := f (procs s ! i)]\<rparr>)"

definition spill32 :: "addr \<Rightarrow> uint32 \<Rightarrow> ('z mstate_scheme, unit) kfun" where
  "spill32 a v = modify (\<lambda>s. s\<lparr>mem := store_le 4 (mem s) a v\<rparr>)"

definition spill64 :: "addr \<Rightarrow> uint64 \<Rightarrow> ('z mstate_scheme, unit) kfun" where
  "spill64 a v = modify (\<lambda>s. s\<lparr>mem := store64 (mem s) a v\<rparr>)"

section \<open>The process table\<close>

definition procinit :: "('z pstate_scheme, unit) kfun" where
  "procinit = thn (initlock PidLock) (thn (initlock WaitLock)
     (for_each [0..<NPROC] (\<lambda>i.
        thn (initlock (ProcLock i)) (set_proc i (\<lambda>p. p\<lparr>p_kstack := KSTACK (of_nat i)\<rparr>)))))"

text \<open>\<open>myproc()\<close>; every caller here dereferences the result, so that no process is undefined behaviour.\<close>

definition myproc :: "('z pstate_scheme, nat) kfun" where
  "myproc = bnd (gets cur) (\<lambda>c. case c of None \<Rightarrow> undef ''myproc: no process'' | Some i \<Rightarrow> ret i)"

definition allocpid :: "('z pstate_scheme, int) kfun" where
  "allocpid = thn (acquire PidLock) (bnd (gets nextpid) (\<lambda>n.
     if n + 1 > 2147483647 then undef ''nextpid: overflow''
     else thn (modify (\<lambda>s. s\<lparr>nextpid := n + 1\<rparr>)) (thn (release PidLock) (ret n))))"

text \<open>A page table with the trampoline and the trapframe of process \<open>i\<close>, and freeing it.\<close>

definition proc_pagetable :: "nat \<Rightarrow> ('z pstate_scheme, addr) kfun" where
  "proc_pagetable i = bnd uvmcreate (\<lambda>pagetable.
     if pagetable = 0 then ret 0
     else bnd (gets trampoline) (\<lambda>tramp.
       bnd (mappages pagetable TRAMPOLINE PGSIZE tramp (PTE_R OR PTE_X)) (\<lambda>r.
         if r < 0 then thn (uvmfree pagetable 0) (ret 0)
         else bnd (get_proc i) (\<lambda>p.
           bnd (mappages pagetable TRAPFRAME PGSIZE (p_trapframe p) (PTE_R OR PTE_W)) (\<lambda>r.
             if r < 0
             then thn (uvmunmap pagetable TRAMPOLINE 1 False) (thn (uvmfree pagetable 0) (ret 0))
             else ret pagetable)))))"

definition proc_freepagetable :: "addr \<Rightarrow> uint64 \<Rightarrow> ('z mstate_scheme, unit) kfun" where
  "proc_freepagetable pagetable sz =
     thn (uvmunmap pagetable TRAMPOLINE 1 False)
    (thn (uvmunmap pagetable TRAPFRAME 1 False)
         (uvmfree pagetable sz))"

definition freeproc :: "nat \<Rightarrow> ('z pstate_scheme, unit) kfun" where
  "freeproc i = bnd (get_proc i) (\<lambda>p.
     thn (if p_trapframe p \<noteq> 0 then kfree (p_trapframe p) else ret ())
    (thn (set_proc i (\<lambda>p. p\<lparr>p_trapframe := 0\<rparr>))
    (thn (if p_pagetable p \<noteq> 0 then proc_freepagetable (p_pagetable p) (p_sz p) else ret ())
         (set_proc i (\<lambda>p. p\<lparr>p_pagetable := 0, p_sz := 0, p_pid := 0, p_parent := None,
            p_name := (p_name p)[0 := 0], p_chan := None, p_killed := 0, p_xstate := 0,
            p_state := UNUSED\<rparr>)))))"

primrec allocproc_scan :: "nat list \<Rightarrow> ('z pstate_scheme, nat option) kfun" where
  "allocproc_scan [] = ret None"
| "allocproc_scan (i # is) = thn (acquire (ProcLock i)) (bnd (get_proc i) (\<lambda>p.
     if p_state p = UNUSED then ret (Some i)
     else thn (release (ProcLock i)) (allocproc_scan is)))"

definition allocproc :: "('z pstate_scheme, nat option) kfun" where
  "allocproc = bnd (allocproc_scan [0..<NPROC]) (\<lambda>r. case r of
     None \<Rightarrow> ret None
   | Some i \<Rightarrow> bnd allocpid (\<lambda>n.
       thn (set_proc i (\<lambda>p. p\<lparr>p_pid := n\<rparr>))
      (thn (set_proc i (\<lambda>p. p\<lparr>p_state := USED\<rparr>))
      (bnd kalloc (\<lambda>tf. thn (set_proc i (\<lambda>p. p\<lparr>p_trapframe := tf\<rparr>))
        (if tf = 0 then thn (freeproc i) (thn (release (ProcLock i)) (ret None))
         else bnd (proc_pagetable i) (\<lambda>pt. thn (set_proc i (\<lambda>p. p\<lparr>p_pagetable := pt\<rparr>))
           (if pt = 0 then thn (freeproc i) (thn (release (ProcLock i)) (ret None))
            else thn (set_proc i (\<lambda>p. p\<lparr>p_context := zero_context\<rparr>))
              (bnd (gets forkret_at) (\<lambda>f.
                 thn (set_proc i (\<lambda>p. p\<lparr>p_context := (p_context p)
                        \<lparr>c_ra := f, c_sp := p_kstack p + PGSIZE\<rparr>\<rparr>))
                     (ret (Some i))))))))))))"

text \<open>\<open>growproc\<close> keeps the size in an unsigned 32-bit variable.\<close>

definition growproc :: "int \<Rightarrow> ('z pstate_scheme, int) kfun" where
  "growproc n = bnd myproc (\<lambda>i. bnd (get_proc i) (\<lambda>p.
     let sz = (ucast (p_sz p) :: uint32) in
     if n > 0
     then bnd (uvmalloc (p_pagetable p) (ucast sz) (ucast (sz + of_int n))) (\<lambda>r.
            let sz = (ucast r :: uint32) in
            if sz = 0 then ret (- 1)
            else thn (set_proc i (\<lambda>p. p\<lparr>p_sz := ucast sz\<rparr>)) (ret 0))
     else if n < 0
     then bnd (uvmdealloc (p_pagetable p) (ucast sz) (ucast (sz + of_int n))) (\<lambda>r.
            let sz = (ucast r :: uint32) in
            thn (set_proc i (\<lambda>p. p\<lparr>p_sz := ucast sz\<rparr>)) (ret 0))
     else thn (set_proc i (\<lambda>p. p\<lparr>p_sz := ucast sz\<rparr>)) (ret 0)))"

section \<open>Giving up and getting the CPU\<close>

text \<open>
  \<open>sched\<close> checks what it must and switches to the scheduler of this CPU, which clears \<open>c->proc\<close> and
  releases the lock of the process; \<open>dispatch\<close> is the other half of the scheduler's loop, which
  switches to a runnable process.
\<close>

definition sched :: "('z pstate_scheme, unit) kfun" where
  "sched = bnd myproc (\<lambda>i. bnd (gets held) (\<lambda>h.
     if ProcLock i \<notin> set h then panic ''sched p->lock''
     else if length h \<noteq> 1 then panic ''sched locks''
     else bnd (get_proc i) (\<lambda>p.
       if p_state p = RUNNING then panic ''sched running''
       else thn (modify (\<lambda>s. s\<lparr>cur := None\<rparr>)) (release (ProcLock i)))))"

definition dispatch :: "nat \<Rightarrow> ('z pstate_scheme, bool) kfun" where
  "dispatch i = thn (acquire (ProcLock i)) (bnd (get_proc i) (\<lambda>p.
     if p_state p = RUNNABLE
     then thn (set_proc i (\<lambda>p. p\<lparr>p_state := RUNNING\<rparr>))
         (thn (modify (\<lambda>s. s\<lparr>cur := Some i\<rparr>)) (ret True))
     else thn (release (ProcLock i)) (ret False)))"

text \<open>One round of the scheduler over the slots, up to the first runnable process.\<close>

primrec scheduler_scan :: "nat list \<Rightarrow> ('z pstate_scheme, nat option) kfun" where
  "scheduler_scan [] = ret None"
| "scheduler_scan (i # is) =
     bnd (dispatch i) (\<lambda>b. if b then ret (Some i) else scheduler_scan is)"

definition yield :: "('z pstate_scheme, unit) kfun" where
  "yield = bnd myproc (\<lambda>i. thn (acquire (ProcLock i))
     (thn (set_proc i (\<lambda>p. p\<lparr>p_state := RUNNABLE\<rparr>)) sched))"

definition yield_resume :: "('z pstate_scheme, unit) kfun" where
  "yield_resume = bnd myproc (\<lambda>i. release (ProcLock i))"

text \<open>\<open>sleep\<close> up to the switch, and from the switch back on.\<close>

definition sleep :: "chan \<Rightarrow> lock \<Rightarrow> ('z pstate_scheme, 'a) kfun" where
  "sleep c lk = bnd myproc (\<lambda>i.
     thn (acquire (ProcLock i))
    (thn (release lk)
    (thn (set_proc i (\<lambda>p. p\<lparr>p_chan := Some c, p_state := SLEEPING\<rparr>))
    (thn sched (sleep_on c)))))"

definition sleep_resume :: "lock \<Rightarrow> ('z pstate_scheme, unit) kfun" where
  "sleep_resume lk = bnd myproc (\<lambda>i.
     thn (set_proc i (\<lambda>p. p\<lparr>p_chan := None\<rparr>))
    (thn (release (ProcLock i)) (acquire lk)))"

definition wakeup :: "chan \<Rightarrow> ('z pstate_scheme, unit) kfun" where
  "wakeup c = for_each [0..<NPROC] (\<lambda>i. bnd (gets cur) (\<lambda>me.
     if me = Some i then ret ()
     else thn (acquire (ProcLock i)) (bnd (get_proc i) (\<lambda>p.
       thn (if p_state p = SLEEPING \<and> p_chan p = Some c
            then set_proc i (\<lambda>p. p\<lparr>p_state := RUNNABLE\<rparr>) else ret ())
           (release (ProcLock i))))))"

primrec kill_scan :: "nat list \<Rightarrow> int \<Rightarrow> ('z pstate_scheme, int) kfun" where
  "kill_scan [] pid = ret (- 1)"
| "kill_scan (i # is) pid = thn (acquire (ProcLock i)) (bnd (get_proc i) (\<lambda>p.
     if p_pid p = pid
     then thn (set_proc i (\<lambda>p. p\<lparr>p_killed := 1\<rparr>))
         (thn (if p_state p = SLEEPING then set_proc i (\<lambda>p. p\<lparr>p_state := RUNNABLE\<rparr>) else ret ())
         (thn (release (ProcLock i)) (ret 0)))
     else thn (release (ProcLock i)) (kill_scan is pid)))"

definition kill :: "int \<Rightarrow> ('z pstate_scheme, int) kfun" where
  "kill pid = kill_scan [0..<NPROC] pid"

section \<open>Parents and children\<close>

text \<open>\<open>wakeup\<close> on a process pointer; nobody sleeps on the null pointer.\<close>

definition wakeup_proc :: "nat option \<Rightarrow> ('z pstate_scheme, unit) kfun" where
  "wakeup_proc q = (case q of None \<Rightarrow> ret () | Some i \<Rightarrow> wakeup (ChanProc i))"

definition reparent :: "nat \<Rightarrow> ('z pstate_scheme, unit) kfun" where
  "reparent i = for_each [0..<NPROC] (\<lambda>j. bnd (get_proc j) (\<lambda>p.
     if p_parent p = Some i
     then bnd (gets initproc) (\<lambda>q. thn (set_proc j (\<lambda>p. p\<lparr>p_parent := q\<rparr>)) (wakeup_proc q))
     else ret ()))"

text \<open>The address of \<open>proc[i].xstate\<close>: \<open>struct proc\<close> takes 368 bytes, with \<open>xstate\<close> at offset 44.\<close>

definition xstate_at :: "nat \<Rightarrow> 'z pstate_scheme \<Rightarrow> addr" where
  "xstate_at i s = proc_at s + of_nat (368 * i + 44)"

text \<open>One scan of \<open>wait\<close> over the table by process \<open>i\<close>: \<open>Inl\<close> a result, \<open>Inr\<close> whether there are children.\<close>

primrec wait_scan :: "nat list \<Rightarrow> nat \<Rightarrow> uint64 \<Rightarrow> bool \<Rightarrow> ('z pstate_scheme, int + bool) kfun" where
  "wait_scan [] i addr havekids = ret (Inr havekids)"
| "wait_scan (j # js) i addr havekids = bnd (get_proc j) (\<lambda>np.
     if p_parent np = Some i
     then thn (acquire (ProcLock j)) (bnd (get_proc j) (\<lambda>np.
       if p_state np = ZOMBIE
       then let pid = p_pid np in
         bnd (if addr \<noteq> 0
              then bnd (gets (xstate_at j)) (\<lambda>xa. thn (spill32 xa (of_int (p_xstate np)))
                     (bnd (get_proc i) (\<lambda>p. copyout (p_pagetable p) addr xa 4)))
              else ret 0) (\<lambda>r.
           if addr \<noteq> 0 \<and> r < 0
           then thn (release (ProcLock j)) (thn (release WaitLock) (ret (Inl (- 1))))
           else thn (freeproc j)
               (thn (release (ProcLock j)) (thn (release WaitLock) (ret (Inl pid)))))
       else thn (release (ProcLock j)) (wait_scan js i addr True)))
     else wait_scan js i addr havekids)"

definition wait_loop :: "nat \<Rightarrow> uint64 \<Rightarrow> ('z pstate_scheme, int) kfun" where
  "wait_loop i addr = bnd (wait_scan [0..<NPROC] i addr False) (\<lambda>r. case r of
     Inl v \<Rightarrow> ret v
   | Inr havekids \<Rightarrow> bnd (get_proc i) (\<lambda>p.
       if \<not> havekids \<or> p_killed p \<noteq> 0 then thn (release WaitLock) (ret (- 1))
       else sleep (ChanProc i) WaitLock))"

definition wait :: "uint64 \<Rightarrow> ('z pstate_scheme, int) kfun" where
  "wait addr = bnd myproc (\<lambda>i. thn (acquire WaitLock) (wait_loop i addr))"

definition wait_resume :: "uint64 \<Rightarrow> ('z pstate_scheme, int) kfun" where
  "wait_resume addr = thn (sleep_resume WaitLock) (bnd myproc (\<lambda>i. wait_loop i addr))"

section \<open>Copying to either side\<close>

definition either_copyout :: "bool \<Rightarrow> uint64 \<Rightarrow> addr \<Rightarrow> uint64 \<Rightarrow> ('z pstate_scheme, int) kfun" where
  "either_copyout user_dst dst src len =
     (if user_dst
      then bnd myproc (\<lambda>i. bnd (get_proc i) (\<lambda>p. copyout (p_pagetable p) dst src len))
      else thn (modify (\<lambda>s. s\<lparr>mem := memmove (mem s) dst src (ucast len)\<rparr>)) (ret 0))"

definition either_copyin :: "addr \<Rightarrow> bool \<Rightarrow> uint64 \<Rightarrow> uint64 \<Rightarrow> ('z pstate_scheme, int) kfun" where
  "either_copyin dst user_src src len =
     (if user_src
      then bnd myproc (\<lambda>i. bnd (get_proc i) (\<lambda>p. copyin (p_pagetable p) dst src len))
      else thn (modify (\<lambda>s. s\<lparr>mem := memmove (mem s) dst src (ucast len)\<rparr>)) (ret 0))"

section \<open>Running over the table\<close>

definition table_ok :: "'z pstate_scheme \<Rightarrow> bool" where
  "table_ok s \<longleftrightarrow> length (procs s) = NPROC \<and> (\<forall>i<NPROC. ProcLock i \<notin> set (held s) \<or> cur s = Some i)"

definition woken :: "chan \<Rightarrow> nat option \<Rightarrow> nat \<Rightarrow> proc \<Rightarrow> proc" where
  "woken c me i p = (if me \<noteq> Some i \<and> p_state p = SLEEPING \<and> p_chan p = Some c
     then p\<lparr>p_state := RUNNABLE\<rparr> else p)"

definition wake_one :: "chan \<Rightarrow> nat \<Rightarrow> ('z pstate_scheme, unit) kfun" where
  "wake_one c i = bnd (gets cur) (\<lambda>me.
     if me = Some i then ret ()
     else thn (acquire (ProcLock i)) (bnd (get_proc i) (\<lambda>p.
       thn (if p_state p = SLEEPING \<and> p_chan p = Some c
            then set_proc i (\<lambda>p. p\<lparr>p_state := RUNNABLE\<rparr>) else ret ())
           (release (ProcLock i)))))"

lemma wake_one_run:
  assumes "i < length (procs s)" and "cur s = Some i \<or> ProcLock i \<notin> set (held s)"
  shows "wake_one c i s = Ret () (s\<lparr>procs := (procs s)[i := woken c (cur s) i (procs s ! i)]\<rparr>)"
  using assms by (auto simp: wake_one_def monad_simps woken_def get_proc_def set_proc_def)

lemma wakeup_scan:
  assumes "\<forall>i\<in>set is. i < length (procs s) \<and> (cur s = Some i \<or> ProcLock i \<notin> set (held s))" and "distinct is"
  shows "\<exists>ps. for_each is (wake_one c) s = Ret () (s\<lparr>procs := ps\<rparr>) \<and> length ps = length (procs s) \<and>
    (\<forall>j<length ps. ps ! j = (if j \<in> set is then woken c (cur s) j (procs s ! j) else procs s ! j))"
  using assms
proof (induction "is" arbitrary: s)
  case Nil
  then show ?case by (intro exI [of _ "procs s"]) (simp add: monad_simps)
next
  case (Cons i "is")
  let ?s = "s\<lparr>procs := (procs s)[i := woken c (cur s) i (procs s ! i)]\<rparr>"
  have run: "wake_one c i s = Ret () ?s" using Cons.prems by (intro wake_one_run) auto
  have "\<exists>ps. for_each is (wake_one c) ?s = Ret () (?s\<lparr>procs := ps\<rparr>) \<and> length ps = length (procs ?s) \<and>
    (\<forall>j<length ps. ps ! j = (if j \<in> set is then woken c (cur ?s) j (procs ?s ! j) else procs ?s ! j))"
    using Cons.prems by (intro Cons.IH) auto
  then obtain ps where ps: "for_each is (wake_one c) ?s = Ret () (?s\<lparr>procs := ps\<rparr>)" "length ps = length (procs s)"
    "\<forall>j<length ps. ps ! j = (if j \<in> set is then woken c (cur s) j (procs ?s ! j) else procs ?s ! j)"
    by auto
  with run Cons.prems show ?case
    by (intro exI [of _ ps]) (auto simp: monad_simps nth_list_update)
qed

text \<open>\<open>wakeup\<close> as a function on the table.\<close>

lemma wakeup_run:
  assumes "table_ok s"
  obtains ps where "wakeup c s = Ret () (s\<lparr>procs := ps\<rparr>)" and "length ps = NPROC"
    and "\<And>j. j < NPROC \<Longrightarrow> ps ! j = woken c (cur s) j (procs s ! j)"
proof -
  have w: "wakeup c = for_each [0..<NPROC] (wake_one c)" unfolding wakeup_def wake_one_def ..
  have "\<forall>i\<in>set [0..<NPROC]. i < length (procs s) \<and> (cur s = Some i \<or> ProcLock i \<notin> set (held s))"
    using assms by (auto simp: table_ok_def)
  from wakeup_scan [OF this, of c] obtain ps where "wakeup c s = Ret () (s\<lparr>procs := ps\<rparr>)" "length ps = NPROC"
      "\<forall>j<length ps. ps ! j = (if j \<in> set [0..<NPROC] then woken c (cur s) j (procs s ! j) else procs s ! j)"
    using assms unfolding w by (auto simp: table_ok_def)
  then show thesis by (intro that [of ps]) auto
qed

section \<open>One hart and its processes\<close>

text \<open>
  The steps of a hart between the code of the processes: the scheduler picks a process, a process
  gives up the CPU in \<open>yield\<close> or \<open>sleep\<close> or comes back from there, wakes others or kills one.
\<close>

inductive hart_step :: "pstate \<Rightarrow> pstate \<Rightarrow> bool" where
  pick: "cur s = None \<Longrightarrow> i < NPROC \<Longrightarrow> dispatch i s = Ret b t \<Longrightarrow> hart_step s t"
| yields: "yield s = Ret () t \<Longrightarrow> hart_step s t"
| yielded: "yield_resume s = Ret () t \<Longrightarrow> hart_step s t"
| sleeps: "(sleep c lk s :: (pstate, unit) outcome) = Sleep c' t \<Longrightarrow> hart_step s t"
| slept: "\<forall>j. lk \<noteq> ProcLock j \<Longrightarrow> sleep_resume lk s = Ret () t \<Longrightarrow> hart_step s t"
| wakes: "cur s \<noteq> None \<Longrightarrow> wakeup c s = Ret () t \<Longrightarrow> hart_step s t"
| kills: "cur s \<noteq> None \<Longrightarrow> held s = [] \<Longrightarrow> kill n s = Ret r t \<Longrightarrow> hart_step s t"

definition hart_inv :: "'z pstate_scheme \<Rightarrow> bool" where
  "hart_inv s \<longleftrightarrow> length (procs s) = NPROC \<and> (\<forall>i. cur s = Some i \<longrightarrow> i < NPROC) \<and>
     (\<forall>i<NPROC. p_state (procs s ! i) = RUNNING \<longleftrightarrow> cur s = Some i) \<and>
     (\<forall>j. ProcLock j \<in> set (held s) \<longrightarrow> cur s = Some j) \<and> (cur s = None \<longrightarrow> held s = []) \<and> distinct (held s)"

lemma hart_inv_table: "hart_inv s \<Longrightarrow> table_ok s"
  by (auto simp: hart_inv_def table_ok_def)

lemmas proc_run = monad_simps get_proc_def set_proc_def myproc_def

lemma dispatch_inv:
  assumes "hart_inv s" and "cur s = None" and "i < NPROC" and "dispatch i s = Ret b t"
  shows "hart_inv t"
  using assms by (auto simp: dispatch_def proc_run hart_inv_def nth_list_update split: if_splits)

lemma run_myproc: "cur s = Some i \<Longrightarrow> myproc s = Ret i s"
  by (simp add: proc_run)

lemma myproc_Ret: "myproc s = Ret i t \<longleftrightarrow> cur s = Some i \<and> t = s"
  by (auto simp: myproc_def returns_iff split: option.splits)

lemma sched_run:
  "sched s = (case cur s of None \<Rightarrow> Undef ''myproc: no process'' | Some i \<Rightarrow>
     if ProcLock i \<notin> set (held s) then Panic ''sched p->lock''
     else if length (held s) \<noteq> 1 then Panic ''sched locks''
     else if p_state (procs s ! i) = RUNNING then Panic ''sched running''
     else Ret () (s\<lparr>held := [], cur := None\<rparr>))"
proof (cases "cur s")
  case (Some i)
  have "held s = [ProcLock i]" if "ProcLock i \<in> set (held s)" "length (held s) = 1"
    using that by (cases "held s") auto
  with Some show ?thesis by (auto simp: sched_def proc_run)
qed (simp add: sched_def proc_run)

lemma no_sleep [simp]: "sched s \<noteq> Sleep c t" "myproc s \<noteq> Sleep c t"
  by (auto simp: sched_run myproc_def bnd_def gets_def undef_def ret_def split: option.split)

lemma sched_Ret:
  "sched s = Ret u t \<longleftrightarrow> (\<exists>i. cur s = Some i \<and> held s = [ProcLock i] \<and> p_state (procs s ! i) \<noteq> RUNNING \<and>
     t = s\<lparr>held := [], cur := None\<rparr>)"
proof (cases "cur s")
  case (Some i)
  have "held s = [ProcLock i]" if "ProcLock i \<in> set (held s)" "length (held s) = 1"
    using that by (cases "held s") auto
  with Some show ?thesis by (auto simp: sched_run)
qed (simp add: sched_run)

lemma yield_inv:
  assumes "hart_inv s" and "yield s = Ret u t"
  shows "hart_inv t"
  using assms
  by (auto simp: yield_def returns_iff myproc_Ret set_proc_def acquire_Ret_iff sched_Ret hart_inv_def
      nth_list_update split: if_splits)

lemma hart_inv_release:
  assumes "hart_inv s" and "cur s = Some i"
  shows "hart_inv (s\<lparr>held := remove1 l (held s)\<rparr>)"
proof -
  have "distinct (held s)" using assms(1) by (simp add: hart_inv_def)
  then have "set (remove1 l (held s)) = set (held s) - {l}" "distinct (remove1 l (held s))" by simp_all
  with assms show ?thesis by (simp add: hart_inv_def)
qed

lemma hart_inv_acquire:
  assumes "hart_inv s" and "cur s = Some i" and "\<forall>j. l \<noteq> ProcLock j" and "l \<notin> set (held s)"
  shows "hart_inv (s\<lparr>held := l # held s\<rparr>)"
  using assms by (auto simp: hart_inv_def)

lemma hart_inv_update:
  assumes "hart_inv s" and "i < NPROC" and "p_state (f (procs s ! i)) = RUNNING \<longleftrightarrow> p_state (procs s ! i) = RUNNING"
  shows "hart_inv (s\<lparr>procs := (procs s)[i := f (procs s ! i)]\<rparr>)"
  using assms by (auto simp: hart_inv_def nth_list_update)

lemma hart_inv_switch:
  assumes "hart_inv s" and "cur s = Some i" and "p_state q \<noteq> RUNNING"
  shows "hart_inv (s\<lparr>procs := (procs s)[i := q], held := [], cur := None\<rparr>)"
  using assms by (auto simp: hart_inv_def nth_list_update)

lemma yield_resume_inv:
  assumes "hart_inv s" and "yield_resume s = Ret u t"
  shows "hart_inv t"
  using assms hart_inv_release by (auto simp: yield_resume_def bnd_Ret_iff myproc_Ret release_Ret_iff)

lemma sleep_resume_inv:
  assumes "hart_inv s" and "\<forall>j. lk \<noteq> ProcLock j" and "sleep_resume lk s = Ret u t"
  shows "hart_inv t"
proof -
  obtain i where i: "cur s = Some i" using assms(3) by (auto simp: sleep_resume_def bnd_Ret_iff myproc_Ret)
  let ?s = "s\<lparr>procs := (procs s)[i := (procs s ! i)\<lparr>p_chan := None\<rparr>]\<rparr>"
  let ?t = "?s\<lparr>held := remove1 (ProcLock i) (held ?s)\<rparr>"
  have t: "lk \<notin> set (held ?t)" "t = ?t\<lparr>held := lk # held ?t\<rparr>"
    using assms(3) i
    by (auto simp: sleep_resume_def returns_iff myproc_Ret set_proc_def release_Ret_iff acquire_Ret_iff)
  have "i < NPROC" using assms(1) i by (simp add: hart_inv_def)
  then have "hart_inv ?s" by (intro hart_inv_update [OF assms(1)]) auto
  then have "hart_inv ?t" using i by (intro hart_inv_release [where i = i]) auto
  then show ?thesis using t i assms(2) hart_inv_acquire [of ?t i lk] by simp
qed

lemma sleep_Sleep:
  assumes "sleep c lk s = Sleep c' t"
  obtains i where "cur s = Some i" and "held s = [lk]" and "lk \<noteq> ProcLock i" and "c' = c"
    and "t = s\<lparr>procs := (procs s)[i := (procs s ! i)\<lparr>p_chan := Some c, p_state := SLEEPING\<rparr>],
      held := [], cur := None\<rparr>"
proof -
  obtain i where i: "cur s = Some i" using assms by (cases "cur s") (auto simp: sleep_def proc_run)
  let ?s = "s\<lparr>held := remove1 lk (ProcLock i # held s),
    procs := (procs s)[i := (procs s ! i)\<lparr>p_chan := Some c, p_state := SLEEPING\<rparr>]\<rparr>"
  have own: "ProcLock i \<notin> set (held s)" and lk: "lk \<in> set (ProcLock i # held s)"
    and sw: "(\<exists>t'. sched ?s = Sleep c' t') \<or> (sched ?s = Ret () t \<and> c' = c)"
    using assms i unfolding sleep_def
    by (auto simp: sleeps_iff myproc_Ret no_sleep set_proc_def acquire_Ret_iff release_Ret_iff)
  then have sw: "sched ?s = Ret () t" "c' = c" by (auto simp: no_sleep)
  from sw(1) i have "remove1 lk (ProcLock i # held s) = [ProcLock i]" and
    t: "t = ?s\<lparr>held := [], cur := None\<rparr>" by (auto simp: sched_Ret)
  with own lk have "held s = [lk]" "lk \<noteq> ProcLock i"
    by (auto split: if_splits) (cases "held s"; auto split: if_splits)+
  with i t sw(2) show thesis by (intro that [of i]) simp_all
qed

lemma sleep_inv:
  assumes "hart_inv s" and "sleep c lk s = Sleep c' t"
  shows "hart_inv t"
proof -
  obtain i where "cur s = Some i"
      "t = s\<lparr>procs := (procs s)[i := (procs s ! i)\<lparr>p_chan := Some c, p_state := SLEEPING\<rparr>], held := [], cur := None\<rparr>"
    using sleep_Sleep [OF assms(2)] by metis
  with hart_inv_switch [OF assms(1)] show ?thesis by simp
qed

lemma wakeup_inv:
  assumes "hart_inv s" and "wakeup c s = Ret u t"
  shows "hart_inv t"
proof -
  obtain ps where ps: "wakeup c s = Ret () (s\<lparr>procs := ps\<rparr>)" "length ps = NPROC"
      "\<And>j. j < NPROC \<Longrightarrow> ps ! j = woken c (cur s) j (procs s ! j)"
    using wakeup_run [OF hart_inv_table [OF assms(1)]] by blast
  have "p_state (ps ! j) = RUNNING \<longleftrightarrow> p_state (procs s ! j) = RUNNING" if "j < NPROC" for j
    using ps(3) [OF that] by (simp add: woken_def)
  with assms ps(1,2) show ?thesis by (auto simp: hart_inv_def)
qed

text \<open>\<open>kill\<close> as a function on the table: the first process with the pid is marked, and woken if it sleeps.\<close>

definition killed_proc :: "proc \<Rightarrow> proc" where
  "killed_proc p = p\<lparr>p_killed := 1, p_state := (if p_state p = SLEEPING then RUNNABLE else p_state p)\<rparr>"

lemma kill_scan_run:
  assumes "\<forall>i\<in>set is. i < length (procs s) \<and> ProcLock i \<notin> set (held s)"
  shows "kill_scan is pid s = (case find (\<lambda>i. p_pid (procs s ! i) = pid) is of
     None \<Rightarrow> Ret (- 1) s
   | Some i \<Rightarrow> Ret 0 (s\<lparr>procs := (procs s)[i := killed_proc (procs s ! i)]\<rparr>))"
  using assms by (induction "is") (auto simp: proc_run killed_proc_def)

lemma kill_run:
  assumes "length (procs s) = NPROC" and "\<forall>i. ProcLock i \<notin> set (held s)"
  shows "kill pid s = (case find (\<lambda>i. p_pid (procs s ! i) = pid) [0..<NPROC] of
     None \<Rightarrow> Ret (- 1) s
   | Some i \<Rightarrow> Ret 0 (s\<lparr>procs := (procs s)[i := killed_proc (procs s ! i)]\<rparr>))"
  unfolding kill_def using assms by (intro kill_scan_run) auto

lemma kill_inv:
  assumes "hart_inv s" and "held s = []" and "kill n s = Ret r t"
  shows "hart_inv t"
proof -
  have "length (procs s) = NPROC" using assms(1) by (simp add: hart_inv_def)
  note run = kill_run [OF this, of n] assms(2,3)
  show ?thesis
  proof (cases "find (\<lambda>i. p_pid (procs s ! i) = n) [0..<NPROC]")
    case (Some i)
    then have "i < NPROC" by (auto simp: find_Some_iff)
    then have "hart_inv (s\<lparr>procs := (procs s)[i := killed_proc (procs s ! i)]\<rparr>)"
      by (intro hart_inv_update [OF assms(1)]) (auto simp: killed_proc_def)
    with Some run show ?thesis by auto
  qed (use run assms(1) in auto)
qed

lemma hart_step_inv:
  assumes "hart_step s t" and "hart_inv s"
  shows "hart_inv t"
  using assms(1)
proof cases
  case (wakes c)
  then show ?thesis using wakeup_inv [OF assms(2)] by blast
next
  case (kills n r)
  then show ?thesis using kill_inv [OF assms(2)] by blast
qed (use assms(2) dispatch_inv yield_inv yield_resume_inv sleep_inv sleep_resume_inv in blast)+

inductive_cases hart_stepE: "hart_step s t"

section \<open>An example table\<close>

text \<open>A small table for the examples: process 0 runs, process 1 waits for the clock, process 2 is ready.\<close>

definition unused_proc :: proc where
  "unused_proc = \<lparr>p_state = UNUSED, p_chan = None, p_killed = 0, p_xstate = 0, p_pid = 0, p_parent = None,
     p_kstack = 0, p_sz = 0, p_pagetable = 0, p_trapframe = 0, p_context = zero_context,
     p_ofile = replicate 16 None, p_cwd = None, p_name = replicate 16 0, p_validRingBuf = 0\<rparr>"

definition small_table :: pstate where
  "small_table = \<lparr>held = [], mem = (\<lambda>_. 0), freelist = 0, kend = 0x80020000, kernel_pagetable = 0, satp = 0,
     etext = 0x80008000, trampoline = 0x80007000,
     procs = (replicate NPROC unused_proc)
       [0 := unused_proc\<lparr>p_state := RUNNING, p_pid := 1\<rparr>,
        1 := unused_proc\<lparr>p_state := SLEEPING, p_chan := Some ChanTicks, p_pid := 2\<rparr>,
        2 := unused_proc\<lparr>p_state := RUNNABLE, p_pid := 3\<rparr>],
     cur = Some 0, initproc = Some 0, nextpid = 4, forkret_at = 0x80001000, proc_at = 0x80011000\<rparr>"

lemma small_table_simps [simp]:
  "held small_table = []" "cur small_table = Some 0" "nextpid small_table = 4" "length (procs small_table) = NPROC"
  by (simp_all add: small_table_def)

lemma small_table_procs:
  assumes "i < NPROC"
  shows "procs small_table ! i =
    (if i = 0 then unused_proc\<lparr>p_state := RUNNING, p_pid := 1\<rparr>
     else if i = 1 then unused_proc\<lparr>p_state := SLEEPING, p_chan := Some ChanTicks, p_pid := 2\<rparr>
     else if i = 2 then unused_proc\<lparr>p_state := RUNNABLE, p_pid := 3\<rparr> else unused_proc)"
  using assms by (simp add: small_table_def nth_list_update)

lemma small_table_inv: "hart_inv small_table"
  by (auto simp: hart_inv_def small_table_procs unused_proc_def NPROC_def)

section \<open>Properties\<close>





text \<open>C30: \<open>kill\<close> marks the first process in the table that has the pid, wakes it if it sleeps, changes nothing
  else and returns 0; with no such process it returns -1 and changes nothing.\<close>

theorem kill_correct:
  assumes "length (procs s) = NPROC" and "\<forall>i. ProcLock i \<notin> set (held s)"
  shows "(\<forall>i<NPROC. p_pid (procs s ! i) \<noteq> pid) \<and> kill pid s = Ret (- 1) s \<or>
    (\<exists>i<NPROC. p_pid (procs s ! i) = pid \<and> (\<forall>j<i. p_pid (procs s ! j) \<noteq> pid) \<and>
       kill pid s = Ret 0 (s\<lparr>procs := (procs s)[i := (procs s ! i)\<lparr>p_killed := 1,
         p_state := (if p_state (procs s ! i) = SLEEPING then RUNNABLE else p_state (procs s ! i))\<rparr>]\<rparr>))"
proof (cases "find (\<lambda>i. p_pid (procs s ! i) = pid) [0..<NPROC]")
  case None
  then have "\<forall>i<NPROC. p_pid (procs s ! i) \<noteq> pid" by (auto simp: find_None_iff)
  with None show ?thesis using kill_run [OF assms] by simp
next
  case (Some i)
  then have "i < NPROC" "p_pid (procs s ! i) = pid" "\<forall>j<i. p_pid (procs s ! j) \<noteq> pid"
    by (auto simp: find_Some_iff)
  with Some show ?thesis using kill_run [OF assms, of pid] by (auto simp: killed_proc_def)
qed

theorem kill_correct_witness:
  "\<exists>t. kill 2 small_table = Ret 0 t \<and> p_state (procs t ! 1) = RUNNABLE \<and> p_killed (procs t ! 1) = 1"
proof -
  have a: "length (procs small_table) = NPROC" "\<forall>i. ProcLock i \<notin> set (held small_table)" by simp_all
  have one: "p_pid (procs small_table ! 1) = 2" "p_state (procs small_table ! 1) = SLEEPING" "1 < NPROC"
    by (simp_all add: small_table_procs NPROC_def)
  have only: "i = 1" if "i < NPROC" "p_pid (procs small_table ! i) = 2" for i
    using that by (auto simp: small_table_procs unused_proc_def split: if_splits)
  from kill_correct [OF a, of 2] one(1,3) only
  have "kill 2 small_table = Ret 0 (small_table\<lparr>procs := (procs small_table)[1 := (procs small_table ! 1)
      \<lparr>p_killed := 1, p_state := (if p_state (procs small_table ! 1) = SLEEPING then RUNNABLE
         else p_state (procs small_table ! 1))\<rparr>]\<rparr>)" by metis
  with one show ?thesis by (simp add: nth_list_update)
qed

end
