(* ===== verification/ProcMem.thy ===== *)
theory ProcMem
  imports Proc
begin

text \<open>
  Process slots and their memory: the page table of a new process, allocating a slot, freeing one,
  and the parent that waits for its child.
\<close>

unbundle bit_operations_syntax

section \<open>Mapping one page\<close>

lemma map_page:
  assumes "page_aligned va" and "va < MAXVA" and "kmem_inv s ps" and "pt_wf s ps pt"
    and "KmemLock \<notin> set (held s)" and "vmap (mem s) pt va AND PTE_V = 0"
  obtains (full) t where "mappages pt va PGSIZE pa perm s = Ret (- 1) t" and "grows s ps pt t []"
      and "length ps < 2"
  | (mapped) t qs where "mappages pt va PGSIZE pa perm s = Ret 0 t"
      and "extends s ps pt t qs" and "length ps \<le> length qs + 2"
      and "\<And>vb. vb < MAXVA \<Longrightarrow> vmap (mem t) pt vb =
        (if unat va div 4096 = unat vb div 4096 then PA2PTE pa OR perm OR PTE_V else vmap (mem s) pt vb)"
proof -
  have "unat va + 4095 < 2 ^ 64" using assms(2) by (simp add: unat_MAXVA_less)
  then have "unat (va + 4095) = unat va + 4095" by (simp add: unat_word_ariths)
  moreover have "(unat va + 4095) div 4096 = unat va div 4096"
    using assms(1) unfolding page_aligned_def by (elim dvdE) simp
  moreover have "4096 * (unat va div 4096) = unat va" using assms(1) by (simp add: page_aligned_def)
  ultimately have "PGROUNDDOWN (va + 4095) = va" by (simp add: word_unat_eq_iff unat_PGROUNDDOWN)
  then have "PGROUNDDOWN (va + PGSIZE - 1) = va" by (simp add: PGSIZE_def add.commute)
  then have run: "mappages pt va PGSIZE pa perm = mappages_loop pt va va pa perm"
    using assms(1) by (simp add: mappages_def)
  show thesis
    by (rule mappages_turn [OF assms(2-6), where lst = va and pa = pa and perm = perm])
      (use full mapped in \<open>simp_all add: run\<close>)
qed

lemma kmem_free_cong:
  assumes "mem t = mem s" and "freelist t = freelist s" and "kend t = kend s"
    and "KmemLock \<in> set (held t) \<longleftrightarrow> KmemLock \<in> set (held s)"
  shows "kmem_free t ps = kmem_free s ps"
  using assms by (simp add: kmem_free_def kmem_inv_def)

section \<open>The page table of a process\<close>

text \<open>The translations of a fresh process table: the trampoline, the trapframe, nothing else.\<close>

definition fresh_map :: "addr \<Rightarrow> addr \<Rightarrow> uint64 \<Rightarrow> uint64" where
  "fresh_map tramp tf va =
     (if unat va div 4096 = unat TRAMPOLINE div 4096 then PA2PTE tramp OR (PTE_R OR PTE_X) OR PTE_V
      else if unat va div 4096 = unat TRAPFRAME div 4096 then PA2PTE tf OR (PTE_R OR PTE_W) OR PTE_V
      else 0)"

lemma high_pages:
  "page_aligned TRAMPOLINE" "page_aligned TRAPFRAME" "TRAMPOLINE < MAXVA" "TRAPFRAME < MAXVA"
  "unat TRAMPOLINE div 4096 \<noteq> unat TRAPFRAME div 4096"
  by (simp_all add: page_aligned_def TRAMPOLINE_def TRAPFRAME_def MAXVA_def PGSIZE_def)

lemma proc_pagetable_run:
  assumes "kmem_free s (p # ps)" and "4 \<le> length ps"
  obtains t qs where "proc_pagetable i s = Ret p t" and "kmem_free t qs" and "pt_wf t qs p"
    and "\<And>va. va < MAXVA \<Longrightarrow> vmap (mem t) p va = fresh_map (trampoline s) (p_trapframe (procs s ! i)) va"
    and "mem_only s t" and "p \<noteq> 0"
proof -
  obtain s0 where s0: "uvmcreate s = Ret p s0" "kmem_free s0 ps" "pt_wf s0 ps p"
      "\<And>va. vmap (mem s0) p va = 0" "mem_only s s0"
    using uvmcreate_run [OF assms(1)] by metis
  have p0: "p \<noteq> 0" using assms(1) kmem_inv_Cons by (auto simp: kmem_free_def)
  have inv: "kmem_inv s0 ps" "KmemLock \<notin> set (held s0)" using s0(2) by (auto simp: kmem_free_def)
  have none: "vmap (mem s0) p TRAMPOLINE AND PTE_V = 0" by (simp add: s0(4))
  obtain s1 ps1 where s1: "mappages p TRAMPOLINE PGSIZE (trampoline s) (PTE_R OR PTE_X) s0 = Ret 0 s1"
      "extends s0 ps p s1 ps1" "length ps \<le> length ps1 + 2"
      "\<And>vb. vb < MAXVA \<Longrightarrow> vmap (mem s1) p vb = (if unat TRAMPOLINE div 4096 = unat vb div 4096
         then PA2PTE (trampoline s) OR (PTE_R OR PTE_X) OR PTE_V else 0)"
    by (rule map_page [OF high_pages(1,3) inv(1) s0(3) inv(2) none, of "trampoline s" "PTE_R OR PTE_X"])
      (use assms(2) s0(4) in auto)
  note e = extendsD [OF s1(2)]
  have none: "vmap (mem s1) p TRAPFRAME AND PTE_V = 0" "KmemLock \<notin> set (held s1)"
    using s1(4) [OF high_pages(4)] high_pages(5) e(3) inv(2) by simp_all
  let ?tf = "p_trapframe (procs s ! i)"
  obtain s2 ps2 where s2: "mappages p TRAPFRAME PGSIZE ?tf (PTE_R OR PTE_W) s1 = Ret 0 s2"
      "extends s1 ps1 p s2 ps2"
      "\<And>vb. vb < MAXVA \<Longrightarrow> vmap (mem s2) p vb = (if unat TRAPFRAME div 4096 = unat vb div 4096
         then PA2PTE ?tf OR (PTE_R OR PTE_W) OR PTE_V else vmap (mem s1) p vb)"
    by (rule map_page [OF high_pages(2,4) e(1,2) none(2,1), of ?tf "PTE_R OR PTE_W"])
      (use s1(3) assms(2) in auto)
  note e' = extendsD [OF s2(2)]
  have keeps: "trampoline s0 = trampoline s" "procs s1 = procs s"
    using mem_only_trans [OF s0(5) e(9)] s0(5) by (auto simp: mem_only_def)
  have "proc_pagetable i s = Ret p s2"
    using s0(1) p0 s1(1) s2(1) keeps by (simp add: proc_pagetable_def proc_run)
  moreover have "kmem_free s2 ps2" using e'(1,3) none(2) by (simp add: kmem_free_def)
  moreover have "vmap (mem s2) p va = fresh_map (trampoline s) ?tf va" if "va < MAXVA" for va
    using s1(4) [OF that] s2(3) [OF that] high_pages(5) by (auto simp: fresh_map_def)
  ultimately show thesis
    using that e'(2) mem_only_trans [OF mem_only_trans [OF s0(5) e(9)] e'(9)] p0 by metis
qed

section \<open>Allocating a slot\<close>

lemma allocproc_scan_run:
  assumes "\<forall>i\<in>set is. ProcLock i \<notin> set (held s)"
  shows "allocproc_scan is s = (case find (\<lambda>i. p_state (procs s ! i) = UNUSED) is of
     None \<Rightarrow> Ret None s | Some i \<Rightarrow> Ret (Some i) (s\<lparr>held := ProcLock i # held s\<rparr>))"
  using assms by (induction "is") (auto simp: proc_run)

lemma allocpid_run:
  assumes "PidLock \<notin> set (held s)" and "nextpid s < 2147483647"
  shows "allocpid s = Ret (nextpid s) (s\<lparr>nextpid := nextpid s + 1\<rparr>)"
  using assms by (simp add: allocpid_def proc_run)

lemma set_proc_run:
  "set_proc i f s = Ret () (s\<lparr>procs := (procs s)[i := f (procs s ! i)]\<rparr>)"
  by (simp add: proc_run)

definition new_proc :: "'z pstate_scheme \<Rightarrow> nat \<Rightarrow> addr \<Rightarrow> addr \<Rightarrow> proc" where
  "new_proc s i tf pt = (procs s ! i)\<lparr>p_pid := nextpid s, p_state := USED, p_trapframe := tf, p_pagetable := pt,
     p_context := \<lparr>c_ra = forkret_at s, c_sp = p_kstack (procs s ! i) + PGSIZE, c_s0_11 = replicate 12 0\<rparr>\<rparr>"

lemma allocproc_run:
  assumes "find (\<lambda>j. p_state (procs s ! j) = UNUSED) [0..<NPROC] = Some i" and "length (procs s) = NPROC"
    and "\<forall>j. ProcLock j \<notin> set (held s)" and "PidLock \<notin> set (held s)" and "nextpid s < 2147483647"
    and "kmem_free s (tf # pt # ps)" and "4 \<le> length ps"
  obtains t qs f m where "allocproc s = Ret (Some i) t"
    and "t = s\<lparr>procs := (procs s)[i := new_proc s i tf pt], nextpid := nextpid s + 1,
      held := ProcLock i # held s, freelist := f, mem := m\<rparr>"
    and "kmem_free t qs" and "pt_wf t qs pt"
    and "\<And>va. va < MAXVA \<Longrightarrow> vmap (mem t) pt va = fresh_map (trampoline s) tf va"
proof -
  have i: "i < NPROC" using assms(1) by (auto simp: find_Some_iff)
  let ?p = "(procs s ! i)\<lparr>p_pid := nextpid s, p_state := USED\<rparr>"
  let ?s1 = "s\<lparr>held := ProcLock i # held s, nextpid := nextpid s + 1, procs := (procs s)[i := ?p]\<rparr>"
  have free1: "kmem_free ?s1 (tf # pt # ps)" using assms(6) by (simp add: kmem_free_def kmem_inv_def)
  have tf: "tf \<noteq> 0" using assms(6) kmem_inv_Cons by (auto simp: kmem_free_def)
  let ?s2 = "?s1\<lparr>mem := memset (mem s) tf 5 4096, freelist := load64 (mem s) tf\<rparr>"
  have k: "kalloc ?s1 = Ret tf ?s2" using kalloc_run [of ?s1 tf "pt # ps"] free1 by (simp add: kmem_free_def)
  then have free2: "kmem_free ?s2 (pt # ps)"
    using kalloc_inv [of ?s1 tf "pt # ps"] free1 by (simp add: kmem_free_def)
  let ?s3 = "?s2\<lparr>procs := (procs s)[i := ?p\<lparr>p_trapframe := tf\<rparr>]\<rparr>"
  have free3: "kmem_free ?s3 (pt # ps)" using free2 by (simp add: kmem_free_def kmem_inv_def)
  obtain s4 qs where s4: "proc_pagetable i ?s3 = Ret pt s4" "kmem_free s4 qs" "pt_wf s4 qs pt"
      "\<And>va. va < MAXVA \<Longrightarrow> vmap (mem s4) pt va = fresh_map (trampoline s) tf va" "mem_only ?s3 s4" "pt \<noteq> 0"
    using proc_pagetable_run [OF free3 assms(7), of i] i assms(2) by auto
  then obtain f m where u: "s4 = ?s3\<lparr>freelist := f, mem := m\<rparr>" by (auto simp: mem_only_def)
  let ?t = "s\<lparr>procs := (procs s)[i := new_proc s i tf pt], nextpid := nextpid s + 1,
      held := ProcLock i # held s, freelist := f, mem := m\<rparr>"
  have "allocproc_scan [0..<NPROC] s = Ret (Some i) (s\<lparr>held := ProcLock i # held s\<rparr>)"
    using allocproc_scan_run [of "[0..<NPROC]" s] assms(1,3) by simp
  then have "allocproc s = Ret (Some i) ?t"
    using assms(2,4,5) k s4(1,6) tf i
    by (simp add: allocproc_def allocpid_run monad_simps set_proc_run u new_proc_def zero_context_def)
  moreover have "kmem_free ?t qs" "pt_wf ?t qs pt" "mem ?t = mem s4"
    using s4(2,3) by (simp_all add: u kmem_free_def kmem_inv_def pt_wf_def)
  ultimately show thesis using that [OF _ refl] s4(4) by metis
qed

section \<open>Freeing a slot\<close>

definition freed :: "proc \<Rightarrow> proc" where
  "freed p = p\<lparr>p_trapframe := 0, p_pagetable := 0, p_sz := 0, p_pid := 0, p_parent := None,
     p_name := (p_name p)[0 := 0], p_chan := None, p_killed := 0, p_xstate := 0, p_state := UNUSED\<rparr>"

lemma mem_fun_proc_freepagetable [mem_intros]: "mem_fun (proc_freepagetable pt sz)"
  unfolding proc_freepagetable_def by (auto intro!: mem_intros)

lemma freeproc_Ret:
  assumes "freeproc i s = Ret u t" and "i < length (procs s)"
  shows "\<exists>fl m. t = s\<lparr>procs := (procs s)[i := freed (procs s ! i)], freelist := fl, mem := m\<rparr>"
proof -
  let ?p = "procs s ! i"
  obtain s1 s2 where r: "(if p_trapframe ?p \<noteq> 0 then kfree (p_trapframe ?p) else ret ()) s = Ret () s1"
      "(if p_pagetable ?p \<noteq> 0 then proc_freepagetable (p_pagetable ?p) (p_sz ?p) else ret ())
        (s1\<lparr>procs := (procs s1)[i := (procs s1 ! i)\<lparr>p_trapframe := 0\<rparr>]\<rparr>) = Ret () s2"
      "set_proc i (\<lambda>p. p\<lparr>p_pagetable := 0, p_sz := 0, p_pid := 0, p_parent := None,
            p_name := (p_name p)[0 := 0], p_chan := None, p_killed := 0, p_xstate := 0, p_state := UNUSED\<rparr>) s2 = Ret u t"
    using assms(1) unfolding freeproc_def by (auto simp: returns_iff get_proc_def set_proc_run)
  have "mem_only s s1" using r(1) by (auto simp: run_ret dest: mem_funD [OF mem_fun_kfree] split: if_splits)
  then obtain f1 m1 where s1: "s1 = s\<lparr>freelist := f1, mem := m1\<rparr>" by (auto simp: mem_only_def)
  have "mem_only (s1\<lparr>procs := (procs s1)[i := (procs s1 ! i)\<lparr>p_trapframe := 0\<rparr>]\<rparr>) s2"
    using r(2) by (auto simp: run_ret dest: mem_funD [OF mem_fun_proc_freepagetable] split: if_splits)
  then obtain f2 m2 where s2: "s2 = s1\<lparr>procs := (procs s1)[i := (procs s1 ! i)\<lparr>p_trapframe := 0\<rparr>], freelist := f2, mem := m2\<rparr>"
    by (auto simp: mem_only_def)
  show ?thesis using r(3) assms(2) by (intro exI [of _ f2] exI [of _ m2]) (auto simp: set_proc_run s1 s2 freed_def)
qed

section \<open>Waiting for a child\<close>

definition zombie_of :: "'z pstate_scheme \<Rightarrow> nat \<Rightarrow> nat \<Rightarrow> bool" where
  "zombie_of s i j \<longleftrightarrow> p_parent (procs s ! j) = Some i \<and> p_state (procs s ! j) = ZOMBIE"

lemma wait_scan_none:
  assumes "\<forall>j\<in>set js. \<not> zombie_of s i j \<and> ProcLock j \<notin> set (held s)"
  shows "wait_scan js i addr k s = Ret (Inr (k \<or> (\<exists>j\<in>set js. p_parent (procs s ! j) = Some i))) s"
  using assms by (induction js arbitrary: k) (auto simp: proc_run zombie_of_def)

definition reap :: "nat \<Rightarrow> nat \<Rightarrow> uint64 \<Rightarrow> ('z pstate_scheme, int) kfun" where
  "reap i j addr = bnd (get_proc j) (\<lambda>np.
     bnd (if addr \<noteq> 0
          then bnd (gets (xstate_at j)) (\<lambda>xa. thn (spill32 xa (of_int (p_xstate np)))
                 (bnd (get_proc i) (\<lambda>p. copyout (p_pagetable p) addr xa 4)))
          else ret 0) (\<lambda>r.
       if addr \<noteq> 0 \<and> r < 0
       then thn (release (ProcLock j)) (thn (release WaitLock) (ret (- 1)))
       else thn (freeproc j) (thn (release (ProcLock j)) (thn (release WaitLock) (ret (p_pid np))))))"

lemma wait_scan_first:
  assumes "zombie_of s i j" and "\<forall>j'\<in>set js. \<not> zombie_of s i j'" and "\<forall>j'. ProcLock j' \<notin> set (held s)"
  shows "wait_scan (js @ j # js') i addr k s = bnd (reap i j addr) (\<lambda>v. ret (Inl v)) (s\<lparr>held := ProcLock j # held s\<rparr>)"
  using assms
proof (induction js arbitrary: k)
  case Nil
  then show ?case
    by (simp add: zombie_of_def reap_def proc_run Let_def)
       (simp add: bnd_def thn_def ret_def split: outcome.split)
qed (auto simp: proc_run zombie_of_def)

lemma reap_Ret:
  assumes "reap i j addr s = Ret v t" and "j < length (procs s)"
  shows "\<exists>fl m. (v = - 1 \<and> addr \<noteq> 0 \<and> t = s\<lparr>held := remove1 WaitLock (remove1 (ProcLock j) (held s)), freelist := fl, mem := m\<rparr>) \<or>
    (v = p_pid (procs s ! j) \<and> t = s\<lparr>procs := (procs s)[j := freed (procs s ! j)],
       held := remove1 WaitLock (remove1 (ProcLock j) (held s)), freelist := fl, mem := m\<rparr>)"
proof -
  obtain r s1 where r: "(if addr \<noteq> 0
          then bnd (gets (xstate_at j)) (\<lambda>xa. thn (spill32 xa (of_int (p_xstate (procs s ! j))))
                 (bnd (get_proc i) (\<lambda>p. copyout (p_pagetable p) addr xa 4)))
          else ret 0) s = Ret r s1"
      "(if addr \<noteq> 0 \<and> r < 0 then thn (release (ProcLock j)) (thn (release WaitLock) (ret (- 1)))
        else thn (freeproc j) (thn (release (ProcLock j)) (thn (release WaitLock) (ret (p_pid (procs s ! j)))))) s1 = Ret v t"
    using assms(1) by (auto simp: reap_def returns_iff get_proc_def)
  have "mem_only s s1" using r(1)
    by (auto simp: returns_iff get_proc_def spill32_def
        dest!: mem_funD [OF mem_fun_copyout] split: if_splits intro: mem_only_trans [OF mem_only_updates(2)])
  then obtain f1 m1 where s1: "s1 = s\<lparr>freelist := f1, mem := m1\<rparr>" by (auto simp: mem_only_def)
  show ?thesis
  proof (cases "addr \<noteq> 0 \<and> r < 0")
    case True
    with r(2) have "v = - 1" "t = s\<lparr>held := remove1 WaitLock (remove1 (ProcLock j) (held s)), freelist := f1, mem := m1\<rparr>"
      by (auto simp: returns_iff release_Ret_iff s1)
    with True show ?thesis by blast
  next
    case False
    with r(2) obtain s2 where s2: "freeproc j s1 = Ret () s2" "v = p_pid (procs s ! j)"
        "t = s2\<lparr>held := remove1 WaitLock (remove1 (ProcLock j) (held s2))\<rparr>"
      by (auto simp: returns_iff release_Ret_iff)
    then obtain fl m where "s2 = s1\<lparr>procs := (procs s1)[j := freed (procs s1 ! j)], freelist := fl, mem := m\<rparr>"
      using freeproc_Ret [OF s2(1)] assms(2) s1 by auto
    with s1 s2 show ?thesis by (intro exI [of _ fl] exI [of _ m]) simp
  qed
qed

lemma wait_run:
  assumes "cur s = Some i" and "\<forall>l. ProcLock l \<notin> set (held s)" and "WaitLock \<notin> set (held s)"
  shows "wait addr s = wait_loop i addr (s\<lparr>held := WaitLock # held s\<rparr>)"
  using assms by (simp add: wait_def proc_run)

lemma first_zombie:
  assumes "j < n" and "zombie_of s i j"
  obtains js k js' where "[0..<n] = js @ k # js'" and "zombie_of s i k" and "\<forall>j'\<in>set js. \<not> zombie_of s i j'"
proof -
  have "\<exists>x\<in>set [0..<n]. zombie_of s i x" using assms by auto
  then show thesis using split_list_first_prop [of "[0..<n]" "zombie_of s i"] that by metis
qed

lemma wait_scan_whole:
  assumes "\<forall>l. ProcLock l \<notin> set (held s)" and "\<forall>j<NPROC. \<not> zombie_of s i j"
  shows "wait_scan [0..<NPROC] i addr False (s\<lparr>held := WaitLock # held s\<rparr>) =
    Ret (Inr (\<exists>j<NPROC. p_parent (procs s ! j) = Some i)) (s\<lparr>held := WaitLock # held s\<rparr>)"
  using wait_scan_none [of "[0..<NPROC]" "s\<lparr>held := WaitLock # held s\<rparr>" i addr False] assms
  by (auto simp: zombie_of_def)

lemma wait_childless:
  assumes "cur s = Some i" and "\<forall>l. ProcLock l \<notin> set (held s)" and "WaitLock \<notin> set (held s)"
    and "\<forall>j<NPROC. p_parent (procs s ! j) \<noteq> Some i"
  shows "wait addr s = Ret (- 1) s"
  using wait_scan_whole [OF assms(2), of i addr] assms
  by (auto simp: wait_run wait_loop_def zombie_of_def proc_run)

lemma wait_sleeps:
  assumes "cur s = Some i" and "held s = []" and "length (procs s) = NPROC" and "i < NPROC"
    and "\<exists>j<NPROC. p_parent (procs s ! j) = Some i" and "\<forall>j<NPROC. \<not> zombie_of s i j" and "p_killed (procs s ! i) = 0"
  shows "wait addr s = Sleep (ChanProc i) (s\<lparr>procs := (procs s)[i := (procs s ! i)
    \<lparr>p_chan := Some (ChanProc i), p_state := SLEEPING\<rparr>], cur := None\<rparr>)"
  using wait_scan_whole [of s i addr] assms
  by (auto simp: wait_run wait_loop_def sleep_def proc_run sched_run)

lemma wait_reaps:
  assumes "cur s = Some i" and "length (procs s) = NPROC" and "\<forall>l. ProcLock l \<notin> set (held s)"
    and "WaitLock \<notin> set (held s)" and "wait addr s = Ret v t" and "v \<noteq> - 1"
  shows "\<exists>j<NPROC. zombie_of s i j \<and> v = p_pid (procs s ! j) \<and> held t = held s \<and>
    procs t = (procs s)[j := freed (procs s ! j)]"
proof -
  let ?s = "s\<lparr>held := WaitLock # held s\<rparr>"
  have z: "zombie_of ?s = zombie_of s" by (simp add: zombie_of_def fun_eq_iff)
  have run: "wait_loop i addr ?s = Ret v t" using assms(5) wait_run [OF assms(1,3,4)] by simp
  show ?thesis
  proof (cases "\<exists>j<NPROC. zombie_of s i j")
    case True
    then obtain js k js' where k: "[0..<NPROC] = js @ k # js'" "zombie_of s i k" "\<forall>j'\<in>set js. \<not> zombie_of s i j'"
      using first_zombie by blast
    then have n: "k < NPROC" by (metis atLeastLessThan_iff in_set_conv_decomp set_upt)
    have "wait_scan [0..<NPROC] i addr False ?s = bnd (reap i k addr) (\<lambda>v. ret (Inl v)) (?s\<lparr>held := ProcLock k # held ?s\<rparr>)"
      unfolding k(1) using k assms(3) z by (intro wait_scan_first) auto
    with run have "reap i k addr (?s\<lparr>held := ProcLock k # held ?s\<rparr>) = Ret v t"
      by (auto simp: wait_loop_def returns_iff)
    from reap_Ret [OF this] n assms(2,6) show ?thesis by (intro exI [of _ k]) (auto simp: k)
  next
    case False
    then have "wait_scan [0..<NPROC] i addr False ?s = Ret (Inr (\<exists>j<NPROC. p_parent (procs s ! j) = Some i)) ?s"
      using wait_scan_whole assms(3) by blast
    with run assms(6) show ?thesis
      by (auto simp: wait_loop_def returns_iff get_proc_def sleep_def split: if_splits)
  qed
qed

section \<open>Properties\<close>

text \<open>C28: \<open>allocproc\<close> gives the first unused slot the next process id, a trapframe, and a page table that maps
  the trampoline and the trapframe and nothing else, and returns with the slot's lock held; every other
  slot stays as it was.  With no unused slot it returns 0 and changes nothing.\<close>

theorem allocproc_correct:
  assumes "length (procs s) = NPROC" and "\<forall>j. ProcLock j \<notin> set (held s)" and "PidLock \<notin> set (held s)"
    and "nextpid s < 2147483647" and "kmem_free s (tf # pt # ps)" and "4 \<le> length ps"
  shows "(\<forall>j<NPROC. p_state (procs s ! j) \<noteq> UNUSED) \<and> allocproc s = Ret None s \<or>
    (\<exists>i<NPROC. \<exists>t qs. p_state (procs s ! i) = UNUSED \<and> (\<forall>j<i. p_state (procs s ! j) \<noteq> UNUSED) \<and>
       allocproc s = Ret (Some i) t \<and> held t = ProcLock i # held s \<and> nextpid t = nextpid s + 1 \<and>
       (\<forall>j<NPROC. j \<noteq> i \<longrightarrow> procs t ! j = procs s ! j) \<and>
       p_state (procs t ! i) = USED \<and> p_pid (procs t ! i) = nextpid s \<and>
       p_trapframe (procs t ! i) = tf \<and> p_pagetable (procs t ! i) = pt \<and>
       c_ra (p_context (procs t ! i)) = forkret_at s \<and> kmem_free t qs \<and> pt_wf t qs pt \<and>
       (\<forall>va<MAXVA. vmap (mem t) pt va = fresh_map (trampoline s) tf va))"
proof (cases "find (\<lambda>j. p_state (procs s ! j) = UNUSED) [0..<NPROC]")
  case None
  then have "\<forall>j<NPROC. p_state (procs s ! j) \<noteq> UNUSED" by (auto simp: find_None_iff)
  moreover have "allocproc s = Ret None s"
    using allocproc_scan_run [of "[0..<NPROC]" s] None assms(2) by (simp add: allocproc_def monad_simps)
  ultimately show ?thesis by blast
next
  case (Some i)
  then have i: "i < NPROC" "p_state (procs s ! i) = UNUSED" "\<forall>j<i. p_state (procs s ! j) \<noteq> UNUSED"
    by (auto simp: find_Some_iff)
  obtain t qs f m where t: "allocproc s = Ret (Some i) t"
      "t = s\<lparr>procs := (procs s)[i := new_proc s i tf pt], nextpid := nextpid s + 1,
        held := ProcLock i # held s, freelist := f, mem := m\<rparr>"
      "kmem_free t qs" "pt_wf t qs pt" "\<And>va. va < MAXVA \<Longrightarrow> vmap (mem t) pt va = fresh_map (trampoline s) tf va"
    using allocproc_run [OF Some assms(1-6)] by metis
  then have "procs t ! i = new_proc s i tf pt" "\<forall>j<NPROC. j \<noteq> i \<longrightarrow> procs t ! j = procs s ! j"
      "held t = ProcLock i # held s" "nextpid t = nextpid s + 1"
    using i(1) assms(1) by simp_all
  with i t(1,3-5) show ?thesis by (intro disjI2 exI [of _ i] exI [of _ t] exI [of _ qs] conjI) (simp_all add: new_proc_def)
qed

theorem allocproc_correct_witness:
  "\<exists>t. allocproc (with_frames 6 small_table) = Ret (Some 3) t \<and> p_pid (procs t ! 3) = 4 \<and> nextpid t = 5 \<and>
    vmap (mem t) (p_pagetable (procs t ! 3)) 0 = 0"
proof -
  let ?s = "with_frames 6 small_table"
  have free: "kmem_free ?s (top_frames 6)" by (rule with_frames_free) simp_all
  obtain tf pt ps where ps: "top_frames 6 = tf # pt # ps" "4 \<le> length ps"
    by (simp add: top_frames_def upt_rec numeral_eq_Suc)
  have s: "procs ?s = procs small_table" "held ?s = []" "nextpid ?s = 4" by (simp_all add: with_frames_def)
  have unused: "p_state (procs ?s ! j) = UNUSED \<longleftrightarrow> 3 \<le> j" if "j < NPROC" for j
    using that by (auto simp: s small_table_procs unused_proc_def)
  have n: "length (procs ?s) = NPROC" "\<forall>j. ProcLock j \<notin> set (held ?s)" "PidLock \<notin> set (held ?s)" "nextpid ?s < 2147483647"
    by (simp_all add: s)
  have three: "(3::nat) < NPROC" by (simp add: NPROC_def)
  from allocproc_correct [OF n free [unfolded ps(1)] ps(2)] unused three
  obtain i t where i: "i < NPROC" "p_state (procs ?s ! i) = UNUSED" "\<forall>j<i. p_state (procs ?s ! j) \<noteq> UNUSED"
      and t: "allocproc ?s = Ret (Some i) t" "p_pid (procs t ! i) = nextpid ?s" "nextpid t = nextpid ?s + 1"
        "p_pagetable (procs t ! i) = pt" "\<forall>va<MAXVA. vmap (mem t) pt va = fresh_map (trampoline ?s) tf va"
    by (metis order_refl)
  have "i = 3" using i unused three by (metis nat_neq_iff order_refl linorder_not_less)
  moreover have "vmap (mem t) pt 0 = 0"
    using t(5) by (simp add: fresh_map_def unat_MAXVA_less TRAMPOLINE_def TRAPFRAME_def MAXVA_def PGSIZE_def)
  ultimately show ?thesis using t(1-4) s(3) by auto
qed



end
