(* ===== verification/Ringbuf.thy ===== *)
theory Ringbuf
  imports ProcMem
begin

text \<open>
  The shared ring buffers of \<open>kernel/ringbuf.c\<close>.  A ring is 16 frames that a process sees twice, one
  after the other, so that 64 KiB from any position on are contiguous addresses, followed by one page
  of bookkeeping.  A second process that opens the ring under the same name gets the same frames.

  The table \<open>ringbufs\<close> is a list of records; \<open>ringbufs_at\<close> is its address, from which \<open>createbuf\<close>
  copies the field \<open>vabuf\<close> to user space (the structure takes 176 bytes, with \<open>vabuf\<close> at offset 160).
  An index outside the table is undefined behaviour.  \<open>processSpace_mapper\<close> ignores its parameters
  \<open>straddr\<close> and \<open>opdesc\<close>, which are left out here.  What \<open>closebuf\<close> prints on the console is left out.
\<close>

unbundle bit_operations_syntax

section \<open>State\<close>

definition MAX_RINGBUFS :: nat where "MAX_RINGBUFS = 10"
definition RINGBUF_SIZE :: nat where "RINGBUF_SIZE = 16"
definition MAP_START :: uint64 where "MAP_START = MAXVA - 2 * PGSIZE - 10 * 34 * PGSIZE"
definition SPACE_JUMP :: uint64 where "SPACE_JUMP = 34 * PGSIZE"
definition MAXMAPLOC :: uint64 where "MAXMAPLOC = MAXVA - 36 * PGSIZE"

record ringbuf =
  rb_refcount :: int
  rb_name :: "uchar list"
  rb_pidsRW :: "int list"
  rb_bufPA :: "addr list"
  rb_vabuf :: addr
  rb_book :: addr

record rstate = pstate +
  ringbufs :: "ringbuf list"
  ringbufs_at :: addr

definition get_ring :: "nat \<Rightarrow> ('z rstate_scheme, ringbuf) kfun" where
  "get_ring i = bnd (gets ringbufs) (\<lambda>rs. if i < length rs then ret (rs ! i) else undef ''ringbufs: index'')"

definition set_ring :: "nat \<Rightarrow> (ringbuf \<Rightarrow> ringbuf) \<Rightarrow> ('z rstate_scheme, unit) kfun" where
  "set_ring i f = bnd (gets ringbufs) (\<lambda>rs. if i < length rs
     then modify (\<lambda>s. s\<lparr>ringbufs := rs[i := f (rs ! i)]\<rparr>) else undef ''ringbufs: index'')"

section \<open>Mapping a ring\<close>

text \<open>The search for a free place in the address space; \<open>None\<close> is the early return of -1.\<close>

lemma walkaddr_Ret_less:
  assumes "walkaddr pt va s = Ret pa t" and "pa \<noteq> 0"
  shows "va < MAXVA"
  using assms by (auto simp: walkaddr_def returns_iff split: if_splits)

function find_space :: "addr \<Rightarrow> uint64 \<Rightarrow> ('z mstate_scheme, uint64 option) kfun" where
  "find_space pagetable start s =
     bnd (walkaddr pagetable start) (\<lambda>pa.
       if pa \<noteq> 0
       then if start + SPACE_JUMP > MAXMAPLOC then ret None
            else find_space pagetable (start + SPACE_JUMP)
       else ret (Some start)) s"
  by pat_completeness auto
termination
proof (relation "measure (\<lambda>(pt, start, s). 2 ^ 64 - unat start)")
  fix pagetable start and s :: "'z mstate_scheme" and pa t
  assume "walkaddr pagetable start s = Ret pa t" "pa \<noteq> 0"
  then have "unat start < 2 ^ 38" using walkaddr_Ret_less unat_MAXVA_less by blast
  then show "((pagetable, start + SPACE_JUMP, t), pagetable, start, s) \<in> measure (\<lambda>(pt, start, s). 2 ^ 64 - unat start)"
    by (simp add: SPACE_JUMP_def PGSIZE_def unat_word_ariths)
qed simp

declare find_space.simps [simp del]

abbreviation ring_perm :: uint64 where
  "ring_perm \<equiv> PTE_U OR PTE_R OR PTE_W OR PTE_V"

text \<open>The loop over the 32 pages; \<open>m\<close> is the variable \<open>mem\<close>.  When a page cannot be mapped the code
  unmaps the first page once for each page before, and frees the last frame.\<close>

primrec ring_pages :: "nat list \<Rightarrow> nat \<Rightarrow> addr \<Rightarrow> uint64 \<Rightarrow> bool \<Rightarrow> addr \<Rightarrow> ('z rstate_scheme, int) kfun" where
  "ring_pages [] idx pagetable start newmap m = ret 0"
| "ring_pages (i # is) idx pagetable start newmap m =
     bnd (if i < RINGBUF_SIZE \<and> newmap
          then bnd kalloc (\<lambda>m. thn (set_ring idx (\<lambda>r. r\<lparr>rb_bufPA := (rb_bufPA r)[i := m]\<rparr>)) (ret m))
          else ret m) (\<lambda>m.
     bnd (get_ring idx) (\<lambda>r.
     bnd (mappages pagetable (start + PGSIZE * of_nat i) PGSIZE (rb_bufPA r ! (i mod RINGBUF_SIZE)) ring_perm) (\<lambda>e.
       if e \<noteq> 0
       then thn (for_each (rev [0..<i]) (\<lambda>_. uvmunmap pagetable start 1 True))
           (thn (if i < RINGBUF_SIZE then kfree m else ret ()) (ret (- 1)))
       else ring_pages is idx pagetable start newmap m)))"

definition processSpace_mapper :: "nat \<Rightarrow> bool \<Rightarrow> ('z rstate_scheme, int) kfun" where
  "processSpace_mapper idx newmap = bnd myproc (\<lambda>c. bnd (get_proc c) (\<lambda>p.
     bnd (find_space (p_pagetable p) MAP_START) (\<lambda>w. case w of
       None \<Rightarrow> ret (- 1)
     | Some start \<Rightarrow>
         thn (set_ring idx (\<lambda>r. r\<lparr>rb_vabuf := start\<rparr>))
        (bnd (ring_pages [0..<RINGBUF_SIZE * 2] idx (p_pagetable p) start newmap 0) (\<lambda>e.
         if e \<noteq> 0 then ret (- 1)
         else thn (if newmap then bnd kalloc (\<lambda>m. set_ring idx (\<lambda>r. r\<lparr>rb_book := m\<rparr>)) else ret ())
             (bnd (get_ring idx) (\<lambda>r.
              bnd (mappages (p_pagetable p) (start + PGSIZE * of_nat (RINGBUF_SIZE * 2)) PGSIZE (rb_book r) ring_perm) (\<lambda>e.
                if e \<noteq> 0 then panic ''map failed'' else ret 0))))))))"

section \<open>Opening and closing a ring\<close>

text \<open>The first ring with the name, in the part \<open>is\<close> of the table.\<close>

primrec find_name :: "nat list \<Rightarrow> cview \<Rightarrow> ('z rstate_scheme, nat option) kfun" where
  "find_name [] straddr = ret None"
| "find_name (i # is) straddr = bnd (get_ring i) (\<lambda>r.
     bnd (lift_option ''strcmp'' (strcmp straddr (arr (rb_name r)))) (\<lambda>d.
       if d = 0 then ret (Some i) else find_name is straddr))"

primrec find_unused :: "nat list \<Rightarrow> ('z rstate_scheme, nat option) kfun" where
  "find_unused [] = ret None"
| "find_unused (i # is) = bnd (get_ring i) (\<lambda>r. if rb_refcount r = 0 then ret (Some i) else find_unused is)"

text \<open>The last part of \<open>createbuf\<close>, common to both branches.\<close>

definition createbuf_done :: "nat \<Rightarrow> uint64 \<Rightarrow> int \<Rightarrow> ('z rstate_scheme, int) kfun" where
  "createbuf_done idx retvaddr exists = bnd myproc (\<lambda>c. bnd (get_proc c) (\<lambda>p.
     bnd (gets ringbufs_at) (\<lambda>base. bnd (get_ring idx) (\<lambda>r.
       let a = base + of_nat (176 * idx + 160) in
       thn (spill64 a (rb_vabuf r))
      (thn (copyout (p_pagetable p) retvaddr a 8)
      (thn (acquire (ProcLock c))
      (thn (set_proc c (\<lambda>p. p\<lparr>p_validRingBuf := 1\<rparr>))
      (thn (release (ProcLock c))
      (thn (release RingbufLock) (ret exists))))))))))"

definition createbuf :: "cview \<Rightarrow> int \<Rightarrow> uint64 \<Rightarrow> ('z rstate_scheme, int) kfun" where
  "createbuf straddr opdesc retvaddr =
     (if opdesc < 0 \<or> opdesc > 1 then ret (- 1)
      else thn (acquire RingbufLock) (bnd myproc (\<lambda>c. bnd (get_proc c) (\<lambda>p.
        let op = nat opdesc in
        bnd (find_name [0..<MAX_RINGBUFS] straddr) (\<lambda>found.
        let exists = (if found = None then 1 else 0) in
        case found of
          Some (Suc k) \<Rightarrow> bnd (get_ring (Suc k)) (\<lambda>r.
            if rb_pidsRW r ! op \<noteq> 0 \<or> rb_refcount r < 0 then thn (release RingbufLock) (ret (- 1))
            else thn (set_ring (Suc k) (\<lambda>r. r\<lparr>rb_pidsRW := (rb_pidsRW r)[op := p_pid p], rb_refcount := rb_refcount r + 1\<rparr>))
              (bnd (processSpace_mapper (Suc k) False) (\<lambda>e.
                 if e \<noteq> 0
                 then thn (set_ring (Suc k) (\<lambda>r. r\<lparr>rb_pidsRW := (rb_pidsRW r)[op := 0], rb_refcount := rb_refcount r - 1\<rparr>))
                     (thn (release RingbufLock) (ret (- 1)))
                 else createbuf_done (Suc k) retvaddr exists)))
        | _ \<Rightarrow> bnd (find_unused [0..<MAX_RINGBUFS]) (\<lambda>u.
            case (case u of Some i \<Rightarrow> Some i | None \<Rightarrow> found) of
              None \<Rightarrow> undef ''ringbufs[-1]''
            | Some idx \<Rightarrow>
                thn (set_ring idx (\<lambda>r. r\<lparr>rb_refcount := rb_refcount r + 1,
                  rb_pidsRW := (rb_pidsRW r)[1 - op := 0, op := p_pid p]\<rparr>))
               (bnd (get_ring idx) (\<lambda>r.
                bnd (lift_option ''safestrcpy'' (safestrcpy (rb_name r) straddr 8)) (\<lambda>name.
                thn (set_ring idx (\<lambda>r. r\<lparr>rb_name := name\<rparr>))
               (bnd (processSpace_mapper idx True) (\<lambda>e.
                 if e \<noteq> 0
                 then thn (set_ring idx (\<lambda>r. r\<lparr>rb_name := (rb_name r)[0 := 0], rb_pidsRW := (rb_pidsRW r)[op := 0]\<rparr>))
                     (thn (release RingbufLock) (ret (- 1)))
                 else createbuf_done idx retvaddr exists)))))))))))"

text \<open>Closing: the loop looks at 16 entries of a table of 10, so that a name that is in no ring runs off its end.
  \<open>found\<close> is both \<open>i\<close> and \<open>current_index\<close> after the loop.\<close>

definition closebuf_unmap :: "addr \<Rightarrow> uint64 \<Rightarrow> bool \<Rightarrow> ('z mstate_scheme, unit) kfun" where
  "closebuf_unmap pagetable d unmapphypage =
     thn (for_each [0..<RINGBUF_SIZE] (\<lambda>i. uvmunmap pagetable (d + PGSIZE * of_nat i) 1 unmapphypage))
    (thn (for_each [RINGBUF_SIZE..<RINGBUF_SIZE * 2] (\<lambda>i. uvmunmap pagetable (d + PGSIZE * of_nat i) 1 False))
         (uvmunmap pagetable (d + PGSIZE * of_nat (RINGBUF_SIZE * 2)) 1 unmapphypage))"

definition ring_of_pid :: "int \<Rightarrow> ringbuf \<Rightarrow> bool" where
  "ring_of_pid pid r \<longleftrightarrow> rb_pidsRW r ! 0 = pid \<or> rb_pidsRW r ! 1 = pid"

definition closebuf :: "cview \<Rightarrow> int \<Rightarrow> ('z rstate_scheme, int) kfun" where
  "closebuf straddr opdesc = bnd myproc (\<lambda>c. bnd (get_proc c) (\<lambda>p.
     thn (acquire RingbufLock)
    (bnd (find_name [0..<RINGBUF_SIZE] straddr) (\<lambda>found. case found of
       None \<Rightarrow> undef ''ringbufs[16]''
     | Some i \<Rightarrow>
         bnd (get_ring i) (\<lambda>r.
         let d = rb_vabuf r; unmapphypage = (\<not> rb_refcount r - 1 \<ge> 1) in
         thn (set_ring i (\<lambda>r. if unmapphypage
            then r\<lparr>rb_refcount := 0, rb_name := (rb_name r)[0 := 0], rb_pidsRW := (rb_pidsRW r)[0 := 0, 1 := 0],
                   rb_vabuf := 0, rb_book := 0\<rparr>
            else r\<lparr>rb_refcount := rb_refcount r - 1\<rparr>))
        (thn (closebuf_unmap (p_pagetable p) d unmapphypage)
        (bnd (gets ringbufs) (\<lambda>rs.
         thn (acquire (ProcLock c))
        (thn (set_proc c (\<lambda>p. p\<lparr>p_validRingBuf := (if \<exists>r\<in>set rs. ring_of_pid (p_pid p) r then 1 else 0)\<rparr>))
        (thn (release (ProcLock c))
        (thn (release RingbufLock) (ret 0))))))))))))"

definition cleanup_side :: "nat \<Rightarrow> nat \<Rightarrow> int \<Rightarrow> ('z rstate_scheme, unit) kfun" where
  "cleanup_side i side pid = bnd (get_ring i) (\<lambda>r.
     if rb_pidsRW r ! side = pid
     then thn (release RingbufLock) (thn (closebuf (arr (rb_name r)) (int side)) (acquire RingbufLock))
     else ret ())"

definition ringbufCleanup :: "('z rstate_scheme, int) kfun" where
  "ringbufCleanup = bnd myproc (\<lambda>c. thn (acquire RingbufLock) (bnd (get_proc c) (\<lambda>p.
     thn (for_each [0..<MAX_RINGBUFS] (\<lambda>i. thn (cleanup_side i 0 (p_pid p)) (cleanup_side i 1 (p_pid p))))
    (thn (release RingbufLock) (ret 0)))))"

section \<open>Frames\<close>

lemma mem_at_find_space: "mem_at (find_space pt start) s"
proof (induction pt start s rule: find_space.induct)
  case (1 pt start s)
  have "mem_at (bnd (walkaddr pt start) (\<lambda>pa. if pa \<noteq> 0
       then if start + SPACE_JUMP > MAXMAPLOC then ret None else find_space pt (start + SPACE_JUMP)
       else ret (Some start))) s"
    by (intro mem_at_bnd mem_at_if) (assumption | rule mem_intros mem_at_leaf "1.IH")+
  then show ?case by (rule mem_at_unfold) (rule find_space.simps)
qed

lemma run_get_ring: "i < length (ringbufs s) \<Longrightarrow> get_ring i s = Ret (ringbufs s ! i) s"
  by (simp add: get_ring_def monad_simps)

lemma run_set_ring:
  "i < length (ringbufs s) \<Longrightarrow> set_ring i f s = Ret () (s\<lparr>ringbufs := (ringbufs s)[i := f (ringbufs s ! i)]\<rparr>)"
  by (simp add: set_ring_def monad_simps)

lemma get_ring_Ret: "get_ring i s = Ret r t \<longleftrightarrow> i < length (ringbufs s) \<and> r = ringbufs s ! i \<and> t = s"
  by (auto simp: get_ring_def returns_iff)

lemma set_ring_Ret:
  "set_ring i f s = Ret u t \<longleftrightarrow> i < length (ringbufs s) \<and> t = s\<lparr>ringbufs := (ringbufs s)[i := f (ringbufs s ! i)]\<rparr>"
  by (auto simp: set_ring_def returns_iff)

section \<open>Taking frames for a table and for its pages\<close>

text \<open>Like \<open>extends\<close>, but the frames \<open>bs\<close> among those taken off the free list went to the caller, and other
  parts of the state may have changed too.\<close>

definition takes :: "'z mstate_scheme \<Rightarrow> addr list \<Rightarrow> addr \<Rightarrow> 'z mstate_scheme \<Rightarrow> addr list \<Rightarrow> addr list \<Rightarrow> bool" where
  "takes s ps pt t qs bs \<longleftrightarrow> (\<exists>new. ps = new @ qs) \<and> set bs \<subseteq> set ps - set qs \<and> distinct bs \<and>
     kmem_inv t qs \<and> pt_wf t qs pt \<and> held t = held s \<and> kend t = kend s \<and>
     tables (mem t) pt \<subseteq> tables (mem s) pt \<union> (set ps - set qs - set bs) \<and>
     (\<forall>a. (\<forall>p \<in> tables (mem s) pt \<union> (set ps - set qs). \<not> in_page p a) \<longrightarrow> mem t a = mem s a)"

lemma takesD:
  assumes "takes s ps pt t qs bs"
  shows "kmem_inv t qs" "pt_wf t qs pt" "held t = held s" "kend t = kend s" "set bs \<subseteq> set ps - set qs" "distinct bs"
    "set qs \<subseteq> set ps" "tables (mem t) pt \<subseteq> tables (mem s) pt \<union> (set ps - set qs - set bs)"
  using assms by (auto simp: takes_def)

lemma takes_mem:
  assumes "takes s ps pt t qs bs" and "\<And>p. p \<in> tables (mem s) pt \<union> (set ps - set qs) \<Longrightarrow> \<not> in_page p a"
  shows "mem t a = mem s a"
  using assms by (simp add: takes_def)

lemma takes_extends: "extends s ps pt t qs \<Longrightarrow> takes s ps pt t qs []"
  by (auto simp: takes_def extends_def mem_only_keeps)

lemma takes_refl: "kmem_inv s ps \<Longrightarrow> pt_wf s ps pt \<Longrightarrow> takes s ps pt s ps []"
  by (intro takes_extends extends_refl)

lemma takes_cong:
  assumes "takes s ps pt t qs bs" and "mem u = mem t" and "freelist u = freelist t" and "kend u = kend t" and "held u = held t"
  shows "takes s ps pt u qs bs"
  using assms unfolding takes_def kmem_inv_def pt_wf_def by auto

lemma takes_kalloc:
  assumes "kmem_free s (p # ps)" and "pt_wf s (p # ps) pt"
  obtains t where "kalloc s = Ret p t" and "takes s (p # ps) pt t ps [p]" and "mem_only s t"
    and "\<And>va. vmap (mem t) pt va = vmap (mem s) pt va"
proof -
  obtain t where t: "kalloc s = Ret p t" "kmem_free t ps" "pt_wf t ps pt" "\<And>va. vmap (mem t) pt va = vmap (mem s) pt va"
      "tables (mem t) pt = tables (mem s) pt" "p \<notin> tables (mem t) pt" "mem_only s t" "\<And>a. \<not> in_page p a \<Longrightarrow> mem t a = mem s a"
    using kalloc_keeps [OF assms] by metis
  have "p \<notin> set ps" using assms(1) kmem_inv_Cons by (auto simp: kmem_free_def)
  with t have "takes s (p # ps) pt t ps [p]"
    by (auto simp: takes_def kmem_free_def mem_only_keeps)
  with t that show thesis by blast
qed

lemma takes_trans:
  assumes "takes s ps pt t qs bs" and "takes t qs pt u rs cs" and "kmem_inv s ps"
  shows "takes s ps pt u rs (bs @ cs)"
proof -
  note a = takesD [OF assms(1)] and b = takesD [OF assms(2)]
  have new: "\<exists>new. ps = new @ rs"
    using assms(1,2) unfolding takes_def by (metis append_assoc)
  have bq: "set bs \<inter> set qs = {}" using a(5) by auto
  have dis: "set bs \<inter> set cs = {}" "distinct (bs @ cs)" using bq b(5,6) a(6) by auto
  have tab: "tables (mem u) pt \<subseteq> tables (mem s) pt \<union> (set ps - set rs - set (bs @ cs))"
  proof
    fix q assume q: "q \<in> tables (mem u) pt"
    then consider "q \<in> tables (mem t) pt" | "q \<in> set qs - set rs - set cs" using b(8) by auto
    then show "q \<in> tables (mem s) pt \<union> (set ps - set rs - set (bs @ cs))"
    proof cases
      case 1
      then have "q \<notin> set qs" using a(2) by (auto simp: pt_wf_def)
      with 1 a(7,8) b(5,7) show ?thesis by auto
    qed (use a(7) bq in auto)
  qed
  have "mem u x = mem s x" if out: "\<forall>p \<in> tables (mem s) pt \<union> (set ps - set rs). \<not> in_page p x" for x
  proof -
    have "mem u x = mem t x" using out a(7,8) b(7) by (intro takes_mem [OF assms(2)]) blast
    also have "\<dots> = mem s x" using out b(7) by (intro takes_mem [OF assms(1)]) blast
    finally show ?thesis .
  qed
  with new dis tab a b show ?thesis by (auto simp: takes_def)
qed

section \<open>The pages of a ring\<close>

definition slot_page :: "uint64 \<Rightarrow> nat \<Rightarrow> uint64" where
  "slot_page start i = start + PGSIZE * of_nat i"

text \<open>The 33 pages from \<open>start\<close> on lie below the trapframe.\<close>

definition slot_ok :: "uint64 \<Rightarrow> bool" where
  "slot_ok start \<longleftrightarrow> page_aligned start \<and> unat start + 4096 * 33 \<le> 2 ^ 38"

lemma slot_page:
  assumes "slot_ok start" and "i < 33"
  shows "page_aligned (slot_page start i)" and "slot_page start i < MAXVA"
    and "unat (slot_page start i) = unat start + 4096 * i"
    and "unat (slot_page start i) div 4096 = unat start div 4096 + i"
proof -
  show u: "unat (slot_page start i) = unat start + 4096 * i"
    using unat_nth_page [of start i] assms by (simp add: slot_page_def slot_ok_def PGSIZE_def)
  show "page_aligned (slot_page start i)" using assms(1) u by (simp add: slot_ok_def page_aligned_def)
  show "slot_page start i < MAXVA" using assms u by (simp add: slot_ok_def unat_MAXVA_less)
  show "unat (slot_page start i) div 4096 = unat start div 4096 + i" using u by simp
qed

definition ring_pte :: "addr \<Rightarrow> uint64" where
  "ring_pte pa = PA2PTE pa OR ring_perm OR PTE_V"

lemma map_ring_page:
  assumes "slot_ok start" and "i < 33" and "kmem_free s ps" and "pt_wf s ps pt" and "2 \<le> length ps"
    and "vmap (mem s) pt (slot_page start i) AND PTE_V = 0"
  obtains t qs where "mappages pt (slot_page start i) PGSIZE pa ring_perm s = Ret 0 t"
    and "takes s ps pt t qs []" and "mem_only s t" and "length ps \<le> length qs + 2"
    and "\<And>vb. vb < MAXVA \<Longrightarrow> vmap (mem t) pt vb =
      (if unat vb div 4096 = unat start div 4096 + i then ring_pte pa else vmap (mem s) pt vb)"
proof -
  note p = slot_page [OF assms(1,2)]
  have inv: "kmem_inv s ps" "KmemLock \<notin> set (held s)" using assms(3) by (auto simp: kmem_free_def)
  show thesis
  proof (cases rule: map_page [OF p(1,2) inv(1) assms(4) inv(2) assms(6), where pa = pa and perm = ring_perm,
        case_names full mapped])
    case (full t)
    with assms(5) show thesis by simp
  next
    case (mapped t qs)
    then show thesis
      by (intro that [of t qs] takes_extends extendsD(9)) (auto simp: p(4) ring_pte_def)
  qed
qed

text \<open>One page of the loop.\<close>

definition fills :: "bool \<Rightarrow> nat \<Rightarrow> bool" where
  "fills newmap i \<longleftrightarrow> newmap \<and> i < RINGBUF_SIZE"

definition put_pa :: "nat \<Rightarrow> nat \<Rightarrow> addr \<Rightarrow> ringbuf list \<Rightarrow> ringbuf list" where
  "put_pa idx i b rs = rs[idx := (rs ! idx)\<lparr>rb_bufPA := (rb_bufPA (rs ! idx))[i := b]\<rparr>]"

definition rings_only :: "'z rstate_scheme \<Rightarrow> 'z rstate_scheme \<Rightarrow> bool" where
  "rings_only s t \<longleftrightarrow> (\<exists>rs f m. t = s\<lparr>ringbufs := rs, freelist := f, mem := m\<rparr>)"

lemma rings_only_refl [simp]: "rings_only s s"
  unfolding rings_only_def by (intro exI [of _ "ringbufs s"] exI [of _ "freelist s"] exI [of _ "mem s"]) simp

lemma rings_only_trans:
  assumes "rings_only s t" and "rings_only t u"
  shows "rings_only s u"
proof -
  obtain rs f m where "t = s\<lparr>ringbufs := rs, freelist := f, mem := m\<rparr>" using assms(1) by (auto simp: rings_only_def)
  moreover obtain rs' f' m' where "u = t\<lparr>ringbufs := rs', freelist := f', mem := m'\<rparr>" using assms(2) by (auto simp: rings_only_def)
  ultimately show ?thesis unfolding rings_only_def by (intro exI [of _ rs'] exI [of _ f'] exI [of _ m']) simp
qed

lemma rings_only_mem: "mem_only s t \<Longrightarrow> rings_only s t \<and> ringbufs t = ringbufs s"
proof -
  assume "mem_only s t"
  then obtain f m where "t = s\<lparr>freelist := f, mem := m\<rparr>" by (auto simp: mem_only_def)
  then show ?thesis unfolding rings_only_def
    by (intro conjI exI [of _ "ringbufs s"] exI [of _ f] exI [of _ m]) simp_all
qed

lemma rings_only_rings [simp]: "rings_only s (s\<lparr>ringbufs := rs\<rparr>)"
  unfolding rings_only_def by (intro exI [of _ rs] exI [of _ "freelist s"] exI [of _ "mem s"]) simp

lemma rings_only_keeps:
  "rings_only s t \<Longrightarrow> procs t = procs s \<and> cur t = cur s \<and> held t = held s \<and> ringbufs_at t = ringbufs_at s \<and> kend t = kend s"
  by (auto simp: rings_only_def)

lemma ring_page_turn:
  assumes "slot_ok start" and "i < 32" and idx: "idx < length (ringbufs s)" "length (rb_bufPA (ringbufs s ! idx)) = 16"
    and "kmem_free s ps" and "pt_wf s ps pt" and room: "(if fills newmap i then 3 else 2) \<le> length ps"
    and "vmap (mem s) pt (slot_page start i) AND PTE_V = 0"
  obtains t qs b m' where "ring_pages (i # js) idx pt start newmap m s = ring_pages js idx pt start newmap m' t"
    and "takes s ps pt t qs (if fills newmap i then [b] else [])" and "rings_only s t"
    and "ringbufs t = (if fills newmap i then put_pa idx i b (ringbufs s) else ringbufs s)"
    and "length ps \<le> length qs + (if fills newmap i then 3 else 2)"
    and "\<And>vb. vb < MAXVA \<Longrightarrow> vmap (mem t) pt vb = (if unat vb div 4096 = unat start div 4096 + i
      then ring_pte (rb_bufPA (ringbufs t ! idx) ! (i mod 16)) else vmap (mem s) pt vb)"
proof -
  have i33: "i < 33" using assms(2) by simp
  show thesis
  proof (cases "fills newmap i")
    case True
    then have i: "i < 16" newmap by (auto simp: fills_def RINGBUF_SIZE_def)
    obtain b ps' where ps: "ps = b # ps'" "2 \<le> length ps'" using room True by (cases ps) auto
    obtain s1 where s1: "kalloc s = Ret b s1" "takes s (b # ps') pt s1 ps' [b]" "mem_only s s1"
        "\<And>va. vmap (mem s1) pt va = vmap (mem s) pt va"
      using takes_kalloc [OF assms(5) [unfolded ps(1)] assms(6) [unfolded ps(1)]] by metis
    let ?s2 = "s1\<lparr>ringbufs := put_pa idx i b (ringbufs s)\<rparr>"
    have r1: "ringbufs s1 = ringbufs s" using rings_only_mem [OF s1(3)] by simp
    have k2: "takes s (b # ps') pt ?s2 ps' [b]" by (rule takes_cong [OF s1(2)]) simp_all
    have free2: "kmem_free ?s2 ps'" "pt_wf ?s2 ps' pt"
      using takesD(1-3) [OF k2] assms(5) by (auto simp: kmem_free_def)
    have none: "vmap (mem ?s2) pt (slot_page start i) AND PTE_V = 0" using s1(4) assms(8) by simp
    obtain t qs where t: "mappages pt (slot_page start i) PGSIZE b ring_perm ?s2 = Ret 0 t"
        "takes ?s2 ps' pt t qs []" "mem_only ?s2 t" "length ps' \<le> length qs + 2"
        "\<And>vb. vb < MAXVA \<Longrightarrow> vmap (mem t) pt vb =
          (if unat vb div 4096 = unat start div 4096 + i then ring_pte b else vmap (mem ?s2) pt vb)"
      by (rule map_ring_page [OF assms(1) i33 free2 ps(2) none, where pa = b]) auto
    have rt: "ringbufs t = put_pa idx i b (ringbufs s)" using rings_only_mem [OF t(3)] by simp
    have only: "rings_only s t"
      using rings_only_trans [OF rings_only_trans [OF _ rings_only_rings]] rings_only_mem [OF s1(3)] rings_only_mem [OF t(3)] by blast
    have "ring_pages (i # js) idx pt start newmap m s = ring_pages js idx pt start newmap b t"
      using i s1(1) idx t(1) r1 by (simp add: monad_simps run_set_ring run_get_ring RINGBUF_SIZE_def slot_page_def put_pa_def)
    moreover have "takes s ps pt t qs [b]"
      using takes_trans [OF k2 t(2)] assms(5) ps(1) by (simp add: kmem_free_def)
    moreover have "rb_bufPA (ringbufs t ! idx) ! (i mod 16) = b" using rt idx i by (simp add: put_pa_def)
    ultimately show thesis using that [of b t qs b] True only rt t(4,5) ps(1) s1(4) by simp
  next
    case False
    obtain t qs where t: "mappages pt (slot_page start i) PGSIZE (rb_bufPA (ringbufs s ! idx) ! (i mod 16)) ring_perm s = Ret 0 t"
        "takes s ps pt t qs []" "mem_only s t" "length ps \<le> length qs + 2"
        "\<And>vb. vb < MAXVA \<Longrightarrow> vmap (mem t) pt vb = (if unat vb div 4096 = unat start div 4096 + i
           then ring_pte (rb_bufPA (ringbufs s ! idx) ! (i mod 16)) else vmap (mem s) pt vb)"
      by (rule map_ring_page [OF assms(1) i33 assms(5,6) _ assms(8), where pa = "rb_bufPA (ringbufs s ! idx) ! (i mod 16)"])
        (use room False in auto)
    have "ring_pages (i # js) idx pt start newmap m s = ring_pages js idx pt start newmap m t"
      using False idx t(1) by (auto simp: monad_simps run_get_ring RINGBUF_SIZE_def slot_page_def fills_def)
    with t rings_only_mem [OF t(3)] False show thesis by (intro that [of m t qs]) auto
  qed
qed

definition ring_room :: "bool \<Rightarrow> nat \<Rightarrow> nat" where
  "ring_room newmap i = (if newmap then 16 - i else 0)"

definition ring_frames :: "bool \<Rightarrow> nat \<Rightarrow> addr list \<Rightarrow> addr list \<Rightarrow> addr list" where
  "ring_frames newmap i old bs = (if newmap then take i old @ bs else old)"

lemma ring_room_step: "i < 32 \<Longrightarrow> ring_room newmap i = (if fills newmap i then Suc (ring_room newmap (Suc i)) else ring_room newmap (Suc i))"
  by (auto simp: ring_room_def fills_def RINGBUF_SIZE_def)

lemma ring_frames_step:
  assumes "length old = 16" and "length bs = ring_room newmap (Suc i)"
  shows "ring_frames newmap (Suc i) (if fills newmap i then old[i := b] else old) bs =
    ring_frames newmap i old ((if fills newmap i then [b] else []) @ bs)"
  using assms by (auto simp: ring_frames_def ring_room_def fills_def RINGBUF_SIZE_def take_Suc_conv_app_nth)

lemma ring_frames_keep:
  assumes "length old = 16" and "length bs = ring_room newmap i" and "j < i" and "j < 32"
  shows "ring_frames newmap i old bs ! (j mod 16) = old ! (j mod 16)"
  using assms by (auto simp: ring_frames_def ring_room_def nth_append)

lemma ring_pages_run:
  assumes "slot_ok start" and "i + k = 32" and "idx < length (ringbufs s)" and "length (rb_bufPA (ringbufs s ! idx)) = 16"
    and "kmem_free s ps" and "pt_wf s ps pt" and "2 * k + ring_room newmap i \<le> length ps"
    and "\<forall>j. i \<le> j \<and> j < 32 \<longrightarrow> vmap (mem s) pt (slot_page start j) AND PTE_V = 0"
  shows "\<exists>t qs bs. ring_pages [i..<32] idx pt start newmap m s = Ret 0 t \<and> takes s ps pt t qs bs \<and> rings_only s t \<and>
    length bs = ring_room newmap i \<and> length ps \<le> length qs + 2 * k + ring_room newmap i \<and>
    ringbufs t = (ringbufs s)[idx := (ringbufs s ! idx)\<lparr>rb_bufPA := ring_frames newmap i (rb_bufPA (ringbufs s ! idx)) bs\<rparr>] \<and>
    (\<forall>vb<MAXVA. vmap (mem t) pt vb =
      (if unat start div 4096 + i \<le> unat vb div 4096 \<and> unat vb div 4096 < unat start div 4096 + 32
       then ring_pte (rb_bufPA (ringbufs t ! idx) ! ((unat vb div 4096 - unat start div 4096) mod 16))
       else vmap (mem s) pt vb))"
  using assms
proof (induction k arbitrary: i s ps m)
  case 0
  then have "ring_pages [i..<32] idx pt start newmap m s = Ret 0 s" by (simp add: monad_simps)
  moreover have "takes s ps pt s ps []" using 0 by (intro takes_refl) (auto simp: kmem_free_def)
  moreover have "ring_frames newmap i (rb_bufPA (ringbufs s ! idx)) [] = rb_bufPA (ringbufs s ! idx)" "ring_room newmap i = 0"
    using 0 by (auto simp: ring_frames_def ring_room_def)
  ultimately show ?case using "0.prems"(2,3) by (intro exI [of _ s] exI [of _ ps] exI [of _ "[]"]) auto
next
  case (Suc k)
  let ?old = "rb_bufPA (ringbufs s ! idx)" and ?f = "fills newmap i"
  have i: "i < 32" "Suc i + k = 32" and upt: "[i..<32] = i # [Suc i..<32]" using Suc.prems(2) by (simp_all add: upt_conv_Cons)
  have none: "vmap (mem s) pt (slot_page start i) AND PTE_V = 0" using Suc.prems(8) i(1) by simp
  have room: "(if ?f then 3 else 2) \<le> length ps" using Suc.prems(7) ring_room_step [OF i(1), of newmap] by auto
  obtain t qs b m' where t: "ring_pages [i..<32] idx pt start newmap m s = ring_pages [Suc i..<32] idx pt start newmap m' t"
      "takes s ps pt t qs (if ?f then [b] else [])" "rings_only s t"
      "ringbufs t = (if ?f then put_pa idx i b (ringbufs s) else ringbufs s)"
      "length ps \<le> length qs + (if ?f then 3 else 2)"
      "\<And>vb. vb < MAXVA \<Longrightarrow> vmap (mem t) pt vb = (if unat vb div 4096 = unat start div 4096 + i
        then ring_pte (rb_bufPA (ringbufs t ! idx) ! (i mod 16)) else vmap (mem s) pt vb)"
    unfolding upt by (rule ring_page_turn [OF Suc.prems(1) i(1) Suc.prems(3-6) room none, where m = m and js = "[Suc i..<32]"]) auto
  let ?new = "if ?f then ?old[i := b] else ?old"
  have rt: "ringbufs t = (ringbufs s)[idx := (ringbufs s ! idx)\<lparr>rb_bufPA := ?new\<rparr>]" "rb_bufPA (ringbufs t ! idx) = ?new"
    using t(4) Suc.prems(3) by (auto simp: put_pa_def)
  have free: "kmem_free t qs" "pt_wf t qs pt" using takesD(1-3) [OF t(2)] Suc.prems(5) by (auto simp: kmem_free_def)
  have len: "idx < length (ringbufs t)" "length (rb_bufPA (ringbufs t ! idx)) = 16" using rt Suc.prems(3,4) by auto
  have none: "\<forall>j. Suc i \<le> j \<and> j < 32 \<longrightarrow> vmap (mem t) pt (slot_page start j) AND PTE_V = 0"
    using t(6) slot_page [OF Suc.prems(1)] Suc.prems(8) by auto
  have room: "2 * k + ring_room newmap (Suc i) \<le> length qs"
    using Suc.prems(7) t(5) ring_room_step [OF i(1), of newmap] by (auto split: if_splits)
  obtain u rs bs where u: "ring_pages [Suc i..<32] idx pt start newmap m' t = Ret 0 u" "takes t qs pt u rs bs"
      "rings_only t u" "length bs = ring_room newmap (Suc i)" "length qs \<le> length rs + 2 * k + ring_room newmap (Suc i)"
      "ringbufs u = (ringbufs t)[idx := (ringbufs t ! idx)\<lparr>rb_bufPA := ring_frames newmap (Suc i) ?new bs\<rparr>]"
      "\<forall>vb<MAXVA. vmap (mem u) pt vb =
        (if unat start div 4096 + Suc i \<le> unat vb div 4096 \<and> unat vb div 4096 < unat start div 4096 + 32
         then ring_pte (rb_bufPA (ringbufs u ! idx) ! ((unat vb div 4096 - unat start div 4096) mod 16))
         else vmap (mem t) pt vb)"
    using Suc.IH [OF Suc.prems(1) i(2) len free room none, of m'] unfolding rt(2) by blast
  let ?bs = "(if ?f then [b] else []) @ bs"
  have fr: "ring_frames newmap (Suc i) ?new bs = ring_frames newmap i ?old ?bs"
    using ring_frames_step [OF Suc.prems(4) u(4)] .
  have ru: "ringbufs u = (ringbufs s)[idx := (ringbufs s ! idx)\<lparr>rb_bufPA := ring_frames newmap i ?old ?bs\<rparr>]"
    using u(6) rt Suc.prems(3) by (simp add: fr)
  have "length ?new = 16" using Suc.prems(4) by simp
  then have "rb_bufPA (ringbufs u ! idx) ! (i mod 16) = ?new ! (i mod 16)"
    using ring_frames_keep [OF _ u(4), of ?new i] u(6) rt Suc.prems(3) i(1) by simp
  then have "vmap (mem u) pt vb =
      (if unat start div 4096 + i \<le> unat vb div 4096 \<and> unat vb div 4096 < unat start div 4096 + 32
       then ring_pte (rb_bufPA (ringbufs u ! idx) ! ((unat vb div 4096 - unat start div 4096) mod 16))
       else vmap (mem s) pt vb)" if "vb < MAXVA" for vb
    using u(7) t(6) that i(1) rt(2) by auto
  moreover have "takes s ps pt u rs ?bs" using takes_trans [OF t(2) u(2)] Suc.prems(5) by (simp add: kmem_free_def)
  moreover have "length ?bs = ring_room newmap i" "length ps \<le> length rs + 2 * Suc k + ring_room newmap i"
    using u(4,5) t(5) ring_room_step [OF i(1), of newmap] by (auto split: if_splits)
  ultimately show ?case
    using t(1) u(1) rings_only_trans [OF t(3) u(3)] ru by (intro exI [of _ u] exI [of _ rs] exI [of _ ?bs]) simp
qed

end
