(* ===== verification/RingMap.thy ===== *)
theory RingMap
  imports Ringbuf
begin

text \<open>
  What the functions of \<open>kernel/ringbuf.c\<close> do to the address spaces: opening a ring maps its frames twice
  in a row, a second process sees the same frames, and the last close gives everything back.
\<close>

unbundle bit_operations_syntax

section \<open>Finding a place\<close>

definition slot_start :: "nat \<Rightarrow> uint64" where
  "slot_start k = MAP_START + SPACE_JUMP * of_nat k"

definition slot_used :: "pmem \<Rightarrow> addr \<Rightarrow> nat \<Rightarrow> bool" where
  "slot_used m pt k \<longleftrightarrow> (let v = vmap m pt (slot_start k) in v AND PTE_V \<noteq> 0 \<and> v AND PTE_U \<noteq> 0 \<and> PTE2PA v \<noteq> 0)"

lemma unat_slot_start: "k < 12 \<Longrightarrow> unat (slot_start k) = 274877906944 - 1400832 + 139264 * k"
  by (simp add: slot_start_def MAP_START_def SPACE_JUMP_def MAXVA_def PGSIZE_def unat_word_ariths unat_of_nat)

lemma slot_start_ok: "k < 10 \<Longrightarrow> slot_ok (slot_start k)"
  by (simp add: slot_ok_def unat_slot_start page_aligned_def)

lemma slot_start_less: "k < 10 \<Longrightarrow> slot_start k < MAXVA"
  by (simp add: unat_MAXVA_less unat_slot_start)

lemma slot_start_Suc: "slot_start k + SPACE_JUMP = slot_start (Suc k)"
  by (simp add: slot_start_def algebra_simps)

lemma slot_start_last: "k < 10 \<Longrightarrow> slot_start (Suc k) > MAXMAPLOC \<longleftrightarrow> k = 9"
proof -
  have "unat MAXMAPLOC = 274877906944 - 147456"
    by (simp add: MAXMAPLOC_def MAXVA_def PGSIZE_def)
  then show "k < 10 \<Longrightarrow> slot_start (Suc k) > MAXMAPLOC \<longleftrightarrow> k = 9"
    by (simp add: word_less_nat_alt unat_slot_start) linarith
qed

lemma find_space_from:
  assumes "pt_wf s ps pt" and "k \<le> j" and "j < 10" and "\<forall>i. k \<le> i \<and> i < j \<longrightarrow> slot_used (mem s) pt i"
    and "\<not> slot_used (mem s) pt j"
  shows "find_space pt (slot_start k) s = Ret (Some (slot_start j)) s"
  using assms(2-5)
proof (induction "j - k" arbitrary: k)
  case 0
  then have "walkaddr pt (slot_start k) s = Ret 0 s"
    using walkaddr_run [OF assms(1), of "slot_start k"] slot_start_less [of k]
    by (auto simp: slot_used_def Let_def)
  with 0 show ?case by (simp add: find_space.simps monad_simps)
next
  case (Suc d)
  then have used: "slot_used (mem s) pt k" and k: "k < 9" by auto
  then have "walkaddr pt (slot_start k) s = Ret (PTE2PA (vmap (mem s) pt (slot_start k))) s"
    using walkaddr_run [OF assms(1), of "slot_start k"] slot_start_less [of k] by (simp add: slot_used_def Let_def)
  moreover have "PTE2PA (vmap (mem s) pt (slot_start k)) \<noteq> 0" using used by (simp add: slot_used_def Let_def)
  ultimately have "find_space pt (slot_start k) s = find_space pt (slot_start (Suc k)) s"
    using slot_start_last [of k] k by (subst find_space.simps) (simp add: monad_simps slot_start_Suc)
  also have "\<dots> = Ret (Some (slot_start j)) s" using Suc by (intro Suc.hyps) auto
  finally show ?case .
qed

lemma find_space_run:
  assumes "pt_wf s ps pt" and "j < 10" and "\<forall>i<j. slot_used (mem s) pt i" and "\<not> slot_used (mem s) pt j"
  shows "find_space pt MAP_START s = Ret (Some (slot_start j)) s"
  using find_space_from [OF assms(1), of 0 j] assms(2-4) by (simp add: slot_start_def)

section \<open>Mapping\<close>

text \<open>The translations of an address space with the ring \<open>r\<close> at \<open>start\<close>, over \<open>f\<close>.\<close>

definition ring_view :: "ringbuf \<Rightarrow> uint64 \<Rightarrow> (uint64 \<Rightarrow> uint64) \<Rightarrow> uint64 \<Rightarrow> uint64" where
  "ring_view r start f vb =
     (let i = unat vb div 4096 - unat start div 4096 in
      if unat start div 4096 \<le> unat vb div 4096 \<and> i < 32 then ring_pte (rb_bufPA r ! (i mod 16))
      else if unat vb div 4096 = unat start div 4096 + 32 then ring_pte (rb_book r)
      else f vb)"

definition mapped_ring :: "bool \<Rightarrow> ringbuf \<Rightarrow> uint64 \<Rightarrow> addr list \<Rightarrow> ringbuf" where
  "mapped_ring newmap r start bs = r\<lparr>rb_vabuf := start,
     rb_bufPA := (if newmap then take 16 bs else rb_bufPA r), rb_book := (if newmap then bs ! 16 else rb_book r)\<rparr>"

definition mapper_needs :: "bool \<Rightarrow> nat" where
  "mapper_needs newmap = (if newmap then 83 else 66)"

text \<open>The bookkeeping page, after the pages of the ring.\<close>

definition map_book :: "nat \<Rightarrow> addr \<Rightarrow> uint64 \<Rightarrow> bool \<Rightarrow> ('z rstate_scheme, int) kfun" where
  "map_book idx pt start newmap =
     thn (if newmap then bnd kalloc (\<lambda>m. set_ring idx (\<lambda>r. r\<lparr>rb_book := m\<rparr>)) else ret ())
         (bnd (get_ring idx) (\<lambda>r.
          bnd (mappages pt (slot_page start 32) PGSIZE (rb_book r) ring_perm) (\<lambda>e.
            if e \<noteq> 0 then panic ''map failed'' else ret 0)))"

lemma map_book_run:
  assumes "slot_ok start" and idx: "idx < length (ringbufs s)" and "kmem_free s ps" and "pt_wf s ps pt"
    and "(if newmap then 3 else 2) \<le> length ps" and "vmap (mem s) pt (slot_page start 32) AND PTE_V = 0"
  obtains t qs b where "map_book idx pt start newmap s = Ret 0 t" and "takes s ps pt t qs (if newmap then [b] else [])"
    and "rings_only s t" and "ringbufs t = (if newmap then (ringbufs s)[idx := (ringbufs s ! idx)\<lparr>rb_book := b\<rparr>] else ringbufs s)"
    and "length ps \<le> length qs + (if newmap then 3 else 2)"
    and "\<And>vb. vb < MAXVA \<Longrightarrow> vmap (mem t) pt vb = (if unat vb div 4096 = unat start div 4096 + 32
      then ring_pte (rb_book (ringbufs t ! idx)) else vmap (mem s) pt vb)"
proof (cases newmap)
  case True
  obtain b ps' where ps: "ps = b # ps'" "2 \<le> length ps'" using assms(5) True by (cases ps) auto
  obtain s1 where s1: "kalloc s = Ret b s1" "takes s (b # ps') pt s1 ps' [b]" "mem_only s s1"
      "\<And>va. vmap (mem s1) pt va = vmap (mem s) pt va"
    using takes_kalloc [OF assms(3) [unfolded ps(1)] assms(4) [unfolded ps(1)]] by metis
  let ?rs = "(ringbufs s)[idx := (ringbufs s ! idx)\<lparr>rb_book := b\<rparr>]"
  let ?s2 = "s1\<lparr>ringbufs := ?rs\<rparr>"
  have r1: "ringbufs s1 = ringbufs s" using rings_only_mem [OF s1(3)] by simp
  have k2: "takes s (b # ps') pt ?s2 ps' [b]" by (rule takes_cong [OF s1(2)]) simp_all
  have free2: "kmem_free ?s2 ps'" "pt_wf ?s2 ps' pt"
    using takesD(1-3) [OF k2] assms(3) by (auto simp: kmem_free_def)
  have none: "vmap (mem ?s2) pt (slot_page start 32) AND PTE_V = 0" using s1(4) assms(6) by simp
  obtain t qs where t: "mappages pt (slot_page start 32) PGSIZE b ring_perm ?s2 = Ret 0 t"
      "takes ?s2 ps' pt t qs []" "mem_only ?s2 t" "length ps' \<le> length qs + 2"
      "\<And>vb. vb < MAXVA \<Longrightarrow> vmap (mem t) pt vb =
        (if unat vb div 4096 = unat start div 4096 + 32 then ring_pte b else vmap (mem ?s2) pt vb)"
    by (rule map_ring_page [OF assms(1) _ free2 ps(2) none, where pa = b]) auto
  have rt: "ringbufs t = ?rs" using rings_only_mem [OF t(3)] by simp
  have only: "rings_only s t"
    using rings_only_trans [OF rings_only_trans [OF _ rings_only_rings]] rings_only_mem [OF s1(3)] rings_only_mem [OF t(3)] by blast
  have "map_book idx pt start newmap s = Ret 0 t"
    using True s1(1) idx t(1) r1 by (simp add: map_book_def monad_simps run_set_ring run_get_ring)
  moreover have "takes s ps pt t qs [b]"
    using takes_trans [OF k2 t(2)] assms(3) ps(1) by (simp add: kmem_free_def)
  ultimately show thesis using that [of t qs b] True only rt t(4,5) s1(4) idx ps(1) by simp
next
  case False
  then have room: "2 \<le> length ps" using assms(5) by simp
  obtain t qs where t: "mappages pt (slot_page start 32) PGSIZE (rb_book (ringbufs s ! idx)) ring_perm s = Ret 0 t"
      "takes s ps pt t qs []" "mem_only s t" "length ps \<le> length qs + 2"
      "\<And>vb. vb < MAXVA \<Longrightarrow> vmap (mem t) pt vb = (if unat vb div 4096 = unat start div 4096 + 32
         then ring_pte (rb_book (ringbufs s ! idx)) else vmap (mem s) pt vb)"
    by (rule map_ring_page [OF assms(1) _ assms(3,4) room assms(6), where pa = "rb_book (ringbufs s ! idx)"]) auto
  have "map_book idx pt start newmap s = Ret 0 t"
    using False idx t(1) by (simp add: map_book_def monad_simps run_get_ring)
  with t rings_only_mem [OF t(3)] False show thesis by (intro that [of t qs 0]) auto
qed

lemma mapper_unfold:
  assumes "cur s = Some c" and "pt = p_pagetable (procs s ! c)" and "find_space pt MAP_START s = Ret (Some start) s"
    and "idx < length (ringbufs s)"
  shows "processSpace_mapper idx newmap s =
    bnd (ring_pages [0..<32] idx pt start newmap 0) (\<lambda>e. if e \<noteq> 0 then ret (- 1) else map_book idx pt start newmap)
      (s\<lparr>ringbufs := (ringbufs s)[idx := (ringbufs s ! idx)\<lparr>rb_vabuf := start\<rparr>]\<rparr>)"
proof -
  have n: "RINGBUF_SIZE * 2 = 32" by (simp add: RINGBUF_SIZE_def)
  show ?thesis
    unfolding processSpace_mapper_def map_book_def slot_page_def n assms(2)
    using assms(1,3,4) [unfolded assms(2)] by (simp add: proc_run run_set_ring del: if_split)
qed

lemma mapper_run:
  assumes "kmem_free s ps" and "cur s = Some c" and "pt = p_pagetable (procs s ! c)" and "pt_wf s ps pt"
    and idx: "idx < length (ringbufs s)" "length (rb_bufPA (ringbufs s ! idx)) = 16"
    and k: "k < 10" "\<forall>j<k. slot_used (mem s) pt j" and none: "\<forall>i<33. vmap (mem s) pt (slot_page (slot_start k) i) AND PTE_V = 0"
    and room: "mapper_needs newmap \<le> length ps"
  obtains t qs bs where "processSpace_mapper idx newmap s = Ret 0 t" and "takes s ps pt t qs bs" and "rings_only s t"
    and "length bs = (if newmap then 17 else 0)" and "length ps \<le> length qs + mapper_needs newmap"
    and "ringbufs t = (ringbufs s)[idx := mapped_ring newmap (ringbufs s ! idx) (slot_start k) bs]"
    and "\<And>vb. vb < MAXVA \<Longrightarrow> vmap (mem t) pt vb = ring_view (ringbufs t ! idx) (slot_start k) (vmap (mem s) pt) vb"
proof -
  let ?start = "slot_start k"
  let ?s1 = "s\<lparr>ringbufs := (ringbufs s)[idx := (ringbufs s ! idx)\<lparr>rb_vabuf := ?start\<rparr>]\<rparr>"
  note ok = slot_start_ok [OF k(1)]
  have "slot_page ?start 0 = ?start" by (simp add: slot_page_def)
  then have "\<not> slot_used (mem s) pt k" using none [rule_format, of 0] by (simp add: slot_used_def Let_def)
  then have run: "processSpace_mapper idx newmap s =
    bnd (ring_pages [0..<32] idx pt ?start newmap 0) (\<lambda>e. if e \<noteq> 0 then ret (- 1) else map_book idx pt ?start newmap) ?s1"
    using mapper_unfold [OF assms(2,3) find_space_run [OF assms(4) k] idx(1)] by simp
  have s1: "kmem_free ?s1 ps" "pt_wf ?s1 ps pt" "idx < length (ringbufs ?s1)" "length (rb_bufPA (ringbufs ?s1 ! idx)) = 16"
      "2 * 32 + ring_room newmap 0 \<le> length ps"
    using assms(1,4) idx room by (auto simp: kmem_free_def kmem_inv_def pt_wf_def ring_room_def mapper_needs_def split: if_splits)
  obtain t1 qs1 bs1 where t1: "ring_pages [0..<32] idx pt ?start newmap 0 ?s1 = Ret 0 t1" "takes ?s1 ps pt t1 qs1 bs1" "rings_only ?s1 t1"
      "length bs1 = ring_room newmap 0" "length ps \<le> length qs1 + 2 * 32 + ring_room newmap 0"
      "ringbufs t1 = (ringbufs ?s1)[idx := (ringbufs ?s1 ! idx)\<lparr>rb_bufPA := ring_frames newmap 0 (rb_bufPA (ringbufs ?s1 ! idx)) bs1\<rparr>]"
      "\<forall>vb<MAXVA. vmap (mem t1) pt vb =
        (if unat ?start div 4096 + 0 \<le> unat vb div 4096 \<and> unat vb div 4096 < unat ?start div 4096 + 32
         then ring_pte (rb_bufPA (ringbufs t1 ! idx) ! ((unat vb div 4096 - unat ?start div 4096) mod 16))
         else vmap (mem ?s1) pt vb)"
    using ring_pages_run [OF ok _ s1(3,4,1,2,5), of 0] none by auto
  have free1: "kmem_free t1 qs1" "pt_wf t1 qs1 pt" using takesD(1-3) [OF t1(2)] assms(1) by (auto simp: kmem_free_def)
  have l1: "idx < length (ringbufs t1)" "(if newmap then 3 else 2) \<le> length qs1"
    using idx t1(5,6) room by (auto simp: mapper_needs_def ring_room_def split: if_splits)
  have none1: "vmap (mem t1) pt (slot_page ?start 32) AND PTE_V = 0"
    using t1(7) slot_page [OF ok, of 32] none by simp
  obtain t qs b where t: "map_book idx pt ?start newmap t1 = Ret 0 t" "takes t1 qs1 pt t qs (if newmap then [b] else [])"
      "rings_only t1 t" "ringbufs t = (if newmap then (ringbufs t1)[idx := (ringbufs t1 ! idx)\<lparr>rb_book := b\<rparr>] else ringbufs t1)"
      "length qs1 \<le> length qs + (if newmap then 3 else 2)"
      "\<And>vb. vb < MAXVA \<Longrightarrow> vmap (mem t) pt vb = (if unat vb div 4096 = unat ?start div 4096 + 32
        then ring_pte (rb_book (ringbufs t ! idx)) else vmap (mem t1) pt vb)"
    by (rule map_book_run [OF ok l1(1) free1 l1(2) none1]) auto
  let ?bs = "bs1 @ (if newmap then [b] else [])"
  have rt: "ringbufs t = (ringbufs s)[idx := mapped_ring newmap (ringbufs s ! idx) ?start ?bs]"
    using t(4) t1(4,6) idx by (auto simp: mapped_ring_def ring_frames_def ring_room_def nth_append)
  have "rb_bufPA (ringbufs t ! idx) = rb_bufPA (ringbufs t1 ! idx)" using t(4) l1(1) by simp
  then have "vmap (mem t) pt vb = ring_view (ringbufs t ! idx) ?start (vmap (mem s) pt) vb" if "vb < MAXVA" for vb
    using t(6) [OF that] t1(7) that by (auto simp: ring_view_def Let_def)
  moreover have "takes s ps pt t qs ?bs"
  proof -
    have "takes ?s1 ps pt t qs ?bs" using takes_trans [OF t1(2) t(2)] s1(1) by (simp add: kmem_free_def)
    then show ?thesis by (simp add: takes_def)
  qed
  moreover have "rings_only s t" using rings_only_trans [OF rings_only_rings rings_only_trans [OF t1(3) t(3)]] .
  moreover have "processSpace_mapper idx newmap s = Ret 0 t" using run t1(1) t(1) by (simp add: monad_simps)
  moreover have "length ps \<le> length qs + mapper_needs newmap"
    using t(5) t1(5) by (auto simp: mapper_needs_def ring_room_def split: if_splits)
  ultimately show thesis using that [of t qs ?bs] rt t1(4) by (simp add: ring_room_def)
qed

section \<open>What user code sees\<close>

lemma ring_pte_pa:
  assumes "page_aligned b"
  shows "PTE2PA (ring_pte b) = b" and "ring_pte b AND PTE_V \<noteq> 0" and "ring_pte b AND PTE_U \<noteq> 0"
    and "PTE_FLAGS (ring_pte b) \<noteq> PTE_V"
proof -
  have f: "ring_perm OR PTE_V = 0x17" by (simp add: PTE_U_def PTE_R_def PTE_W_def PTE_V_def)
  have e: "ring_pte b = PA2PTE b OR 0x17" unfolding ring_pte_def f ..
  show "PTE2PA (ring_pte b) = b" unfolding e using assms by (intro PTE2PA_PA2PTE) simp_all
  have "bit (0x17 :: uint64) 0" "bit (0x17 :: uint64) 1" "bit (0x17 :: uint64) 4" by simp_all
  then have b: "bit (ring_pte b) 0" "bit (ring_pte b) 1" "bit (ring_pte b) 4"
    unfolding e bit_or_iff by blast+
  have m: "bit PTE_V 0" "bit PTE_U 4" "bit (0x3FF :: uint64) 1" by (simp_all add: PTE_V_def PTE_U_def bit_push_bit_iff)
  have "bit (ring_pte b AND PTE_V) 0" "bit (ring_pte b AND PTE_U) 4" "bit (PTE_FLAGS (ring_pte b)) 1"
    unfolding bit_and_iff PTE_FLAGS_def using b m by blast+
  moreover have "\<not> bit PTE_V 1" by (simp add: PTE_V_def)
  ultimately show "ring_pte b AND PTE_V \<noteq> 0" "ring_pte b AND PTE_U \<noteq> 0" "PTE_FLAGS (ring_pte b) \<noteq> PTE_V"
    by auto
qed

text \<open>Page \<open>i\<close> of a ring: its 16 frames twice, then the bookkeeping page.\<close>

definition ring_page :: "ringbuf \<Rightarrow> nat \<Rightarrow> addr" where
  "ring_page r i = (if i < 32 then rb_bufPA r ! (i mod 16) else rb_book r)"

lemma ring_view_page:
  assumes "unat vb div 4096 = unat start div 4096 + i" and "i < 33"
  shows "ring_view r start f vb = ring_pte (ring_page r i)"
  using assms by (auto simp: ring_view_def ring_page_def Let_def)

lemma ring_view_other:
  assumes "unat vb div 4096 < unat start div 4096 \<or> unat start div 4096 + 33 \<le> unat vb div 4096"
  shows "ring_view r start f vb = f vb"
  using assms by (auto simp: ring_view_def Let_def)

lemma slot_byte:
  assumes "slot_ok start" and "x < 33 * 4096"
  shows "start + of_nat x < MAXVA" and "unat (start + of_nat x) div 4096 = unat start div 4096 + x div 4096"
    and "unat (start + of_nat x) mod 4096 = x mod 4096"
proof -
  have u: "unat (start + of_nat x) = unat start + x"
    using assms by (simp add: slot_ok_def unat_word_ariths unat_of_nat)
  obtain j where j: "unat start = 4096 * j" using assms(1) by (auto simp: slot_ok_def page_aligned_def)
  show "start + of_nat x < MAXVA" using u assms by (simp add: slot_ok_def unat_MAXVA_less)
  show "unat (start + of_nat x) div 4096 = unat start div 4096 + x div 4096"
    "unat (start + of_nat x) mod 4096 = x mod 4096" using u j by simp_all
qed

lemma ring_user:
  assumes "slot_ok start" and "\<And>vb. vb < MAXVA \<Longrightarrow> vmap m pt vb = ring_view r start f vb" and "x < 33 * 4096"
    and "frame_ok e (ring_page r (x div 4096))" and "0 < e"
  shows "user_ok m pt (start + of_nat x)"
    and "user_pa m pt (start + of_nat x) = ring_page r (x div 4096) + of_nat (x mod 4096)"
proof -
  let ?b = "ring_page r (x div 4096)"
  note b = slot_byte [OF assms(1,3)]
  have "x div 4096 < 33" using assms(3) by (simp add: less_mult_imp_div_less)
  with b(2) have v: "vmap m pt (start + of_nat x) = ring_pte ?b"
    using assms(2) [OF b(1)] ring_view_page by simp
  have al: "page_aligned ?b" and nz: "?b \<noteq> 0" "?b < PHYSTOP" using assms(4,5) by (auto simp: frame_ok_def)
  note p = ring_pte_pa [OF al]
  show "user_ok m pt (start + of_nat x)" using b(1) v p nz by (simp add: user_ok_def)
  have "start + of_nat x - PGROUNDDOWN (start + of_nat x) = of_nat (x mod 4096)"
    using arg_cong [OF unat_off [of "start + of_nat x"], of "of_nat :: nat \<Rightarrow> uint64"] b(3) by simp
  then show "user_pa m pt (start + of_nat x) = ?b + of_nat (x mod 4096)"
    by (simp add: user_pa_def v p)
qed

section \<open>Closing\<close>

lemma unmap_pages_run:
  assumes "slot_ok start" and "i + d = n" and "n \<le> 33" and "kmem_free s ps" and "pt_wf s ps pt"
    and "\<forall>j. i \<le> j \<and> j < n \<longrightarrow> vmap (mem s) pt (slot_page start j) = ring_pte (g j) \<and> page_aligned (g j)"
    and "do_free \<longrightarrow> freeable s ps pt (map g [i..<n])"
  shows "\<exists>t. for_each [i..<n] (\<lambda>j. uvmunmap pt (slot_page start j) 1 do_free) s = Ret () t \<and>
    releases s ps pt t (if do_free then rev (map g [i..<n]) else []) \<and>
    (\<forall>vb<MAXVA. vmap (mem t) pt vb = (if unat start div 4096 + i \<le> unat vb div 4096 \<and>
       unat vb div 4096 < unat start div 4096 + n then 0 else vmap (mem s) pt vb))"
  using assms(2-)
proof (induction d arbitrary: i s ps)
  case 0
  then show ?case by (auto simp: monad_simps kmem_free_def intro!: releases_refl)
next
  case (Suc d)
  have i: "i < n" "i < 33" and upt: "[i..<n] = i # [Suc i..<n]" using Suc.prems(1,2) by (auto simp: upt_conv_Cons)
  note p = slot_page [OF assms(1) i(2)]
  have inv: "kmem_inv s ps" "KmemLock \<notin> set (held s)" using Suc.prems(3) by (auto simp: kmem_free_def)
  have g: "vmap (mem s) pt (slot_page start i) = ring_pte (g i)" "page_aligned (g i)" using Suc.prems(5) i(1) by auto
  have fr: "mapped_frames (mem s) pt (slot_page start i) 1 = [g i]"
    by (simp add: mapped_frames_def frame_of_def g ring_pte_pa)
  have leaf: "leaf_range (mem s) pt (slot_page start i) 1"
    using ring_pte_pa [OF g(2)] by (simp add: leaf_range_def g Let_def)
  have room: "unat (slot_page start i) + 4096 * 1 \<le> 2 ^ 38" using p(3) i(2) assms(1) by (simp add: slot_ok_def)
  have fre: "freeable s ps pt (mapped_frames (mem s) pt (slot_page start i) 1)" if do_free
    unfolding fr using Suc.prems(6) that upt by (auto simp: freeable_def)
  obtain t where t0: "uvmunmap pt (slot_page start i) (of_nat 1) do_free s = Ret () t"
      "releases s ps pt t (if do_free then rev [g i] else [])"
      "\<And>vb. vb < MAXVA \<Longrightarrow> vmap (mem t) pt vb = (if unat start div 4096 + i \<le> unat vb div 4096 \<and>
        unat vb div 4096 < unat start div 4096 + i + 1 then 0 else vmap (mem s) pt vb)"
    using uvmunmap_run [OF p(1) room inv(1) Suc.prems(4) inv(2) leaf, of do_free] fre unfolding fr p(4) by blast
  have t: "uvmunmap pt (slot_page start i) 1 do_free s = Ret () t" "releases s ps pt t (if do_free then [g i] else [])"
      "\<And>vb. vb < MAXVA \<Longrightarrow> vmap (mem t) pt vb =
        (if unat vb div 4096 = unat start div 4096 + i then 0 else vmap (mem s) pt vb)"
    using t0 by auto
  note rel = releasesD [OF t(2)]
  let ?qs = "(if do_free then [g i] else []) @ ps"
  have free: "kmem_free t ?qs" using rel(1,3) inv(2) by (simp add: kmem_free_def)
  have keep: "\<forall>j. Suc i \<le> j \<and> j < n \<longrightarrow> vmap (mem t) pt (slot_page start j) = ring_pte (g j) \<and> page_aligned (g j)"
    using Suc.prems(2,5) t(3) slot_page [OF assms(1)] by auto
  have "do_free \<longrightarrow> freeable t ?qs pt (map g [Suc i..<n])"
    using Suc.prems(6) freeable_step [OF _ t(2)] upt by auto
  with Suc.IH [of "Suc i" t ?qs] Suc.prems(1,2) free rel(2) keep
  obtain u where u: "for_each [Suc i..<n] (\<lambda>j. uvmunmap pt (slot_page start j) 1 do_free) t = Ret () u"
      "releases t ?qs pt u (if do_free then rev (map g [Suc i..<n]) else [])"
      "\<forall>vb<MAXVA. vmap (mem u) pt vb = (if unat start div 4096 + Suc i \<le> unat vb div 4096 \<and>
       unat vb div 4096 < unat start div 4096 + n then 0 else vmap (mem t) pt vb)"
    by auto
  have "vmap (mem u) pt vb = (if unat start div 4096 + i \<le> unat vb div 4096 \<and>
       unat vb div 4096 < unat start div 4096 + n then 0 else vmap (mem s) pt vb)" if "vb < MAXVA" for vb
    using u(3) t(3) [OF that] that i(1) by auto
  moreover have "releases s ps pt u (if do_free then rev (map g [i..<n]) else [])"
    using releases_trans [OF t(2) u(2)] upt by (auto split: if_splits)
  ultimately show ?case using t(1) u(1) by (simp add: upt monad_simps)
qed

lemma closebuf_unmap_run:
  assumes "slot_ok start" and "kmem_free s ps" and "pt_wf s ps pt" and len: "length (rb_bufPA r) = 16"
    and view: "\<forall>i<33. vmap (mem s) pt (slot_page start i) = ring_pte (ring_page r i) \<and> page_aligned (ring_page r i)"
    and fr: "do_free \<longrightarrow> freeable s ps pt (rb_bufPA r @ [rb_book r])"
  obtains t where "closebuf_unmap pt start do_free s = Ret () t"
    and "releases s ps pt t (if do_free then rb_book r # rev (rb_bufPA r) else [])"
    and "\<And>vb. vb < MAXVA \<Longrightarrow> vmap (mem t) pt vb = (if unat start div 4096 \<le> unat vb div 4096 \<and>
       unat vb div 4096 < unat start div 4096 + 33 then 0 else vmap (mem s) pt vb)"
proof -
  have m: "map (ring_page r) [0..<16] = rb_bufPA r"
    using len by (intro nth_equalityI) (simp_all add: ring_page_def)
  have "do_free \<longrightarrow> freeable s ps pt (map (ring_page r) [0..<16])"
    using fr unfolding m by (auto simp: freeable_def)
  then obtain t1 where t1: "for_each [0..<16] (\<lambda>j. uvmunmap pt (slot_page start j) 1 do_free) s = Ret () t1"
      "releases s ps pt t1 (if do_free then rev (rb_bufPA r) else [])"
      "\<forall>vb<MAXVA. vmap (mem t1) pt vb = (if unat start div 4096 + 0 \<le> unat vb div 4096 \<and>
       unat vb div 4096 < unat start div 4096 + 16 then 0 else vmap (mem s) pt vb)"
    using unmap_pages_run [OF assms(1) _ _ assms(2,3), of 0 16 16 "ring_page r" do_free] view unfolding m by auto
  note r1 = releasesD [OF t1(2)]
  let ?q1 = "(if do_free then rev (rb_bufPA r) else []) @ ps"
  have free1: "kmem_free t1 ?q1" using r1(1,3) assms(2) by (simp add: kmem_free_def)
  have view1: "vmap (mem t1) pt (slot_page start j) = ring_pte (ring_page r j) \<and> page_aligned (ring_page r j)"
    if "16 \<le> j" "j < 33" for j
    using that t1(3) view slot_page [OF assms(1) that(2)] by auto
  then obtain t2 where t2: "for_each [16..<32] (\<lambda>j. uvmunmap pt (slot_page start j) 1 False) t1 = Ret () t2"
      "releases t1 ?q1 pt t2 []"
      "\<forall>vb<MAXVA. vmap (mem t2) pt vb = (if unat start div 4096 + 16 \<le> unat vb div 4096 \<and>
       unat vb div 4096 < unat start div 4096 + 32 then 0 else vmap (mem t1) pt vb)"
    using unmap_pages_run [OF assms(1) _ _ free1 r1(2), of 16 16 32 "ring_page r" False] by auto
  note r2 = releasesD [OF t2(2), unfolded append_Nil]
  have free2: "kmem_free t2 ?q1" using r2(1,3) free1 by (simp add: kmem_free_def)
  have view2: "vmap (mem t2) pt (slot_page start j) = ring_pte (ring_page r j) \<and> page_aligned (ring_page r j)"
    if "32 \<le> j" "j < 33" for j
    using that t2(3) view1 slot_page [OF assms(1) that(2)] by auto
  have book: "ring_page r 32 = rb_book r" by (simp add: ring_page_def)
  have one: "[32..<33] = [32::nat]" by (simp add: upt_rec)
  have m1: "map (ring_page r) [32..<33] = [rb_book r]" by (simp add: one book)
  have "do_free \<longrightarrow> freeable t2 ?q1 pt (map (ring_page r) [32..<33])"
    unfolding m1 using fr r1(4,5) r2(4,5) by (auto simp: freeable_def)
  then obtain t3 where t3: "for_each [32..<33] (\<lambda>j. uvmunmap pt (slot_page start j) 1 do_free) t2 = Ret () t3"
      "releases t2 ?q1 pt t3 (if do_free then rev [rb_book r] else [])"
      "\<forall>vb<MAXVA. vmap (mem t3) pt vb = (if unat start div 4096 + 32 \<le> unat vb div 4096 \<and>
       unat vb div 4096 < unat start div 4096 + 33 then 0 else vmap (mem t2) pt vb)"
    using unmap_pages_run [OF assms(1) _ _ free2 r2(2), of 32 1 33 "ring_page r" do_free] view2 unfolding m1 by auto
  have "uvmunmap pt (slot_page start 32) 1 do_free t2 = Ret () t3" using t3(1) by (simp add: one thn_Ret_iff run_ret)
  then have "closebuf_unmap pt start do_free s = Ret () t3"
    using t1(1) t2(1) by (simp add: closebuf_unmap_def RINGBUF_SIZE_def slot_page_def monad_simps)
  moreover have "releases s ps pt t3 (if do_free then rb_book r # rev (rb_bufPA r) else [])"
    using releases_trans [OF releases_trans [OF t1(2) t2(2)], of t3 "if do_free then rev [rb_book r] else []"] t3(2) by (auto split: if_splits)
  moreover have "vmap (mem t3) pt vb = (if unat start div 4096 \<le> unat vb div 4096 \<and>
       unat vb div 4096 < unat start div 4096 + 33 then 0 else vmap (mem s) pt vb)" if "vb < MAXVA" for vb
    using t1(3) t2(3) t3(3) that by auto
  ultimately show thesis using that by blast
qed

end
