(* ===== verification/RingOpen.thy ===== *)
theory RingOpen
  imports RingMap
begin

text \<open>
  Opening and closing rings by name: the table of rings, \<open>createbuf\<close> on a new name, on a name that
  another process has opened, and \<open>closebuf\<close>.
\<close>

unbundle bit_operations_syntax

section \<open>The table\<close>

definition name_of :: "ringbuf \<Rightarrow> uchar list" where
  "name_of r = takeWhile (\<lambda>c. c \<noteq> 0) (rb_name r)"

definition ring_ok :: "ringbuf \<Rightarrow> bool" where
  "ring_ok r \<longleftrightarrow> length (rb_name r) = 16 \<and> 0 \<in> set (rb_name r) \<and> length (rb_pidsRW r) = 2 \<and> length (rb_bufPA r) = 16"

definition rings_ok :: "'z rstate_scheme \<Rightarrow> bool" where
  "rings_ok s \<longleftrightarrow> length (ringbufs s) = MAX_RINGBUFS \<and> (\<forall>r\<in>set (ringbufs s). ring_ok r)"

lemma rings_okD: "rings_ok s \<Longrightarrow> i < MAX_RINGBUFS \<Longrightarrow> i < length (ringbufs s) \<and> ring_ok (ringbufs s ! i)"
  by (simp add: rings_ok_def)

lemma rings_ok_update: "rings_ok s \<Longrightarrow> ring_ok r \<Longrightarrow> ringbufs t = (ringbufs s)[i := r] \<Longrightarrow> rings_ok t"
  using set_update_subset_insert [of "ringbufs s" i r] by (auto simp: rings_ok_def)

lemma c_string_name:
  assumes "ring_ok r"
  shows "c_string (arr (rb_name r)) (name_of r)"
proof -
  have "\<exists>c\<in>set (rb_name r). c = 0" using assms by (auto simp: ring_ok_def)
  from split_list_first_prop [OF this] obtain ys zs where "rb_name r = ys @ 0 # zs" "\<forall>y\<in>set ys. y \<noteq> 0" by blast
  then have "name_of r = ys" "c_string (arr (rb_name r)) ys"
    using c_string_arr [of ys zs] by (auto simp: name_of_def)
  then show ?thesis by simp
qed

lemma name_of_unique: "ring_ok r \<Longrightarrow> c_string (arr (rb_name r)) cs \<Longrightarrow> name_of r = cs"
  using c_string_unique c_string_name by blast

lemma find_name_run:
  assumes "rings_ok s" and "c_string straddr cs" and "\<forall>i\<in>set js. i < MAX_RINGBUFS"
  shows "find_name js straddr s = Ret (find (\<lambda>i. name_of (ringbufs s ! i) = cs) js) s"
  using assms(3)
proof (induction js)
  case (Cons i js)
  then have i: "i < length (ringbufs s)" "ring_ok (ringbufs s ! i)" using rings_okD [OF assms(1)] by auto
  have "strcmp straddr (arr (rb_name (ringbufs s ! i))) = Some (str_diff cs (name_of (ringbufs s ! i)))"
    using strcmp_eq [OF assms(2) c_string_name [OF i(2)]] .
  moreover have "str_diff cs (name_of (ringbufs s ! i)) = 0 \<longleftrightarrow> name_of (ringbufs s ! i) = cs"
    using str_diff_0_iff assms(2) c_string_name [OF i(2)] by (auto simp: c_string_def)
  ultimately show ?case using Cons i(1) by (simp add: run_get_ring monad_simps lift_option_def)
qed (simp add: monad_simps)

lemma find_name_prefix:
  assumes "rings_ok s" and "c_string straddr cs" and "\<forall>i\<in>set js. i < MAX_RINGBUFS"
    and "find (\<lambda>i. name_of (ringbufs s ! i) = cs) js = Some i"
  shows "find_name (js @ js') straddr s = Ret (Some i) s"
  using assms(3,4)
proof (induction js)
  case (Cons j js)
  then have j: "find_name [j] straddr s = Ret (find (\<lambda>i. name_of (ringbufs s ! i) = cs) [j]) s"
    by (intro find_name_run [OF assms(1,2)]) simp
  with Cons show ?case
    by (auto simp: returns_iff get_ring_Ret run_get_ring monad_simps lift_option_def split: if_splits option.splits)
qed simp

lemma find_unused_run:
  assumes "rings_ok s" and "\<forall>i\<in>set js. i < MAX_RINGBUFS"
  shows "find_unused js s = Ret (find (\<lambda>i. rb_refcount (ringbufs s ! i) = 0) js) s"
  using assms(2)
proof (induction js)
  case (Cons i js)
  then have "i < length (ringbufs s)" using rings_okD [OF assms(1)] by auto
  with Cons show ?case by (simp add: run_get_ring monad_simps)
qed (simp add: monad_simps)

section \<open>createbuf\<close>

lemma copyout_total: "\<exists>r t. copyout pt dst src len s = Ret r t \<and> mem_only s t"
proof (induction pt dst src len s rule: copyout.induct)
  case (1 pt dst src len s)
  have "\<exists>pa. walkaddr pt (PGROUNDDOWN dst) s = Ret pa s"
    by (cases "PGROUNDDOWN dst < MAXVA")
      (auto simp: walkaddr_def walk_lookup monad_simps load_pte_def not_le split: option.split)
  then obtain pa where pa: "walkaddr pt (PGROUNDDOWN dst) s = Ret pa s" ..
  show ?case
  proof (cases "len > 0 \<and> pa \<noteq> 0")
    case True
    let ?n = "chunk dst len"
    let ?u = "s\<lparr>mem := mymemmove (mem s) (pa + (dst - PGROUNDDOWN dst)) src (ucast ?n)\<rparr>"
    have step: "copyout pt dst src len s = copyout pt (PGROUNDDOWN dst + PGSIZE) (src + ?n) (len - ?n) ?u"
      using True pa by (subst copyout.simps) (simp add: monad_simps Let_def)
    have "\<exists>r t. copyout pt (PGROUNDDOWN dst + PGSIZE) (src + ?n) (len - ?n) ?u = Ret r t \<and> mem_only ?u t"
      by (rule "1.IH" [OF _ pa]) (use True in \<open>auto simp: monad_simps\<close>)
    with step show ?thesis using mem_only_trans [OF mem_only_updates(2)] by metis
  next
    case False
    with pa show ?thesis by (subst copyout.simps) (auto simp: monad_simps)
  qed
qed

lemma createbuf_done_run:
  assumes "cur s = Some c" and "idx < length (ringbufs s)" and "RingbufLock \<in> set (held s)" and "ProcLock c \<notin> set (held s)"
  shows "\<exists>f m. createbuf_done idx retvaddr exists s = Ret exists (s\<lparr>procs := (procs s)[c := (procs s ! c)\<lparr>p_validRingBuf := 1\<rparr>],
    held := remove1 RingbufLock (held s), freelist := f, mem := m\<rparr>)"
proof -
  let ?a = "ringbufs_at s + of_nat (176 * idx + 160)"
  let ?s1 = "s\<lparr>mem := store64 (mem s) ?a (rb_vabuf (ringbufs s ! idx))\<rparr>"
  obtain r t where t: "copyout (p_pagetable (procs s ! c)) retvaddr ?a 8 ?s1 = Ret r t" "mem_only ?s1 t"
    using copyout_total by blast
  then obtain f m where u: "t = s\<lparr>freelist := f, mem := m\<rparr>" by (auto simp: mem_only_def)
  have "createbuf_done idx retvaddr exists s = Ret exists (s\<lparr>procs := (procs s)[c := (procs s ! c)\<lparr>p_validRingBuf := 1\<rparr>],
    held := remove1 RingbufLock (held s), freelist := f, mem := m\<rparr>)"
    using assms t(1) by (auto simp: createbuf_done_def proc_run run_get_ring spill64_def u Let_def)
  then show ?thesis by blast
qed

text \<open>The current process \<open>c\<close> with page table \<open>pt\<close> has room for a ring at place \<open>k\<close>: the places before it are taken,
  it is not, and there are frames enough.\<close>

definition can_map :: "'z rstate_scheme \<Rightarrow> addr list \<Rightarrow> nat \<Rightarrow> addr \<Rightarrow> nat \<Rightarrow> bool \<Rightarrow> bool" where
  "can_map s ps c pt k newmap \<longleftrightarrow> cur s = Some c \<and> pt = p_pagetable (procs s ! c) \<and> kmem_free s ps \<and> pt_wf s ps pt \<and>
     k < 10 \<and> (\<forall>j<k. slot_used (mem s) pt j) \<and> (\<forall>i<33. vmap (mem s) pt (slot_page (slot_start k) i) AND PTE_V = 0) \<and>
     mapper_needs newmap \<le> length ps"

lemma can_map_cong:
  assumes "can_map s ps c pt k newmap" and "KmemLock \<notin> set hs"
  shows "can_map (s\<lparr>held := hs, ringbufs := rs\<rparr>) ps c pt k newmap"
  using assms unfolding can_map_def kmem_free_def kmem_inv_def pt_wf_def by auto

lemma mapper_can_map:
  assumes "can_map s ps c pt k newmap" and "idx < length (ringbufs s)" and "length (rb_bufPA (ringbufs s ! idx)) = 16"
  shows "\<exists>t qs bs. processSpace_mapper idx newmap s = Ret 0 t \<and> takes s ps pt t qs bs \<and> rings_only s t \<and>
    length bs = (if newmap then 17 else 0) \<and> length ps \<le> length qs + mapper_needs newmap \<and>
    ringbufs t = (ringbufs s)[idx := mapped_ring newmap (ringbufs s ! idx) (slot_start k) bs] \<and>
    (\<forall>vb<MAXVA. vmap (mem t) pt vb = ring_view (ringbufs t ! idx) (slot_start k) (vmap (mem s) pt) vb)"
proof -
  from assms(1) have "kmem_free s ps" "cur s = Some c" "pt = p_pagetable (procs s ! c)" "pt_wf s ps pt" "k < 10"
    "\<forall>j<k. slot_used (mem s) pt j" "\<forall>i<33. vmap (mem s) pt (slot_page (slot_start k) i) AND PTE_V = 0"
    "mapper_needs newmap \<le> length ps" by (auto simp: can_map_def)
  from mapper_run [OF this(1-4) assms(2,3) this(5-8)] show ?thesis by metis
qed

definition opened :: "ringbuf \<Rightarrow> nat \<Rightarrow> int \<Rightarrow> uchar list \<Rightarrow> uint64 \<Rightarrow> addr list \<Rightarrow> ringbuf" where
  "opened r op pid name start bs = r\<lparr>rb_refcount := 1, rb_pidsRW := (rb_pidsRW r)[1 - op := 0, op := pid], rb_name := name,
     rb_vabuf := start, rb_bufPA := take 16 bs, rb_book := bs ! 16\<rparr>"

lemma createbuf_fresh:
  assumes ok: "rings_ok s" "c_string straddr cs" "opdesc = 0 \<or> opdesc = 1" and lk: "RingbufLock \<notin> set (held s)" "ProcLock c \<notin> set (held s)"
    and "can_map s ps c pt k True" and found: "find (\<lambda>i. name_of (ringbufs s ! i) = cs) [0..<MAX_RINGBUFS] = found" "found = None \<or> found = Some 0"
    and idx: "find (\<lambda>i. rb_refcount (ringbufs s ! i) = 0) [0..<MAX_RINGBUFS] = Some idx"
  obtains name bs u where "createbuf straddr opdesc retvaddr s = Ret (if found = None then 1 else 0) u"
    and "length name = 16" and "c_string (arr name) (take 7 cs)" and "length bs = 17" and "distinct bs" and "set bs \<subseteq> set ps"
    and "ringbufs u = (ringbufs s)[idx := opened (ringbufs s ! idx) (nat opdesc) (p_pid (procs s ! c)) name (slot_start k) bs]"
    and "held u = held s" and "procs u = (procs s)[c := (procs s ! c)\<lparr>p_validRingBuf := 1\<rparr>]"
proof -
  let ?r = "ringbufs s ! idx" and ?op = "nat opdesc" and ?pid = "p_pid (procs s ! c)"
  have i: "idx < length (ringbufs s)" "ring_ok ?r" and rc: "rb_refcount ?r = 0"
    using idx rings_okD [OF ok(1)] by (auto simp: find_Some_iff)
  have cur: "cur s = Some c" using assms(6) by (simp add: can_map_def)
  have "KmemLock \<notin> set (held s)" using assms(6) by (simp add: can_map_def kmem_free_def)
  then have km: "KmemLock \<notin> set (RingbufLock # held s)" by simp
  let ?s0 = "s\<lparr>held := RingbufLock # held s\<rparr>"
  have s0: "rings_ok ?s0" using ok(1) by (simp add: rings_ok_def)
  have fn: "find_name [0..<MAX_RINGBUFS] straddr ?s0 = Ret found ?s0"
    using find_name_run [OF s0 ok(2)] found(1) by simp
  have fu: "find_unused [0..<MAX_RINGBUFS] ?s0 = Ret (Some idx) ?s0" using find_unused_run [OF s0] idx by simp
  obtain name where name: "safestrcpy (rb_name ?r) straddr 8 = Some name" "length name = 16" "c_string (arr name) (take 7 cs)"
    using safestrcpy_eq [OF ok(2), of 8 "rb_name ?r"] i(2) by (auto simp: ring_ok_def)
  let ?r2 = "?r\<lparr>rb_refcount := 1, rb_pidsRW := (rb_pidsRW ?r)[1 - ?op := 0, ?op := ?pid], rb_name := name\<rparr>"
  define s2 where "s2 = s\<lparr>held := RingbufLock # held s, ringbufs := (ringbufs s)[idx := ?r2]\<rparr>"
  have s2: "ringbufs s2 = (ringbufs s)[idx := ?r2]" "procs s2 = procs s" "cur s2 = cur s" "held s2 = RingbufLock # held s"
    by (simp_all add: s2_def)
  have bp: "idx < length (ringbufs s2)" "length (rb_bufPA (ringbufs s2 ! idx)) = 16" using i by (simp_all add: ring_ok_def s2)
  have "can_map s2 ps c pt k True" unfolding s2_def by (rule can_map_cong [OF assms(6) km])
  from mapper_can_map [OF this bp] obtain t qs bs where
    t: "processSpace_mapper idx True s2 = Ret 0 t" "takes s2 ps pt t qs bs" "rings_only s2 t" "length bs = 17"
      "ringbufs t = (ringbufs s2)[idx := mapped_ring True (ringbufs s2 ! idx) (slot_start k) bs]" by auto
  note keep = rings_only_keeps [OF t(3)]
  have "cur t = Some c" "idx < length (ringbufs t)" "RingbufLock \<in> set (held t)" "ProcLock c \<notin> set (held t)"
    using keep cur i(1) lk(2) t(5) by (auto simp: s2)
  from createbuf_done_run [OF this, of retvaddr "if found = None then 1 else 0"] obtain f m where
    d: "createbuf_done idx retvaddr (if found = None then 1 else 0) t = Ret (if found = None then 1 else 0)
      (t\<lparr>procs := (procs t)[c := (procs t ! c)\<lparr>p_validRingBuf := 1\<rparr>], held := remove1 RingbufLock (held t), freelist := f, mem := m\<rparr>)"
    by blast
  let ?u = "t\<lparr>procs := (procs t)[c := (procs t ! c)\<lparr>p_validRingBuf := 1\<rparr>], held := remove1 RingbufLock (held t), freelist := f, mem := m\<rparr>"
  have "createbuf straddr opdesc retvaddr s = Ret (if found = None then 1 else 0) ?u"
    using ok(3) lk(1) cur fn fu found(2) i(1) rc name(1) t(1) [unfolded s2_def] d
    by (auto simp: createbuf_def proc_run run_get_ring run_set_ring lift_option_def Let_def)
  moreover have "ringbufs ?u = (ringbufs s)[idx := opened ?r ?op ?pid name (slot_start k) bs]"
    using t(5) i(1) by (simp add: mapped_ring_def opened_def s2)
  ultimately show thesis
    using takesD(5,6) [OF t(2)] keep
    by (intro that [where u = ?u and name = name and bs = bs] name(2,3) t(4)) (auto simp: s2)
qed

lemma createbuf_join:
  assumes ok: "rings_ok s" "c_string straddr cs" "opdesc = 0 \<or> opdesc = 1" and lk: "RingbufLock \<notin> set (held s)" "ProcLock c \<notin> set (held s)"
    and "can_map s ps c pt k False" and found: "find (\<lambda>i. name_of (ringbufs s ! i) = cs) [0..<MAX_RINGBUFS] = Some (Suc j)"
    and free: "rb_pidsRW (ringbufs s ! Suc j) ! nat opdesc = 0" "0 \<le> rb_refcount (ringbufs s ! Suc j)"
  obtains u where "createbuf straddr opdesc retvaddr s = Ret 0 u"
    and "ringbufs u = (ringbufs s)[Suc j := (ringbufs s ! Suc j)\<lparr>
      rb_pidsRW := (rb_pidsRW (ringbufs s ! Suc j))[nat opdesc := p_pid (procs s ! c)],
      rb_refcount := rb_refcount (ringbufs s ! Suc j) + 1, rb_vabuf := slot_start k\<rparr>]"
    and "held u = held s" and "procs u = (procs s)[c := (procs s ! c)\<lparr>p_validRingBuf := 1\<rparr>]"
proof -
  let ?r = "ringbufs s ! Suc j" and ?op = "nat opdesc" and ?pid = "p_pid (procs s ! c)"
  have i: "Suc j < length (ringbufs s)" "ring_ok ?r" using found rings_okD [OF ok(1)] by (auto simp: find_Some_iff)
  have cur: "cur s = Some c" using assms(6) by (simp add: can_map_def)
  have "KmemLock \<notin> set (held s)" using assms(6) by (simp add: can_map_def kmem_free_def)
  then have km: "KmemLock \<notin> set (RingbufLock # held s)" by simp
  let ?s0 = "s\<lparr>held := RingbufLock # held s\<rparr>"
  have s0: "rings_ok ?s0" using ok(1) by (simp add: rings_ok_def)
  have fn: "find_name [0..<MAX_RINGBUFS] straddr ?s0 = Ret (Some (Suc j)) ?s0"
    using find_name_run [OF s0 ok(2)] found(1) by simp
  let ?r2 = "?r\<lparr>rb_pidsRW := (rb_pidsRW ?r)[?op := ?pid], rb_refcount := rb_refcount ?r + 1\<rparr>"
  define s2 where "s2 = s\<lparr>held := RingbufLock # held s, ringbufs := (ringbufs s)[Suc j := ?r2]\<rparr>"
  have s2: "ringbufs s2 = (ringbufs s)[Suc j := ?r2]" "procs s2 = procs s" "cur s2 = cur s" "held s2 = RingbufLock # held s"
    by (simp_all add: s2_def)
  have bp: "Suc j < length (ringbufs s2)" "length (rb_bufPA (ringbufs s2 ! Suc j)) = 16" using i by (simp_all add: ring_ok_def s2)
  have "can_map s2 ps c pt k False" unfolding s2_def by (rule can_map_cong [OF assms(6) km])
  from mapper_can_map [OF this bp] obtain t qs bs where
    t: "processSpace_mapper (Suc j) False s2 = Ret 0 t" "takes s2 ps pt t qs bs" "rings_only s2 t"
      "ringbufs t = (ringbufs s2)[Suc j := mapped_ring False (ringbufs s2 ! Suc j) (slot_start k) bs]" by auto
  note keep = rings_only_keeps [OF t(3)]
  have "cur t = Some c" "Suc j < length (ringbufs t)" "RingbufLock \<in> set (held t)" "ProcLock c \<notin> set (held t)"
    using keep cur i(1) lk(2) t(4) by (auto simp: s2)
  from createbuf_done_run [OF this, of retvaddr 0] obtain f m where
    d: "createbuf_done (Suc j) retvaddr 0 t = Ret 0 (t\<lparr>procs := (procs t)[c := (procs t ! c)\<lparr>p_validRingBuf := 1\<rparr>],
      held := remove1 RingbufLock (held t), freelist := f, mem := m\<rparr>)"
    by blast
  let ?u = "t\<lparr>procs := (procs t)[c := (procs t ! c)\<lparr>p_validRingBuf := 1\<rparr>], held := remove1 RingbufLock (held t), freelist := f, mem := m\<rparr>"
  have "createbuf straddr opdesc retvaddr s = Ret 0 ?u"
    using ok(3) lk(1) cur fn i(1) free t(1) [unfolded s2_def] d
    by (auto simp: createbuf_def proc_run run_get_ring run_set_ring Let_def)
  moreover have "ringbufs ?u = (ringbufs s)[Suc j := ?r\<lparr>rb_pidsRW := (rb_pidsRW ?r)[?op := ?pid],
      rb_refcount := rb_refcount ?r + 1, rb_vabuf := slot_start k\<rparr>]"
    using t(4) i(1) by (simp add: mapped_ring_def s2)
  ultimately show thesis using that keep by (auto simp: s2)
qed

section \<open>closebuf\<close>

definition last_user :: "ringbuf \<Rightarrow> bool" where
  "last_user r \<longleftrightarrow> rb_refcount r \<le> 1"

definition closed :: "ringbuf \<Rightarrow> ringbuf" where
  "closed r = (if last_user r
     then r\<lparr>rb_refcount := 0, rb_name := (rb_name r)[0 := 0], rb_pidsRW := (rb_pidsRW r)[0 := 0, 1 := 0], rb_vabuf := 0, rb_book := 0\<rparr>
     else r\<lparr>rb_refcount := rb_refcount r - 1\<rparr>)"

lemma closebuf_run:
  assumes ok: "rings_ok s" "c_string straddr cs" and lk: "RingbufLock \<notin> set (held s)" "ProcLock c \<notin> set (held s)" "cur s = Some c"
    and found: "find (\<lambda>i. name_of (ringbufs s ! i) = cs) [0..<MAX_RINGBUFS] = Some i"
    and r: "r = ringbufs s ! i" and pt: "pt = p_pagetable (procs s ! c)" and "kmem_free s ps" and "pt_wf s ps pt"
    and slot: "slot_ok (rb_vabuf r)"
    and view: "\<forall>j<33. vmap (mem s) pt (slot_page (rb_vabuf r) j) = ring_pte (ring_page r j) \<and> page_aligned (ring_page r j)"
    and fr: "last_user r \<longrightarrow> freeable s ps pt (rb_bufPA r @ [rb_book r])"
  obtains u v where "closebuf straddr opdesc s = Ret 0 u" and "kmem_free u ((if last_user r then rb_book r # rev (rb_bufPA r) else []) @ ps)"
    and "pt_wf u ((if last_user r then rb_book r # rev (rb_bufPA r) else []) @ ps) pt"
    and "ringbufs u = (ringbufs s)[i := closed r]" and "held u = held s"
    and "procs u = (procs s)[c := (procs s ! c)\<lparr>p_validRingBuf := v\<rparr>]"
    and "\<And>vb. vb < MAXVA \<Longrightarrow> vmap (mem u) pt vb = (if unat (rb_vabuf r) div 4096 \<le> unat vb div 4096 \<and>
       unat vb div 4096 < unat (rb_vabuf r) div 4096 + 33 then 0 else vmap (mem s) pt vb)"
proof -
  let ?fs = "if last_user r then rb_book r # rev (rb_bufPA r) else []"
  have i: "i < length (ringbufs s)" "ring_ok r" using found rings_okD [OF ok(1)] r by (auto simp: find_Some_iff)
  let ?s0 = "s\<lparr>held := RingbufLock # held s\<rparr>"
  have s0: "rings_ok ?s0" using ok(1) by (simp add: rings_ok_def)
  have "[0..<RINGBUF_SIZE] = [0..<MAX_RINGBUFS] @ [10..<16]" by (simp add: RINGBUF_SIZE_def MAX_RINGBUFS_def upt_add_eq_append [of 0 10 6, simplified])
  then have fn: "find_name [0..<RINGBUF_SIZE] straddr ?s0 = Ret (Some i) ?s0"
    using find_name_prefix [OF s0 ok(2), of "[0..<MAX_RINGBUFS]" i] found by simp
  define s2 where "s2 = s\<lparr>held := RingbufLock # held s, ringbufs := (ringbufs s)[i := closed r]\<rparr>"
  have s2: "ringbufs s2 = (ringbufs s)[i := closed r]" "procs s2 = procs s" "cur s2 = cur s" "held s2 = RingbufLock # held s"
      "mem s2 = mem s" "kend s2 = kend s" by (simp_all add: s2_def)
  have free2: "kmem_free s2 ps" "pt_wf s2 ps pt"
    using assms(9,10) by (auto simp: s2_def kmem_free_def kmem_inv_def pt_wf_def)
  have len: "length (rb_bufPA r) = 16" using i(2) by (simp add: ring_ok_def)
  obtain t where t: "closebuf_unmap pt (rb_vabuf r) (last_user r) s2 = Ret () t" "releases s2 ps pt t ?fs"
    "\<And>vb. vb < MAXVA \<Longrightarrow> vmap (mem t) pt vb = (if unat (rb_vabuf r) div 4096 \<le> unat vb div 4096 \<and>
       unat vb div 4096 < unat (rb_vabuf r) div 4096 + 33 then 0 else vmap (mem s) pt vb)"
    by (rule closebuf_unmap_run [OF slot free2 len, where do_free = "last_user r"]) (use view fr in \<open>auto simp: s2 freeable_def\<close>)
  note rel = releasesD [OF t(2)]
  obtain f m where tt: "t = s2\<lparr>freelist := f, mem := m\<rparr>" using rel(6) by (auto simp: mem_only_def)
  define v where "v = (if \<exists>q\<in>set (ringbufs t). ring_of_pid (p_pid (procs s ! c)) q then 1 else 0 :: int)"
  let ?u = "t\<lparr>procs := (procs s)[c := (procs s ! c)\<lparr>p_validRingBuf := v\<rparr>], held := held s\<rparr>"
  have cl: "closed r = (if last_user r
     then r\<lparr>rb_refcount := 0, rb_name := (rb_name r)[0 := 0], rb_pidsRW := (rb_pidsRW r)[0 := 0, 1 := 0], rb_vabuf := 0, rb_book := 0\<rparr>
     else r\<lparr>rb_refcount := rb_refcount r - 1\<rparr>)" by (rule closed_def)
  have "closebuf straddr opdesc s = thn (closebuf_unmap pt (rb_vabuf r) (last_user r))
        (bnd (gets ringbufs) (\<lambda>rs.
         thn (acquire (ProcLock c))
        (thn (set_proc c (\<lambda>p. p\<lparr>p_validRingBuf := (if \<exists>r\<in>set rs. ring_of_pid (p_pid p) r then 1 else 0)\<rparr>))
        (thn (release (ProcLock c))
        (thn (release RingbufLock) (ret 0)))))) s2"
    using lk fn i(1) unfolding closebuf_def s2_def cl pt
    by (auto simp: proc_run run_get_ring run_set_ring Let_def r [symmetric] last_user_def)
  then have "closebuf straddr opdesc s = Ret 0 ?u"
    using lk i(1) t(1) by (simp add: proc_run tt s2 v_def)
  moreover have "kmem_free ?u (?fs @ ps)" "pt_wf ?u (?fs @ ps) pt" "mem ?u = mem t"
    using rel(1-3) assms(9) by (auto simp: kmem_free_def kmem_inv_def pt_wf_def)
  moreover have "ringbufs ?u = (ringbufs s)[i := closed r]" by (simp add: tt s2)
  ultimately show thesis using that t(3) by auto
qed

section \<open>An example\<close>

definition empty_ring :: ringbuf where
  "empty_ring = \<lparr>rb_refcount = 0, rb_name = replicate 16 0, rb_pidsRW = [0, 0], rb_bufPA = replicate 16 0, rb_vabuf = 0, rb_book = 0\<rparr>"

definition no_rings :: rstate where
  "no_rings = pstate.extend small_table (rstate.fields (replicate MAX_RINGBUFS empty_ring) 0x80018000)"

lemma no_rings_simps [simp]:
  "ringbufs no_rings = replicate MAX_RINGBUFS empty_ring" "held no_rings = []" "cur no_rings = Some 0"
  "procs no_rings = procs small_table" "ringbufs_at no_rings = 0x80018000"
  by (simp_all add: no_rings_def pstate.defs rstate.defs small_table_def)

text \<open>Process 0 with an empty page table, no rings, and \<open>n\<close> free frames.\<close>

lemma ring_example:
  assumes "83 \<le> n" and "n \<le> 4000"
  shows "\<exists>(s::rstate) ps pt. can_map s ps 0 pt 0 True \<and> rings_ok s \<and> held s = [] \<and> ringbufs s = replicate MAX_RINGBUFS empty_ring \<and>
     p_pid (procs s ! 0) = 1 \<and> length (procs s) = NPROC \<and> length ps = n \<and> (\<forall>va. vmap (mem s) pt va = 0) \<and> tables (mem s) pt = {pt}"
proof -
  have len: "length (top_frames (Suc n)) = Suc n" by (rule top_frames_ok) (use assms in simp)
  then obtain pt ps where ps: "top_frames (Suc n) = pt # ps" by (cases "top_frames (Suc n)") auto
  have "kmem_free (with_frames (Suc n) no_rings) (pt # ps)"
    unfolding ps [symmetric] by (rule with_frames_free) (use assms in simp_all)
  then obtain t where t: "kmem_free t ps" "pt_wf t ps pt" "\<And>va. vmap (mem t) pt va = 0" "mem_only (with_frames (Suc n) no_rings) t"
      "tables (mem t) pt = {pt}"
    using uvmcreate_run by metis
  obtain f m where tt: "t = (with_frames (Suc n) no_rings)\<lparr>freelist := f, mem := m\<rparr>" using t(4) by (auto simp: mem_only_def)
  let ?s = "t\<lparr>procs := (procs t)[0 := (procs t ! 0)\<lparr>p_pagetable := pt\<rparr>]\<rparr>"
  have p: "procs t = procs small_table" "cur t = Some 0" "held t = []" "ringbufs t = replicate MAX_RINGBUFS empty_ring"
    by (simp_all add: tt with_frames_def)
  have n: "length ps = n" using len ps by simp
  moreover have z: "(0::nat) < NPROC" by (simp add: NPROC_def)
  ultimately have "can_map ?s ps 0 pt 0 True"
    using t(1-3) p assms by (simp add: can_map_def kmem_free_def kmem_inv_def pt_wf_def mapper_needs_def)
  moreover have "rings_ok ?s" using p(4) by (auto simp: rings_ok_def ring_ok_def empty_ring_def)
  moreover have "p_pid (procs ?s ! 0) = 1" using p(1) z by (simp add: small_table_procs)
  ultimately show ?thesis using t(3,5) p n by (intro exI [of _ ?s] exI [of _ ps] exI [of _ pt]) simp
qed

lemma second_copy:
  assumes "(x::nat) < 65536"
  shows "(65536 + x) div 4096 mod 16 = x div 4096 \<and> (65536 + x) mod 4096 = x mod 4096 \<and> x div 4096 mod 16 = x div 4096 \<and> x div 4096 < 16"
proof -
  have "x div 4096 < 16" using assms by (simp add: less_mult_imp_div_less)
  moreover have "(x + 16 * 4096) div 4096 = 16 + x div 4096" "(x + 16 * 4096) mod 4096 = x mod 4096"
    by (rule div_mult_self1, simp) (rule mod_mult_self1)
  ultimately show ?thesis by (simp add: add.commute)
qed

section \<open>Properties\<close>

text \<open>C1: Mapping a new ring gives the process 16 distinct frames that nothing else uses, at 32 pages: byte \<open>x\<close> of the
  ring and byte \<open>65536 + x\<close> are the same byte of memory, readable and writable by user code, so that a
  message that runs over the end of the ring is contiguous.  The first free place is taken.\<close>

theorem ring_double_mapped:
  assumes "can_map s ps c pt k True" and "idx < length (ringbufs s)" and "length (rb_bufPA (ringbufs s ! idx)) = 16"
  shows "\<exists>t qs bs. processSpace_mapper idx True s = Ret 0 t \<and> kmem_free t qs \<and> pt_wf t qs pt \<and>
    rb_vabuf (ringbufs t ! idx) = slot_start k \<and> rb_bufPA (ringbufs t ! idx) = bs \<and>
    length bs = 16 \<and> distinct bs \<and> set bs \<inter> (set qs \<union> tables (mem t) pt) = {} \<and>
    (\<forall>x<65536. user_ok (mem t) pt (slot_start k + of_nat x) \<and> user_ok (mem t) pt (slot_start k + of_nat (65536 + x)) \<and>
       user_pa (mem t) pt (slot_start k + of_nat x) = bs ! (x div 4096) + of_nat (x mod 4096) \<and>
       user_pa (mem t) pt (slot_start k + of_nat (65536 + x)) = user_pa (mem t) pt (slot_start k + of_nat x))"
proof -
  from mapper_can_map [OF assms] obtain t qs bs where
    t: "processSpace_mapper idx True s = Ret 0 t" "takes s ps pt t qs bs" "length bs = 17"
      "ringbufs t = (ringbufs s)[idx := mapped_ring True (ringbufs s ! idx) (slot_start k) bs]"
      "\<And>vb. vb < MAXVA \<Longrightarrow> vmap (mem t) pt vb = ring_view (ringbufs t ! idx) (slot_start k) (vmap (mem s) pt) vb" by auto
  let ?r = "ringbufs t ! idx"
  have k: "slot_ok (slot_start k)" and free: "kmem_inv s ps" "KmemLock \<notin> set (held s)"
    using assms(1) slot_start_ok by (auto simp: can_map_def kmem_free_def)
  note tk = takesD [OF t(2)]
  have r: "rb_bufPA ?r = take 16 bs" "rb_vabuf ?r = slot_start k" using t(4) assms(2) by (simp_all add: mapped_ring_def)
  have page: "ring_page ?r i = bs ! (i mod 16) \<and> frame_ok (kend s) (bs ! (i mod 16))" if "i < 32" for i
  proof -
    have "bs ! (i mod 16) \<in> set bs" using t(3) by (intro nth_mem) simp
    then show ?thesis using tk(5) free(1) that by (auto simp: ring_page_def r kmem_inv_def)
  qed
  have e: "0 < kend s" using free(1) by (simp add: kmem_inv_def)
  have byte: "user_ok (mem t) pt (slot_start k + of_nat y)"
      "user_pa (mem t) pt (slot_start k + of_nat y) = bs ! (y div 4096 mod 16) + of_nat (y mod 4096)" if "y < 131072" for y
    using ring_user [OF k t(5), where x = y and e = "kend s"] page [of "y div 4096"] e that by (simp_all add: less_mult_imp_div_less)
  have "user_ok (mem t) pt (slot_start k + of_nat x) \<and> user_ok (mem t) pt (slot_start k + of_nat (65536 + x)) \<and>
       user_pa (mem t) pt (slot_start k + of_nat x) = take 16 bs ! (x div 4096) + of_nat (x mod 4096) \<and>
       user_pa (mem t) pt (slot_start k + of_nat (65536 + x)) = user_pa (mem t) pt (slot_start k + of_nat x)" if "x < 65536" for x
    using byte(1) [of x] byte(2) [of x] byte(1) [of "65536 + x"] byte(2) [of "65536 + x"] second_copy [OF that] that t(3) by simp
  moreover have "kmem_free t qs" "pt_wf t qs pt" using tk(1-3) free(2) by (simp_all add: kmem_free_def)
  moreover have "set (take 16 bs) \<inter> (set qs \<union> tables (mem t) pt) = {}"
    using tk(5,8) assms(1) set_take_subset [of 16 bs] by (fastforce simp: can_map_def pt_wf_def)
  ultimately show ?thesis
    using t(1,3) r tk(6) by (intro exI [of _ t] exI [of _ qs] exI [of _ "take 16 bs"]) simp
qed

theorem ring_double_mapped_witness:
  "\<exists>(s::rstate) t pt. processSpace_mapper 3 True s = Ret 0 t \<and>
    user_pa (mem t) pt (slot_start 0 + of_nat (65536 + 5)) = user_pa (mem t) pt (slot_start 0 + of_nat 5)"
proof -
  obtain s :: rstate and ps pt where s: "can_map s ps 0 pt 0 True" "ringbufs s = replicate MAX_RINGBUFS empty_ring"
    using ring_example [of 90] by auto
  have i: "3 < length (ringbufs s)" "length (rb_bufPA (ringbufs s ! 3)) = 16"
    by (simp_all add: s(2) MAX_RINGBUFS_def empty_ring_def)
  have five: "(5::nat) < 65536" by simp
  from ring_double_mapped [OF s(1) i] five show ?thesis by blast
qed

text \<open>C2: A process that joins a ring that another process has mapped gets, at every offset of the 33 pages, the very
  bytes that the other process sees there, and the other process's translations stay as they were.\<close>

theorem ring_shared:
  assumes "can_map s ps c pt k False" and "idx < length (ringbufs s)" and "r = ringbufs s ! idx" and "length (rb_bufPA r) = 16"
    and "\<forall>i<33. frame_ok (kend s) (ring_page r i)"
    and "page_aligned pt'" and "tables (mem s) pt' \<inter> (set ps \<union> tables (mem s) pt) = {}"
    and "slot_ok start'" and "\<forall>vb<MAXVA. vmap (mem s) pt' vb = ring_view r start' f vb"
  shows "\<exists>t. processSpace_mapper idx False s = Ret 0 t \<and> (\<forall>vb. vmap (mem t) pt' vb = vmap (mem s) pt' vb) \<and>
    (\<forall>x<33 * 4096. user_ok (mem t) pt (slot_start k + of_nat x) \<and> user_ok (mem t) pt' (start' + of_nat x) \<and>
       user_pa (mem t) pt (slot_start k + of_nat x) = user_pa (mem t) pt' (start' + of_nat x))"
proof -
  from mapper_can_map [OF assms(1,2)] assms(3,4) obtain t qs bs where
    t: "processSpace_mapper idx False s = Ret 0 t" "takes s ps pt t qs bs"
      "ringbufs t = (ringbufs s)[idx := mapped_ring False r (slot_start k) bs]"
      "\<And>vb. vb < MAXVA \<Longrightarrow> vmap (mem t) pt vb = ring_view (ringbufs t ! idx) (slot_start k) (vmap (mem s) pt) vb" by auto
  let ?r = "ringbufs t ! idx"
  have k: "slot_ok (slot_start k)" and pt: "page_aligned pt" and free: "kmem_inv s ps"
    using assms(1) slot_start_ok by (auto simp: can_map_def kmem_free_def pt_wf_def)
  have e: "0 < kend s" using free by (simp add: kmem_inv_def)
  have same: "ring_page ?r i = ring_page r i" for i
    using t(3) assms(2) by (simp add: ring_page_def mapped_ring_def)
  have "mem t a = mem s a" if p: "p \<in> tables (mem s) pt'" "in_page p a" for p a
  proof (rule takes_mem [OF t(2)])
    fix q assume q: "q \<in> tables (mem s) pt \<union> (set ps - set qs)"
    then have "page_aligned q" using tables_aligned [OF pt] kmem_inv_pages [OF free] by auto
    moreover have "p \<noteq> q" using p(1) q assms(7) by auto
    ultimately show "\<not> in_page q a" using in_page_unique [OF tables_aligned [OF assms(6) p(1)]] p(2) by blast
  qed
  then have keep: "vmap (mem t) pt' vb = vmap (mem s) pt' vb" for vb by (rule vmap_frame [OF assms(6)])
  have view': "\<And>vb. vb < MAXVA \<Longrightarrow> vmap (mem t) pt' vb = ring_view r start' f vb" using keep assms(9) by simp
  have "user_ok (mem t) pt (slot_start k + of_nat x) \<and> user_ok (mem t) pt' (start' + of_nat x) \<and>
       user_pa (mem t) pt (slot_start k + of_nat x) = user_pa (mem t) pt' (start' + of_nat x)" if "x < 33 * 4096" for x
  proof -
    have "x div 4096 < 33" using that by (simp add: less_mult_imp_div_less)
    then have "frame_ok (kend s) (ring_page r (x div 4096))" using assms(5) by simp
    then show ?thesis
      using ring_user [OF k t(4) that, of "kend s"] ring_user [OF assms(8) view' that, of "kend s"] e same by simp
  qed
  with t(1) keep show ?thesis by blast
qed

theorem ring_shared_witness:
  "\<exists>(s::rstate) t pt pt'. pt \<noteq> pt' \<and> processSpace_mapper 3 False s = Ret 0 t \<and>
    user_pa (mem t) pt (slot_start 0 + of_nat 7) = user_pa (mem t) pt' (slot_start 0 + of_nat 7)"
proof -
  obtain s :: rstate and ps pt' where s: "can_map s ps 0 pt' 0 True" "ringbufs s = replicate MAX_RINGBUFS empty_ring"
      "length ps = 200" "\<forall>va. vmap (mem s) pt' va = 0" "tables (mem s) pt' = {pt'}" "held s = []" "length (procs s) = NPROC"
    using ring_example [of 200] by auto
  have free: "kmem_inv s ps" "pt_wf s ps pt'" using s(1) by (auto simp: can_map_def kmem_free_def)
  have i: "3 < length (ringbufs s)" "length (rb_bufPA (ringbufs s ! 3)) = 16"
    by (simp_all add: s(2) MAX_RINGBUFS_def empty_ring_def)
  from mapper_can_map [OF s(1) i] obtain t qs bs where
    t: "takes s ps pt' t qs bs" "rings_only s t" "length bs = 17" "length ps \<le> length qs + 83"
      "ringbufs t = (ringbufs s)[3 := mapped_ring True (ringbufs s ! 3) (slot_start 0) bs]"
      "\<forall>vb<MAXVA. vmap (mem t) pt' vb = ring_view (ringbufs t ! 3) (slot_start 0) (vmap (mem s) pt') vb"
    by (auto simp: mapper_needs_def)
  note tk = takesD [OF t(1)]
  obtain pt rs where qs: "qs = pt # rs" "66 \<le> length rs" using t(4) s(3) by (cases qs) auto
  have "kmem_free t (pt # rs)" using tk(1,3) s(6) qs by (simp add: kmem_free_def)
  then obtain u where u: "kmem_free u rs" "pt_wf u rs pt" "\<And>va. vmap (mem u) pt va = 0" "mem_only t u"
      "\<And>a. \<not> in_page pt a \<Longrightarrow> mem u a = mem t a" "tables (mem u) pt = {pt}"
    by (rule uvmcreate_run) blast
  define w where "w = u\<lparr>cur := Some 2, procs := (procs u)[2 := (procs u ! 2)\<lparr>p_pagetable := pt\<rparr>]\<rparr>"
  have keep: "procs u = procs s" "ringbufs u = ringbufs t" "kend u = kend s"
    using u(4) rings_only_keeps [OF t(2)] by (auto simp: mem_only_def)
  have w: "mem w = mem u" "ringbufs w = ringbufs t" "kend w = kend s" by (simp_all add: w_def keep)
  have map: "can_map w rs 2 pt 0 False"
    using u(1-3) s(7) qs(2) by (simp add: w_def keep can_map_def kmem_free_def kmem_inv_def pt_wf_def mapper_needs_def NPROC_def)
  let ?r = "ringbufs w ! 3"
  have r: "rb_bufPA ?r = take 16 bs" "rb_book ?r = bs ! 16" "3 < length (ringbufs w)" "length (rb_bufPA ?r) = 16"
    using i t(3,5) by (simp_all add: w mapped_ring_def)
  have "ring_page ?r j \<in> set bs" if "j < 33" for j using that t(3) by (auto simp: ring_page_def r)
  then have fr: "\<forall>j<33. frame_ok (kend w) (ring_page ?r j)" using tk(5) free(1) by (auto simp: w kmem_inv_def)
  have al: "page_aligned pt'" "page_aligned pt" using free(2) u(2) by (auto simp: pt_wf_def)
  have ne: "pt \<notin> tables (mem t) pt'" using tk(2) qs(1) by (auto simp: pt_wf_def)
  have f: "mem u a = mem t a" if "p \<in> tables (mem t) pt'" "in_page p a" for p a
    using that ne in_page_unique [OF tables_aligned [OF al(1) that(1)] al(2)] by (intro u(5)) blast
  have v: "\<forall>vb<MAXVA. vmap (mem w) pt' vb = ring_view ?r (slot_start 0) (vmap (mem s) pt') vb"
    using t(6) vmap_frame [OF al(1) f] by (simp add: w)
  have tab: "tables (mem w) pt' \<inter> (set rs \<union> tables (mem w) pt) = {}"
    using tables_frame(1) [OF al(1) f] tk(2) ne u(6) qs(1) by (auto simp: w pt_wf_def)
  have seven: "(7::nat) < 33 * 4096" and "pt \<noteq> pt'" using ne by auto
  with ring_shared [OF map r(3) refl r(4) fr al(1) tab slot_start_ok v] show ?thesis by (metis zero_less_numeral)
qed


lemma no_names: "ringbufs s = replicate MAX_RINGBUFS empty_ring \<Longrightarrow> i < MAX_RINGBUFS \<Longrightarrow> name_of (ringbufs s ! i) = []"
  by (simp add: name_of_def empty_ring_def)

lemma first_empty: "ringbufs s = replicate MAX_RINGBUFS empty_ring \<Longrightarrow>
  find (\<lambda>i. rb_refcount (ringbufs s ! i) = 0) [0..<MAX_RINGBUFS] = Some 0"
  by (simp add: MAX_RINGBUFS_def empty_ring_def upt_rec)



definition named_ring :: ringbuf where
  "named_ring = empty_ring\<lparr>rb_refcount := 1, rb_name := 97 # replicate 15 0, rb_pidsRW := [1, 0]\<rparr>"

lemma named_ring: "ring_ok named_ring" "name_of named_ring = [97]" "rb_refcount named_ring = 1"
proof -
  have "replicate 15 (0 :: uchar) = 0 # replicate 14 0" by (simp add: numeral_eq_Suc)
  then show "ring_ok named_ring" "name_of named_ring = [97]" "rb_refcount named_ring = 1"
    by (simp_all add: named_ring_def empty_ring_def ring_ok_def name_of_def)
qed

lemma named_example:
  assumes "83 \<le> n" and "n \<le> 4000"
  shows "\<exists>(s::rstate) ps pt. can_map s ps 0 pt 0 True \<and> rings_ok s \<and> held s = [] \<and> length ps = n \<and>
    ringbufs s = (replicate MAX_RINGBUFS empty_ring)[0 := named_ring] \<and> (\<forall>va. vmap (mem s) pt va = 0) \<and> tables (mem s) pt = {pt}"
proof -
  obtain s :: rstate and ps pt where s: "can_map s ps 0 pt 0 True" "ringbufs s = replicate MAX_RINGBUFS empty_ring"
      "rings_ok s" "held s = []" "length ps = n" "\<forall>va. vmap (mem s) pt va = 0" "tables (mem s) pt = {pt}"
    using ring_example [OF assms] by auto
  let ?s = "s\<lparr>held := [], ringbufs := (replicate MAX_RINGBUFS empty_ring)[0 := named_ring]\<rparr>"
  have "can_map ?s ps 0 pt 0 True" by (rule can_map_cong [OF s(1)]) simp
  moreover have "rings_ok ?s" using s(2) by (intro rings_ok_update [OF s(3) named_ring(1), of _ 0]) simp
  ultimately show ?thesis using s(5-7) by (intro exI [of _ ?s] exI [of _ ps] exI [of _ pt]) simp
qed


text \<open>C4: \<open>closebuf\<close> by the last user of a ring that the process has mapped unmaps its 33 pages and no other, puts the 16
  frames and the bookkeeping page back on the free list, and leaves the entry of the table unused with an
  empty name; by another user it only unmaps the pages and counts one user less.\<close>

theorem closebuf_correct:
  assumes "rings_ok s" and "c_string straddr cs" and "held s = []" and "cur s = Some c"
    and "find (\<lambda>i. name_of (ringbufs s ! i) = cs) [0..<MAX_RINGBUFS] = Some i"
    and "r = ringbufs s ! i" and "pt = p_pagetable (procs s ! c)" and "kmem_free s ps" and "pt_wf s ps pt" and "slot_ok (rb_vabuf r)"
    and "\<forall>j<33. vmap (mem s) pt (slot_page (rb_vabuf r) j) = ring_pte (ring_page r j) \<and> page_aligned (ring_page r j)"
    and "freeable s ps pt (rb_bufPA r @ [rb_book r])"
  shows "\<exists>u. closebuf straddr opdesc s = Ret 0 u \<and> held u = [] \<and>
    (if rb_refcount r \<le> 1
     then kmem_free u (rb_book r # rev (rb_bufPA r) @ ps) \<and> rb_refcount (ringbufs u ! i) = 0 \<and> name_of (ringbufs u ! i) = []
     else kmem_free u ps \<and> ringbufs u ! i = r\<lparr>rb_refcount := rb_refcount r - 1\<rparr>) \<and>
    (\<forall>j<MAX_RINGBUFS. j \<noteq> i \<longrightarrow> ringbufs u ! j = ringbufs s ! j) \<and>
    (\<forall>vb<MAXVA. vmap (mem u) pt vb = (if unat (rb_vabuf r) div 4096 \<le> unat vb div 4096 \<and>
       unat vb div 4096 < unat (rb_vabuf r) div 4096 + 33 then 0 else vmap (mem s) pt vb))"
proof -
  have lk: "RingbufLock \<notin> set (held s)" "ProcLock c \<notin> set (held s)" using assms(3) by simp_all
  have fr: "last_user r \<longrightarrow> freeable s ps pt (rb_bufPA r @ [rb_book r])" using assms(12) by simp
  let ?fs = "if last_user r then rb_book r # rev (rb_bufPA r) else []"
  obtain u where u: "closebuf straddr opdesc s = Ret 0 u" "kmem_free u (?fs @ ps)" "ringbufs u = (ringbufs s)[i := closed r]" "held u = held s"
      "\<And>vb. vb < MAXVA \<Longrightarrow> vmap (mem u) pt vb = (if unat (rb_vabuf r) div 4096 \<le> unat vb div 4096 \<and>
       unat vb div 4096 < unat (rb_vabuf r) div 4096 + 33 then 0 else vmap (mem s) pt vb)"
    by (rule closebuf_run [OF assms(1,2) lk assms(4-11) fr]) blast
  have i: "i < length (ringbufs s)" "ring_ok r" using assms(5,6) rings_okD [OF assms(1)] by (auto simp: find_Some_iff)
  have "name_of (closed r) = []" if "last_user r"
    using that i(2) by (cases "rb_name r") (auto simp: closed_def name_of_def ring_ok_def)
  with u i(1) show ?thesis using assms(3) by (intro exI [of _ u]) (auto simp: last_user_def closed_def)
qed

theorem closebuf_correct_witness:
  "\<exists>(s::rstate) u. rb_refcount (ringbufs s ! 0) = 1 \<and> closebuf (arr [97, 0]) 0 s = Ret 0 u \<and>
    rb_refcount (ringbufs u ! 0) = 0 \<and> name_of (ringbufs u ! 0) = []"
proof -
  obtain s :: rstate and ps pt where s: "can_map s ps 0 pt 0 True" "rings_ok s" "held s = []"
      "ringbufs s = (replicate MAX_RINGBUFS empty_ring)[0 := named_ring]" "\<forall>va. vmap (mem s) pt va = 0"
    using named_example [of 90] by auto
  have i: "0 < length (ringbufs s)" "ringbufs s ! 0 = named_ring" "length (rb_bufPA (ringbufs s ! 0)) = 16"
    using named_ring(1) by (simp_all add: s(4) MAX_RINGBUFS_def ring_ok_def)
  from mapper_can_map [OF s(1) i(1,3)] obtain t qs bs where
    t: "takes s ps pt t qs bs" "rings_only s t" "length bs = 17"
      "ringbufs t = (ringbufs s)[0 := mapped_ring True named_ring (slot_start 0) bs]"
      "\<forall>vb<MAXVA. vmap (mem t) pt vb = ring_view (ringbufs t ! 0) (slot_start 0) (vmap (mem s) pt) vb"
    by (auto simp: i(2))
  note tk = takesD [OF t(1)] and keep = rings_only_keeps [OF t(2)]
  let ?r = "ringbufs t ! 0"
  have r: "?r = mapped_ring True named_ring (slot_start 0) bs" using t(4) i(1) by simp
  have ring: "ring_ok ?r" "name_of ?r = [97]" "rb_refcount ?r = 1" "rb_vabuf ?r = slot_start 0" "rb_bufPA ?r @ [rb_book ?r] = bs"
    using named_ring t(3) take_Suc_conv_app_nth [of 16 bs] by (auto simp: r mapped_ring_def ring_ok_def name_of_def)
  have ok: "rings_ok t" using rings_ok_update [OF s(2) ring(1) [unfolded r] t(4)] .
  have free: "kmem_inv s ps" using s(1) by (simp add: can_map_def kmem_free_def)
  have "set bs \<inter> tables (mem t) pt = {}" using tk(5,8) s(1) by (fastforce simp: can_map_def pt_wf_def)
  then have fr: "freeable t qs pt (rb_bufPA ?r @ [rb_book ?r])"
    unfolding ring(5) using tk(4-6) free by (auto simp: freeable_def kmem_inv_def)
  have "ring_page ?r j \<in> set bs" if "j < 33" for j using that t(3) by (auto simp: ring_page_def r mapped_ring_def)
  then have al: "page_aligned (ring_page ?r j)" if "j < 33" for j using that tk(5) kmem_inv_pages [OF free] by blast
  have view: "\<forall>j<33. vmap (mem t) pt (slot_page (rb_vabuf ?r) j) = ring_pte (ring_page ?r j) \<and> page_aligned (ring_page ?r j)"
    using t(5) slot_page [OF slot_start_ok [of 0]] ring_view_page al by (simp add: ring(4))
  have c: "cur t = Some 0" "held t = []" "pt = p_pagetable (procs t ! 0)" using keep s(1,3) by (auto simp: can_map_def)
  have kf: "kmem_free t qs" "pt_wf t qs pt" using tk(1,2) c(2) by (simp_all add: kmem_free_def)
  have cs: "c_string (arr [97, 0]) [97]" using c_string_arr [of "[97]" "[]"] by simp
  have fn: "find (\<lambda>i. name_of (ringbufs t ! i) = [97]) [0..<MAX_RINGBUFS] = Some 0" using ring(2) by (simp add: MAX_RINGBUFS_def upt_rec)
  have "slot_ok (rb_vabuf ?r)" using slot_start_ok ring(4) by simp
  from closebuf_correct [OF ok cs c(2,1) fn refl c(3) kf this view fr, of 0] ring(3) show ?thesis by auto
qed

end
