(* ===== verification/Pipe.thy ===== *)
theory Pipe
  imports RingIndex RingOpen
begin

text \<open>
  Pipes, \<open>kernel/pipe.c\<close>.  A pipe lives in a page from \<open>kalloc\<close>; \<open>pipes\<close> maps the address of the page to the
  structure in it.  The local variable \<open>ch\<close> of \<open>pipewrite\<close> and \<open>piperead\<close>, through which bytes pass
  between the pipe and user space, is the byte of kernel memory at \<open>stack_at\<close>.

  Both loops may go to sleep; \<open>pipewrite_resume\<close> and \<open>piperead_resume\<close> continue after \<open>sleep\<close>, with the
  number of bytes written so far as the argument that the sleeping process keeps on its stack.
  \<open>pipealloc\<close>, which allocates files, is in \<open>File\<close>.
\<close>

unbundle bit_operations_syntax

section \<open>State\<close>

definition PIPESIZE :: uint32 where "PIPESIZE = 512"

record pipe =
  pi_data :: "uchar list"
  pi_nread :: uint32
  pi_nwrite :: uint32
  pi_readopen :: int
  pi_writeopen :: int

record pistate = rstate +
  pipes :: "addr \<Rightarrow> pipe"
  stack_at :: addr

definition get_pipe :: "addr \<Rightarrow> ('z pistate_scheme, pipe) kfun" where
  "get_pipe pi = gets (\<lambda>s. pipes s pi)"

definition set_pipe :: "addr \<Rightarrow> (pipe \<Rightarrow> pipe) \<Rightarrow> ('z pistate_scheme, unit) kfun" where
  "set_pipe pi f = modify (\<lambda>s. s\<lparr>pipes := (pipes s)(pi := f (pipes s pi))\<rparr>)"

section \<open>Closing\<close>

definition pipeclose :: "addr \<Rightarrow> bool \<Rightarrow> ('z pistate_scheme, unit) kfun" where
  "pipeclose pi writable = thn (acquire (PipeLock pi))
     (thn (if writable
           then thn (set_pipe pi (\<lambda>p. p\<lparr>pi_writeopen := 0\<rparr>)) (wakeup (ChanPipeRead pi))
           else thn (set_pipe pi (\<lambda>p. p\<lparr>pi_readopen := 0\<rparr>)) (wakeup (ChanPipeWrite pi)))
     (bnd (get_pipe pi) (\<lambda>p.
       if pi_readopen p = 0 \<and> pi_writeopen p = 0
       then thn (release (PipeLock pi)) (kfree pi)
       else release (PipeLock pi))))"

section \<open>Writing\<close>

definition pipewrite_done :: "addr \<Rightarrow> int \<Rightarrow> ('z pistate_scheme, int) kfun" where
  "pipewrite_done pi i = thn (wakeup (ChanPipeRead pi)) (thn (release (PipeLock pi)) (ret i))"

text \<open>The loop with \<open>k = n - i\<close> bytes to go.\<close>

primrec pipewrite_loop :: "nat \<Rightarrow> addr \<Rightarrow> uint64 \<Rightarrow> int \<Rightarrow> ('z pistate_scheme, int) kfun" where
  "pipewrite_loop 0 pi addr i = pipewrite_done pi i"
| "pipewrite_loop (Suc k) pi addr i = bnd myproc (\<lambda>c. bnd (get_proc c) (\<lambda>pr. bnd (get_pipe pi) (\<lambda>p.
     if pi_readopen p = 0 \<or> p_killed pr \<noteq> 0 then thn (release (PipeLock pi)) (ret (- 1))
     else if pi_nwrite p = pi_nread p + PIPESIZE
     then thn (wakeup (ChanPipeRead pi)) (sleep (ChanPipeWrite pi) (PipeLock pi))
     else bnd (gets stack_at) (\<lambda>ch.
       bnd (copyin (p_pagetable pr) ch (addr + of_int i) 1) (\<lambda>r.
         if r = - 1 then pipewrite_done pi i
         else bnd (gets (\<lambda>s. mem s ch)) (\<lambda>b.
           thn (set_pipe pi (\<lambda>p. p\<lparr>pi_data := (pi_data p)[unat (pi_nwrite p mod PIPESIZE) := b],
                                  pi_nwrite := pi_nwrite p + 1\<rparr>))
               (pipewrite_loop k pi addr (i + 1))))))))"

definition pipewrite :: "addr \<Rightarrow> uint64 \<Rightarrow> int \<Rightarrow> ('z pistate_scheme, int) kfun" where
  "pipewrite pi addr n = thn (acquire (PipeLock pi)) (pipewrite_loop (nat n) pi addr 0)"

definition pipewrite_resume :: "addr \<Rightarrow> uint64 \<Rightarrow> int \<Rightarrow> int \<Rightarrow> ('z pistate_scheme, int) kfun" where
  "pipewrite_resume pi addr n i = thn (sleep_resume (PipeLock pi)) (pipewrite_loop (nat (n - i)) pi addr i)"

section \<open>Reading\<close>

definition piperead_done :: "addr \<Rightarrow> int \<Rightarrow> ('z pistate_scheme, int) kfun" where
  "piperead_done pi i = thn (wakeup (ChanPipeWrite pi)) (thn (release (PipeLock pi)) (ret i))"

primrec piperead_copy :: "nat \<Rightarrow> addr \<Rightarrow> uint64 \<Rightarrow> int \<Rightarrow> ('z pistate_scheme, int) kfun" where
  "piperead_copy 0 pi addr i = piperead_done pi i"
| "piperead_copy (Suc k) pi addr i = bnd myproc (\<lambda>c. bnd (get_proc c) (\<lambda>pr. bnd (get_pipe pi) (\<lambda>p.
     if pi_nread p = pi_nwrite p then piperead_done pi i
     else bnd (gets stack_at) (\<lambda>ch.
       thn (set_pipe pi (\<lambda>p. p\<lparr>pi_nread := pi_nread p + 1\<rparr>))
      (thn (modify (\<lambda>s. s\<lparr>mem := (mem s)(ch := pi_data p ! unat (pi_nread p mod PIPESIZE))\<rparr>))
      (bnd (copyout (p_pagetable pr) (addr + of_int i) ch 1) (\<lambda>r.
         if r = - 1 then piperead_done pi i
         else piperead_copy k pi addr (i + 1))))))))"

text \<open>One test of the waiting loop; after \<open>sleep\<close> the test is made again.\<close>

definition piperead_wait :: "addr \<Rightarrow> uint64 \<Rightarrow> int \<Rightarrow> ('z pistate_scheme, int) kfun" where
  "piperead_wait pi addr n = bnd myproc (\<lambda>c. bnd (get_proc c) (\<lambda>pr. bnd (get_pipe pi) (\<lambda>p.
     if pi_nread p = pi_nwrite p \<and> pi_writeopen p \<noteq> 0
     then if p_killed pr \<noteq> 0 then thn (release (PipeLock pi)) (ret (- 1))
          else sleep (ChanPipeRead pi) (PipeLock pi)
     else piperead_copy (nat n) pi addr 0)))"

definition piperead :: "addr \<Rightarrow> uint64 \<Rightarrow> int \<Rightarrow> ('z pistate_scheme, int) kfun" where
  "piperead pi addr n = thn (acquire (PipeLock pi)) (piperead_wait pi addr n)"

definition piperead_resume :: "addr \<Rightarrow> uint64 \<Rightarrow> int \<Rightarrow> ('z pistate_scheme, int) kfun" where
  "piperead_resume pi addr n = thn (sleep_resume (PipeLock pi)) (piperead_wait pi addr n)"

section \<open>Single bytes across the user boundary\<close>

lemma mymemmove_byte: "mymemmove m dst src 1 = m(dst := m src)"
  by (auto simp: mymemmove_def word_le_nat_alt)

lemma chunk_1: "chunk va 1 = 1"
  using unat_chunk [of va 1] mod_less_divisor [of 4096 "unat va"] by (simp add: word_unat_eq_iff min_def, linarith)

lemma copyin_byte:
  assumes "pt_wf s ps pt" and "user_ok (mem s) pt va"
  shows "copyin pt dst va 1 s = Ret 0 (s\<lparr>mem := (mem s)(dst := mem s (user_pa (mem s) pt va))\<rparr>)"
proof -
  have "PTE2PA (vmap (mem s) pt va) \<noteq> 0" using assms(2) by (simp add: user_ok_def)
  then have "copyin pt dst va 1 s = copyin pt (dst + 1) (PGROUNDDOWN va + PGSIZE) 0
      (s\<lparr>mem := mymemmove (mem s) dst (user_pa (mem s) pt va) 1\<rparr>)"
    using walkaddr_user_ok [OF assms] by (subst copyin.simps) (simp add: monad_simps Let_def chunk_1 user_pa_def)
  then show ?thesis by (simp add: copyin.simps mymemmove_byte)
qed

lemma copyout_byte:
  assumes "pt_wf s ps pt" and "user_ok (mem s) pt va"
  shows "copyout pt va src 1 s = Ret 0 (s\<lparr>mem := (mem s)(user_pa (mem s) pt va := mem s src)\<rparr>)"
proof -
  have "PTE2PA (vmap (mem s) pt va) \<noteq> 0" using assms(2) by (simp add: user_ok_def)
  then have "copyout pt va src 1 s = copyout pt (PGROUNDDOWN va + PGSIZE) (src + 1) 0
      (s\<lparr>mem := mymemmove (mem s) (user_pa (mem s) pt va) src 1\<rparr>)"
    using walkaddr_user_ok [OF assms] by (subst copyout.simps) (simp add: monad_simps Let_def chunk_1 user_pa_def)
  then show ?thesis by (simp add: copyout.simps mymemmove_byte)
qed

section \<open>The queue of a pipe\<close>

interpretation pipe_ring: ring_index PIPESIZE
  by unfold_locales (simp_all add: PIPESIZE_def)

definition pipe_queue :: "pipe \<Rightarrow> uchar list" where
  "pipe_queue p = ring_queue PIPESIZE (pi_data p) (pi_nread p) (pi_nwrite p)"

definition pipe_ok :: "pipe \<Rightarrow> bool" where
  "pipe_ok p \<longleftrightarrow> length (pi_data p) = 512 \<and> length (pipe_queue p) \<le> 512"

definition put_byte :: "uchar \<Rightarrow> pipe \<Rightarrow> pipe" where
  "put_byte b p = p\<lparr>pi_data := (pi_data p)[unat (pi_nwrite p mod PIPESIZE) := b], pi_nwrite := pi_nwrite p + 1\<rparr>"

lemma put_byte_simps [simp]:
  "pi_nread (put_byte b p) = pi_nread p" "pi_readopen (put_byte b p) = pi_readopen p"
  "pi_writeopen (put_byte b p) = pi_writeopen p" "length (pi_data (put_byte b p)) = length (pi_data p)"
  by (simp_all add: put_byte_def)

lemma unat_PIPESIZE [simp]: "unat PIPESIZE = 512"
  by (simp add: PIPESIZE_def)

lemma put_byte_queue:
  assumes "pipe_ok p" and "length (pipe_queue p) < 512"
  shows "pipe_queue (put_byte b p) = pipe_queue p @ [b]" and "pipe_ok (put_byte b p)"
proof -
  show q: "pipe_queue (put_byte b p) = pipe_queue p @ [b]"
    using assms pipe_ring.put [of "pi_nwrite p" "pi_nread p" "pi_data p" b]
    by (simp add: pipe_queue_def pipe_ok_def put_byte_def unat_mod)
  show "pipe_ok (put_byte b p)" using assms q by (simp add: pipe_ok_def)
qed

lemma put_bytes:
  assumes "pipe_ok p" and "length (pipe_queue p) + length bs \<le> 512"
  shows "pipe_queue (fold put_byte bs p) = pipe_queue p @ bs \<and> pipe_ok (fold put_byte bs p) \<and>
    pi_readopen (fold put_byte bs p) = pi_readopen p \<and> pi_writeopen (fold put_byte bs p) = pi_writeopen p"
  using assms
proof (induction bs arbitrary: p)
  case (Cons b bs)
  then have "length (pipe_queue p) < 512" by simp
  note q = put_byte_queue [OF Cons.prems(1) this, of b]
  with Cons.IH [OF q(2)] Cons.prems(2) show ?case by simp
qed simp

lemma pipe_full_iff: "pi_nwrite p = pi_nread p + PIPESIZE \<longleftrightarrow> length (pipe_queue p) = 512"
  using pipe_ring.full_iff [of "pi_nwrite p" "pi_nread p"] by (simp add: pipe_queue_def)

lemma pipe_empty_iff: "pi_nread p = pi_nwrite p \<longleftrightarrow> pipe_queue p = []"
  by (auto simp: pipe_queue_def ring_queue_Nil_iff)

lemma take_byte:
  assumes "pipe_ok p" and "pipe_queue p \<noteq> []"
  shows "pipe_queue p = pi_data p ! unat (pi_nread p mod PIPESIZE) # pipe_queue (p\<lparr>pi_nread := pi_nread p + 1\<rparr>)"
    and "pipe_ok (p\<lparr>pi_nread := pi_nread p + 1\<rparr>)"
proof -
  show q: "pipe_queue p = pi_data p ! unat (pi_nread p mod PIPESIZE) # pipe_queue (p\<lparr>pi_nread := pi_nread p + 1\<rparr>)"
    using assms(2) pipe_ring.get [of "pi_nwrite p" "pi_nread p" "pi_data p"]
    by (simp add: pipe_queue_def ring_queue_Nil_iff unat_mod)
  from arg_cong [OF q, of length] assms(1) show "pipe_ok (p\<lparr>pi_nread := pi_nread p + 1\<rparr>)"
    by (simp add: pipe_ok_def)
qed

section \<open>A process at work on a pipe\<close>

text \<open>The memory a transfer of \<open>n\<close> bytes may use: the user addresses are accessible, and neither they nor
  the kernel's byte \<open>ch\<close> belong to the page table or to each other.\<close>

definition transfer :: "pmem \<Rightarrow> addr \<Rightarrow> addr \<Rightarrow> uint64 \<Rightarrow> nat \<Rightarrow> bool" where
  "transfer m pt ch va n \<longleftrightarrow> user_range m pt va n \<and> (\<forall>p\<in>tables m pt. \<not> in_page p ch) \<and>
     (\<forall>i<n. user_pa m pt (va + of_nat i) \<noteq> ch)"

definition apart :: "pmem \<Rightarrow> addr \<Rightarrow> uint64 \<Rightarrow> nat \<Rightarrow> bool" where
  "apart m pt va n \<longleftrightarrow> (\<forall>i<n. \<forall>p\<in>tables m pt. \<not> in_page p (user_pa m pt (va + of_nat i))) \<and>
     (\<forall>i<n. \<forall>j<n. user_pa m pt (va + of_nat i) = user_pa m pt (va + of_nat j) \<longrightarrow> i = j)"

definition user_bytes :: "pmem \<Rightarrow> addr \<Rightarrow> uint64 \<Rightarrow> nat \<Rightarrow> uchar list" where
  "user_bytes m pt va n = map (\<lambda>i. m (user_pa m pt (va + of_nat i))) [0..<n]"

lemma length_user_bytes [simp]: "length (user_bytes m pt va n) = n"
  by (simp add: user_bytes_def)

definition runs_with :: "'z pistate_scheme \<Rightarrow> nat \<Rightarrow> addr list \<Rightarrow> bool" where
  "runs_with s c ps \<longleftrightarrow> table_ok s \<and> cur s = Some c \<and> c < NPROC \<and> p_killed (procs s ! c) = 0 \<and>
     pt_wf s ps (p_pagetable (procs s ! c))"

lemma keeps_tables:
  assumes "pt_wf s ps pt" and tab: "\<forall>p\<in>tables (mem s) pt. \<forall>a. in_page p a \<longrightarrow> m a = mem s a"
  shows "pt_wf (s\<lparr>mem := m, pipes := P\<rparr>) ps pt" and "user_pa m pt = user_pa (mem s) pt" and "user_ok m pt = user_ok (mem s) pt"
proof -
  have pt: "page_aligned pt" using assms(1) by (simp add: pt_wf_def)
  have f: "\<And>p a. p \<in> tables (mem s) pt \<Longrightarrow> in_page p a \<Longrightarrow> m a = mem s a" using tab by blast
  show "pt_wf (s\<lparr>mem := m, pipes := P\<rparr>) ps pt" using tables_frame [OF pt f] assms(1) by (simp add: pt_wf_def)
  have "vmap m pt = vmap (mem s) pt" by (rule ext, rule vmap_frame [OF pt f])
  from user_cong [OF this] show "user_pa m pt = user_pa (mem s) pt" "user_ok m pt = user_ok (mem s) pt" by auto
qed

lemma pipes_mem: "s\<lparr>pipes := P, mem := m\<rparr> = s\<lparr>mem := m, pipes := P\<rparr>"
  by simp

lemma pipewrite_bytes:
  assumes "runs_with s c ps" and "pt = p_pagetable (procs s ! c)" and "transfer (mem s) pt (stack_at s) addr n"
    and "pipe_ok (pipes s pi)" and "pi_readopen (pipes s pi) \<noteq> 0"
    and "j \<le> n" and "length (pipe_queue (pipes s pi)) + j \<le> 512"
  shows "\<exists>b. pipewrite_loop (j + k) pi addr 0 s = pipewrite_loop k pi addr (int j)
    (s\<lparr>mem := (mem s)(stack_at s := b),
       pipes := (pipes s)(pi := fold put_byte (user_bytes (mem s) pt addr j) (pipes s pi))\<rparr>)"
  using assms(6,7)
proof (induction j arbitrary: k)
  case 0
  show ?case by (intro exI [of _ "mem s (stack_at s)"]) (simp add: user_bytes_def)
next
  case (Suc j)
  let ?ch = "stack_at s" and ?bs = "user_bytes (mem s) pt addr j"
  let ?p = "fold put_byte ?bs (pipes s pi)"
  obtain b where b: "pipewrite_loop (j + Suc k) pi addr 0 s = pipewrite_loop (Suc k) pi addr (int j)
      (s\<lparr>mem := (mem s)(?ch := b), pipes := (pipes s)(pi := ?p)\<rparr>)" (is "_ = pipewrite_loop _ _ _ _ ?s")
    using Suc.IH [of "Suc k", OF Suc_leD [OF Suc.prems(1)]] Suc.prems(2)
    by (auto simp del: pipewrite_loop.simps fun_upd_apply)
  have p: "pipe_queue ?p = pipe_queue (pipes s pi) @ ?bs" "pipe_ok ?p" "pi_readopen ?p \<noteq> 0"
    using put_bytes [OF assms(4), of ?bs] assms(5) Suc.prems(2) by simp_all
  then have room: "pi_nwrite ?p \<noteq> pi_nread ?p + PIPESIZE"
    using Suc.prems(2) by (simp add: pipe_full_iff)
  have run: "cur s = Some c" "p_killed (procs s ! c) = 0" "pt_wf s ps pt"
    using assms(1,2) by (simp_all add: runs_with_def)
  have keep: "\<forall>q\<in>tables (mem s) pt. \<forall>a. in_page q a \<longrightarrow> ((mem s)(?ch := b)) a = mem s a"
    using assms(3) by (auto simp: transfer_def)
  note pt = keeps_tables [OF run(3) keep]
  have here: "user_ok (mem s) pt (addr + of_nat j)" "user_pa (mem s) pt (addr + of_nat j) \<noteq> ?ch"
    using assms(3) Suc.prems(1) by (simp_all add: transfer_def user_range_def)
  let ?b = "mem s (user_pa (mem s) pt (addr + of_nat j))"
  have "copyin pt ?ch (addr + of_int (int j)) 1 ?s = Ret 0 (?s\<lparr>mem := (mem s)(?ch := ?b)\<rparr>)"
    using copyin_byte [OF pt(1), where va = "addr + of_nat j" and dst = ?ch] here pt(2,3)
    by (simp add: fun_upd_other fun_upd_same del: fun_upd_apply)
  then have "pipewrite_loop (Suc k) pi addr (int j) ?s = pipewrite_loop k pi addr (int j + 1)
      (s\<lparr>mem := (mem s)(?ch := ?b), pipes := (pipes s)(pi := put_byte ?b ?p)\<rparr>)"
    using run(1,2) room p(3) assms(2) by (simp add: proc_run get_pipe_def set_pipe_def put_byte_def)
  moreover have "fold put_byte (user_bytes (mem s) pt addr (Suc j)) (pipes s pi) = put_byte ?b ?p"
    by (simp add: user_bytes_def)
  ultimately show ?case using b
    by (intro exI [of _ ?b]) (simp add: add.commute [of 1] del: pipewrite_loop.simps fun_upd_apply)
qed

lemma drop_bytes:
  assumes "pipe_ok p" and "j \<le> length (pipe_queue p)"
  shows "pipe_queue (p\<lparr>pi_nread := pi_nread p + of_nat j\<rparr>) = drop j (pipe_queue p) \<and> pipe_ok (p\<lparr>pi_nread := pi_nread p + of_nat j\<rparr>)"
  using assms(2)
proof (induction j)
  case (Suc j)
  let ?p = "p\<lparr>pi_nread := pi_nread p + of_nat j\<rparr>"
  have "pipe_queue ?p = drop j (pipe_queue p)" "pipe_ok ?p" using Suc by auto
  moreover from this Suc.prems have "pipe_queue ?p \<noteq> []" by simp
  ultimately show ?case using take_byte [of ?p] by (simp add: drop_Suc tl_drop [symmetric] add.assoc add.commute [of 1])
qed (use assms(1) in simp)

lemma piperead_bytes:
  assumes "runs_with s c ps" and "pt = p_pagetable (procs s ! c)" and "transfer (mem s) pt (stack_at s) addr n"
    and "apart (mem s) pt addr n" and "pipe_ok (pipes s pi)" and "j \<le> n" and "j \<le> length (pipe_queue (pipes s pi))"
  shows "\<exists>m. piperead_copy (j + k) pi addr 0 s = piperead_copy k pi addr (int j)
      (s\<lparr>mem := m, pipes := (pipes s)(pi := (pipes s pi)\<lparr>pi_nread := pi_nread (pipes s pi) + of_nat j\<rparr>)\<rparr>) \<and>
    (\<forall>i<j. m (user_pa (mem s) pt (addr + of_nat i)) = pipe_queue (pipes s pi) ! i) \<and>
    (\<forall>a. a \<noteq> stack_at s \<and> (\<forall>i<j. a \<noteq> user_pa (mem s) pt (addr + of_nat i)) \<longrightarrow> m a = mem s a)"
  using assms(6,7)
proof (induction j arbitrary: k)
  case 0
  show ?case by (intro exI [of _ "mem s"]) simp
next
  case (Suc j)
  let ?ch = "stack_at s" and ?u = "\<lambda>i. user_pa (mem s) pt (addr + of_nat i)"
  let ?p = "(pipes s pi)\<lparr>pi_nread := pi_nread (pipes s pi) + of_nat j\<rparr>" and ?q = "pipe_queue (pipes s pi)"
  let ?P = "(pipes s)(pi := ?p\<lparr>pi_nread := pi_nread ?p + 1\<rparr>)"
  obtain m where m: "piperead_copy (j + Suc k) pi addr 0 s = piperead_copy (Suc k) pi addr (int j)
        (s\<lparr>mem := m, pipes := (pipes s)(pi := ?p)\<rparr>)"
      "\<forall>i<j. m (?u i) = ?q ! i" "\<forall>a. a \<noteq> ?ch \<and> (\<forall>i<j. a \<noteq> ?u i) \<longrightarrow> m a = mem s a"
    using Suc.IH [of "Suc k", OF Suc_leD [OF Suc.prems(1)] Suc_leD [OF Suc.prems(2)]] by blast
  have p: "pipe_queue ?p = drop j ?q" "pipe_ok ?p" using drop_bytes [OF assms(5) Suc_leD [OF Suc.prems(2)]] by simp_all
  with Suc.prems(2) have some: "pipe_queue ?p \<noteq> []" by simp
  define b where "b = pi_data ?p ! unat (pi_nread ?p mod PIPESIZE)"
  have b: "b = ?q ! j" using arg_cong [OF take_byte(1) [OF p(2) some], of hd] p(1) Suc.prems(2)
    unfolding b_def by (simp only: list.sel hd_drop_conv_nth Suc_le_lessD)
  have run: "cur s = Some c" "pt_wf s ps pt" using assms(1,2) by (simp_all add: runs_with_def)
  let ?m = "m(?ch := b)"
  have "\<forall>q\<in>tables (mem s) pt. \<forall>a. in_page q a \<longrightarrow> ?m a = mem s a"
    using assms(3,4) m(3) Suc.prems(1) by (auto simp: transfer_def apart_def)
  note pt = keeps_tables [OF run(2) this]
  have u: "user_ok (mem s) pt (addr + of_nat j)" "?u j \<noteq> ?ch" using assms(3) Suc.prems(1)
    by (simp_all add: transfer_def user_range_def)
  have co: "copyout pt (addr + of_int (int j)) ?ch 1 (s\<lparr>mem := ?m, pipes := ?P\<rparr>) =
      Ret 0 (s\<lparr>mem := ?m(?u j := b), pipes := ?P\<rparr>)"
    using copyout_byte [OF pt(1), where va = "addr + of_nat j" and src = ?ch] u pt(2,3)
    by (simp add: fun_upd_other fun_upd_same del: fun_upd_apply)
  have turn: "piperead_copy (Suc k) pi addr (int j) (s\<lparr>mem := m, pipes := (pipes s)(pi := ?p)\<rparr>) =
      piperead_copy k pi addr (int j + 1) (s\<lparr>mem := ?m(?u j := b), pipes := ?P\<rparr>)"
    using run(1) co some assms(2) pipe_empty_iff [of ?p]
    by (simp add: proc_run get_pipe_def set_pipe_def b_def pipes_mem fun_upd_same del: fun_upd_apply)
  have apart: "?u i \<noteq> ?u j \<and> ?u i \<noteq> ?ch" if "i < j" for i
  proof -
    have "i < n" "j < n" "i \<noteq> j" using that Suc.prems(1) by simp_all
    then show ?thesis using assms(3,4) unfolding apart_def transfer_def by blast
  qed
  show ?case
  proof (intro exI [of _ "?m(?u j := b)"] conjI allI impI)
    show "piperead_copy (Suc j + k) pi addr 0 s = piperead_copy k pi addr (int (Suc j))
        (s\<lparr>mem := ?m(?u j := b), pipes := (pipes s)(pi := (pipes s pi)\<lparr>pi_nread := pi_nread (pipes s pi) + of_nat (Suc j)\<rparr>)\<rparr>)"
      using m(1) turn by (simp add: add.assoc add.commute [of 1] del: piperead_copy.simps fun_upd_apply)
    show "(?m(?u j := b)) (?u i) = ?q ! i" if "i < Suc j" for i
      using that m(2) apart b by (cases "i = j") auto
    show "(?m(?u j := b)) a = mem s a" if "a \<noteq> ?ch \<and> (\<forall>i<Suc j. a \<noteq> ?u i)" for a using that m(3) by simp
  qed
qed

lemma wake_and_release:
  assumes "table_ok s" and "held s = [PipeLock pi]"
  obtains ts where "thn (wakeup ch) (thn (release (PipeLock pi)) (ret i)) s = Ret i (s\<lparr>procs := ts, held := []\<rparr>)"
    and "\<forall>j<NPROC. ts ! j = woken ch (cur s) j (procs s ! j)"
proof -
  obtain ts where "wakeup ch s = Ret () (s\<lparr>procs := ts\<rparr>)" "\<And>j. j < NPROC \<Longrightarrow> ts ! j = woken ch (cur s) j (procs s ! j)"
    using wakeup_run [OF assms(1)] by metis
  with assms(2) show thesis by (intro that [of ts]) (simp_all add: monad_simps)
qed

lemma sleep_run:
  assumes "cur s = Some c" and "c < length (procs s)" and "held s = [PipeLock pi]"
  shows "sleep ch (PipeLock pi) s = Sleep ch
    (s\<lparr>procs := (procs s)[c := (procs s ! c)\<lparr>p_chan := Some ch, p_state := SLEEPING\<rparr>], held := [], cur := None\<rparr>)"
  using assms by (simp add: sleep_def proc_run sched_run)

lemma pipewrite_full:
  assumes "runs_with s c ps" and "held s = [PipeLock pi]" and "pi_readopen (pipes s pi) \<noteq> 0"
    and "length (pipe_queue (pipes s pi)) = 512"
  shows "\<exists>t. pipewrite_loop (Suc k) pi addr i s = Sleep (ChanPipeWrite pi) t \<and> pipes t = pipes s \<and> mem t = mem s"
proof -
  have run: "table_ok s" "cur s = Some c" "c < NPROC" "p_killed (procs s ! c) = 0" using assms(1) by (simp_all add: runs_with_def)
  obtain ts where ts: "wakeup (ChanPipeRead pi) s = Ret () (s\<lparr>procs := ts\<rparr>)" "length ts = NPROC"
    using wakeup_run [OF run(1)] by metis
  then show ?thesis using run assms(2-4) by (simp add: proc_run get_pipe_def pipe_full_iff sleep_run)
qed

lemma piperead_empty:
  assumes "runs_with s c ps" and "pipe_queue (pipes s pi) = []"
  shows "piperead_copy k pi addr i s = piperead_done pi i s"
  using assms by (cases k) (simp_all add: runs_with_def proc_run get_pipe_def pipe_empty_iff)

text \<open>What a process that takes the lock of a pipe sees of the state.\<close>

lemma locked_pipe:
  assumes "runs_with s c ps" and "held s = []"
  shows "acquire (PipeLock pi) s = Ret () (s\<lparr>held := [PipeLock pi]\<rparr>)" and "runs_with (s\<lparr>held := [PipeLock pi]\<rparr>) c ps"
  using assms by (auto simp: monad_simps runs_with_def table_ok_def pt_wf_def)

lemma runs_with_mem:
  assumes "runs_with s c ps" and "pt_wf (s\<lparr>mem := m, pipes := P\<rparr>) ps (p_pagetable (procs s ! c))"
  shows "runs_with (s\<lparr>mem := m, pipes := P\<rparr>) c ps"
proof -
  have "table_ok s" using assms(1) by (simp add: runs_with_def)
  then have "table_ok (s\<lparr>mem := m, pipes := P\<rparr>)" unfolding table_ok_def by simp
  then show ?thesis using assms unfolding runs_with_def by simp
qed

section \<open>Example\<close>

text \<open>Process 0 with one page of user memory, and a pipe with two bytes whose write counter has just wrapped.\<close>

definition two_bytes :: pipe where
  "two_bytes = \<lparr>pi_data = replicate 512 7, pi_nread = 0xFFFFFFFE, pi_nwrite = 0, pi_readopen = 1, pi_writeopen = 1\<rparr>"

definition small_pipes :: "pmem \<Rightarrow> pistate" where
  "small_pipes m = rstate.extend
     (no_rings\<lparr>mem := m, procs := (procs small_table)[0 := (procs small_table ! 0)\<lparr>p_pagetable := 0x87FFC000\<rparr>]\<rparr>)
     (pistate.fields (\<lambda>_. two_bytes) 0x80010000)"

lemma small_pipes_simps [simp]:
  "pipes (small_pipes m) = (\<lambda>_. two_bytes)" "held (small_pipes m) = []" "cur (small_pipes m) = Some 0"
  "mem (small_pipes m) = m" "stack_at (small_pipes m) = 0x80010000"
  "procs (small_pipes m) = (procs small_table)[0 := (procs small_table ! 0)\<lparr>p_pagetable := 0x87FFC000\<rparr>]"
  by (simp_all add: small_pipes_def rstate.defs pistate.defs no_rings_def pstate.defs small_table_def)

lemma two_bytes_queue: "pipe_queue two_bytes = [7, 7]" "pipe_ok two_bytes" "pi_readopen two_bytes = 1" "pi_writeopen two_bytes = 1"
proof -
  have "pipe_queue two_bytes = map (\<lambda>i. 7) [0..<2]"
    by (simp add: pipe_queue_def ring_queue_def two_bytes_def del: upt_Suc)
  then show "pipe_queue two_bytes = [7, 7]" by (simp add: numeral_2_eq_2)
  then show "pipe_ok two_bytes" by (simp add: pipe_ok_def two_bytes_def)
qed (simp_all add: two_bytes_def)

lemma small_pipes_example:
  "\<exists>m ps. runs_with (small_pipes m) 0 ps \<and> p_pagetable (procs (small_pipes m) ! 0) = 0x87FFC000 \<and>
     transfer m 0x87FFC000 0x80010000 0x5000 8 \<and> apart m 0x87FFC000 0x5000 8 \<and>
     (\<forall>i<8. user_pa m 0x87FFC000 (0x5000 + of_nat i) = 0x87FFD000 + of_nat i)"
proof -
  let ?pt = "0x87FFC000 :: addr"
  obtain s :: mstate and ps where s: "pt_wf s ps ?pt" "tables (mem s) ?pt \<subseteq> {?pt, 0x87FFE000, 0x87FFF000}"
      "user_range (mem s) ?pt 0x5000 8"
      "\<forall>i<8. user_pa (mem s) ?pt (0x5000 + of_nat i) = 0x87FFD000 + of_nat i"
    using one_page_user by blast
  have u: "unat (0x87FFD000 + of_nat i :: addr) = 0x87FFD000 + i" if "i < 8" for i
    using that by (simp add: unat_word_ariths unat_of_nat)
  have tab: "\<not> in_page p a" if "p \<in> tables (mem s) ?pt" "unat a < 0x87FFC000 \<or> unat a div 4096 = 0x87FFD" for p a
  proof -
    have "p = ?pt \<or> p = 0x87FFE000 \<or> p = 0x87FFF000" using s(2) that(1) by blast
    then show ?thesis using that(2) by (auto simp: in_range_nat)
  qed
  have "apart (mem s) ?pt 0x5000 8"
    unfolding apart_def using s(4) u tab by (auto simp: word_unat_eq_iff)
  moreover have "transfer (mem s) ?pt 0x80010000 0x5000 8"
    unfolding transfer_def using s(3,4) u tab by (auto simp: word_unat_eq_iff)
  moreover have "p_killed (procs (small_pipes (mem s)) ! 0) = 0" "p_pagetable (procs (small_pipes (mem s)) ! 0) = ?pt"
    by (simp_all add: small_table_procs NPROC_def unused_proc_def)
  ultimately show ?thesis using s(1,4)
    by (intro exI [of _ "mem s"] exI [of _ ps]) (simp add: runs_with_def table_ok_def NPROC_def pt_wf_def)
qed

section \<open>Properties\<close>

text \<open>C31: A write to an open pipe appends the process's bytes to the bytes in the pipe, in order: all of them
  if they fit, when it also wakes every reader; otherwise it fills the pipe to its 512 bytes and sleeps.
  The counters may wrap around on the way.\<close>

theorem pipewrite_correct:
  assumes "runs_with s c ps" and "pt = p_pagetable (procs s ! c)" and "held s = []"
    and "transfer (mem s) pt (stack_at s) addr n" and "pipe_ok (pipes s pi)" and "pi_readopen (pipes s pi) \<noteq> 0"
    and "q = pipe_queue (pipes s pi)"
  shows "if length q + n \<le> 512
    then \<exists>t. pipewrite pi addr (int n) s = Ret (int n) t \<and> held t = [] \<and>
      pipe_queue (pipes t pi) = q @ user_bytes (mem s) pt addr n \<and> pipe_ok (pipes t pi) \<and>
      (\<forall>j<NPROC. procs t ! j = woken (ChanPipeRead pi) (Some c) j (procs s ! j))
    else \<exists>t. pipewrite pi addr (int n) s = Sleep (ChanPipeWrite pi) t \<and>
      pipe_queue (pipes t pi) = q @ user_bytes (mem s) pt addr (512 - length q) \<and> length (pipe_queue (pipes t pi)) = 512"
proof -
  let ?s = "s\<lparr>held := [PipeLock pi]\<rparr>"
  note lock = locked_pipe [OF assms(1,3), of pi]
  define j where "j = min n (512 - length q)"
  have j: "j \<le> n" "length q + j \<le> 512" using assms(5,7) by (auto simp: j_def pipe_ok_def)
  let ?p = "fold put_byte (user_bytes (mem s) pt addr j) (pipes s pi)"
  have p: "pipe_queue ?p = q @ user_bytes (mem s) pt addr j" "pipe_ok ?p" "pi_readopen ?p \<noteq> 0"
    using put_bytes [OF assms(5), of "user_bytes (mem s) pt addr j"] j(2) assms(6,7) by simp_all
  from pipewrite_bytes [OF lock(2), of pt addr n pi j "n - j"] assms j obtain b where
    run: "pipewrite_loop n pi addr 0 ?s = pipewrite_loop (n - j) pi addr (int j)
      (?s\<lparr>mem := (mem s)(stack_at s := b), pipes := (pipes s)(pi := ?p)\<rparr>)" (is "_ = pipewrite_loop _ _ _ _ ?t")
    by (auto simp del: pipewrite_loop.simps fun_upd_apply)
  have "\<forall>q\<in>tables (mem s) pt. \<forall>a. in_page q a \<longrightarrow> ((mem s)(stack_at s := b)) a = mem s a"
    using assms(4) by (auto simp: transfer_def)
  then have t: "runs_with ?t c ps"
    using keeps_tables(1) [of ?s ps pt "(mem s)(stack_at s := b)"] lock(2) assms(2) by (intro runs_with_mem) (simp_all add: runs_with_def)
  show ?thesis
  proof (cases "length q + n \<le> 512")
    case True
    then have "j = n" by (simp add: j_def)
    obtain ts where "pipewrite_done pi (int n) ?t = Ret (int n) (?t\<lparr>procs := ts, held := []\<rparr>)"
        "\<forall>j<NPROC. ts ! j = woken (ChanPipeRead pi) (cur ?t) j (procs ?t ! j)"
      unfolding pipewrite_done_def using t by (elim wake_and_release [rotated 2]) (simp_all add: runs_with_def)
    then show ?thesis using True run p \<open>j = n\<close> lock(1) assms(1)
      by (simp add: pipewrite_def monad_simps runs_with_def)
  next
    case False
    then have j: "j = 512 - length q" "n - j = Suc (n - j - 1)" using assms(5,7) by (auto simp: j_def pipe_ok_def)
    have "length q \<le> 512" using assms(5,7) by (simp add: pipe_ok_def)
    with p(1) j(1) have len: "length (pipe_queue ?p) = 512" by simp
    from pipewrite_full [OF t, of pi "n - j - 1" addr "int j"] len p(3) obtain t' where
      "pipewrite_loop (n - j) pi addr (int j) ?t = Sleep (ChanPipeWrite pi) t'" "pipes t' = pipes ?t"
      unfolding j(2) [symmetric] by auto
    then show ?thesis using False run lock(1) p(1) len j(1)
      by (simp add: pipewrite_def monad_simps del: length_user_bytes)
  qed
qed

theorem pipewrite_correct_witness:
  "\<exists>m t. pipewrite 0x87FFA000 0x5000 8 (small_pipes m) = Ret 8 t \<and>
     pipe_queue (pipes t 0x87FFA000) = [7, 7] @ user_bytes m 0x87FFC000 0x5000 8"
proof -
  obtain m ps where e: "runs_with (small_pipes m) 0 ps" "p_pagetable (procs (small_pipes m) ! 0) = 0x87FFC000"
      "transfer m 0x87FFC000 0x80010000 0x5000 8"
    using small_pipes_example by blast
  from pipewrite_correct [OF e(1) refl, of "0x5000" 8 "0x87FFA000" "[7, 7]"] e two_bytes_queue show ?thesis by auto
qed

text \<open>C32: A read of \<open>n\<close> bytes from a pipe that has some, or that nobody can write to any more, gives the process
  the oldest bytes in order, at most \<open>n\<close> of them, takes exactly these from the pipe, changes no other user
  memory and wakes every writer; from a pipe that is empty and open for writing it sleeps.\<close>

theorem piperead_correct:
  assumes "runs_with s c ps" and "pt = p_pagetable (procs s ! c)" and "held s = []"
    and "transfer (mem s) pt (stack_at s) addr n" and "apart (mem s) pt addr n" and "pipe_ok (pipes s pi)"
    and "q = pipe_queue (pipes s pi)"
  shows "if q = [] \<and> pi_writeopen (pipes s pi) \<noteq> 0
    then \<exists>t. piperead pi addr (int n) s = Sleep (ChanPipeRead pi) t \<and> pipes t = pipes s
    else \<exists>t. piperead pi addr (int n) s = Ret (int (min n (length q))) t \<and> held t = [] \<and>
      pipe_queue (pipes t pi) = drop n q \<and>
      (\<forall>i<min n (length q). mem t (user_pa (mem s) pt (addr + of_nat i)) = q ! i) \<and>
      (\<forall>a. a \<noteq> stack_at s \<and> (\<forall>i<min n (length q). a \<noteq> user_pa (mem s) pt (addr + of_nat i)) \<longrightarrow> mem t a = mem s a) \<and>
      (\<forall>j<NPROC. procs t ! j = woken (ChanPipeWrite pi) (Some c) j (procs s ! j))"
proof -
  let ?s = "s\<lparr>held := [PipeLock pi]\<rparr>" and ?u = "\<lambda>i. user_pa (mem s) pt (addr + of_nat i)"
  note lock = locked_pipe [OF assms(1,3), of pi]
  have run: "cur s = Some c" "c < length (procs s)" "p_killed (procs s ! c) = 0"
    using assms(1) by (simp_all add: runs_with_def table_ok_def)
  show ?thesis
  proof (cases "q = [] \<and> pi_writeopen (pipes s pi) \<noteq> 0")
    case True
    with run lock(1) assms(7) show ?thesis
      by (simp add: piperead_def piperead_wait_def proc_run get_pipe_def pipe_empty_iff sleep_run)
  next
    case False
    define j where "j = min n (length q)"
    let ?p = "(pipes s pi)\<lparr>pi_nread := pi_nread (pipes s pi) + of_nat j\<rparr>"
    have j: "j \<le> n" "j \<le> length q" by (simp_all add: j_def)
    have p: "pipe_queue ?p = drop j q" using drop_bytes [OF assms(6), of j] j(2) assms(7) by simp
    from piperead_bytes [OF lock(2), of pt addr n pi j "n - j"] assms j obtain m where
      m: "piperead_copy n pi addr 0 ?s = piperead_copy (n - j) pi addr (int j)
          (?s\<lparr>mem := m, pipes := (pipes s)(pi := ?p)\<rparr>)" (is "_ = piperead_copy _ _ _ _ ?t")
        "\<forall>i<j. m (?u i) = q ! i" "\<forall>a. a \<noteq> stack_at s \<and> (\<forall>i<j. a \<noteq> ?u i) \<longrightarrow> m a = mem s a"
      by (auto simp del: piperead_copy.simps fun_upd_apply)
    have "\<forall>p\<in>tables (mem s) pt. \<forall>a. in_page p a \<longrightarrow> m a = mem s a"
    proof (intro ballI allI impI)
      fix p a assume "p \<in> tables (mem s) pt" "in_page p a"
      then have "a \<noteq> stack_at s \<and> (\<forall>i<n. a \<noteq> ?u i)" using assms(4,5) by (auto simp: transfer_def apart_def)
      then show "m a = mem s a" using m(3) j(1) by simp
    qed
    then have t: "runs_with ?t c ps"
      using keeps_tables(1) [of ?s ps pt m] lock(2) assms(2) by (intro runs_with_mem) (simp_all add: runs_with_def)
    have "n = j \<or> pipe_queue (pipes ?t pi) = []" using p by (auto simp: j_def)
    then have "piperead_copy (n - j) pi addr (int j) ?t = piperead_done pi (int j) ?t"
      using piperead_empty [OF t] by auto
    moreover obtain ts where ts: "piperead_done pi (int j) ?t = Ret (int j) (?t\<lparr>procs := ts, held := []\<rparr>)"
        "\<forall>j<NPROC. ts ! j = woken (ChanPipeWrite pi) (cur ?t) j (procs ?t ! j)"
      unfolding piperead_done_def using t by (elim wake_and_release [rotated 2]) (simp_all add: runs_with_def)
    moreover have "piperead pi addr (int n) s = piperead_copy n pi addr 0 ?s"
      using False run lock(1) assms(7) by (auto simp: piperead_def piperead_wait_def proc_run get_pipe_def pipe_empty_iff)
    ultimately have r: "piperead pi addr (int n) s = Ret (int j) (?t\<lparr>procs := ts, held := []\<rparr>)" using m(1) by simp
    have "drop j q = drop n q" by (simp add: j_def min_def)
    then show ?thesis
      unfolding if_not_P [OF False] j_def [symmetric] using r p m(2,3) ts(2) run(1) by simp
  qed
qed

theorem piperead_correct_witness:
  "\<exists>m t. piperead 0x87FFA000 0x5000 8 (small_pipes m) = Ret 2 t \<and> pipe_queue (pipes t 0x87FFA000) = [] \<and>
     mem t 0x87FFD001 = 7"
proof -
  obtain m ps where e: "runs_with (small_pipes m) 0 ps" "p_pagetable (procs (small_pipes m) ! 0) = 0x87FFC000"
      "transfer m 0x87FFC000 0x80010000 0x5000 8" "apart m 0x87FFC000 0x5000 8"
      "\<forall>i<8. user_pa m 0x87FFC000 (0x5000 + of_nat i) = 0x87FFD000 + of_nat i"
    using small_pipes_example by blast
  from piperead_correct [OF e(1) refl, of "0x5000" 8 "0x87FFA000" "[7, 7]"] e(2-4) two_bytes_queue
  obtain t where t: "piperead 0x87FFA000 0x5000 8 (small_pipes m) = Ret 2 t" "pipe_queue (pipes t 0x87FFA000) = []"
      "\<forall>i<2. mem t (user_pa m 0x87FFC000 (0x5000 + of_nat i)) = [7, 7] ! i"
    by (auto simp: numeral_2_eq_2)
  from t(3) e(5) have "mem t 0x87FFD001 = 7" by (auto dest!: spec [of _ 1])
  with t(1,2) show ?thesis by blast
qed

end
