(* ===== verification/Ulib.thy ===== *)
theory Ulib
  imports CString
begin

text \<open>
  The C library of user programs, \<open>user/ulib.c\<close>, on the byte memory of a process.  \<open>None\<close> stands for a
  loop that never ends or for an overflow of a C \<open>int\<close>.  Names that the kernel's string routines have
  too carry the prefix \<open>u_\<close>.  System calls are arguments: \<open>rd\<close> is \<open>read(0, &c, 1)\<close>, with its result
  and the byte read; \<open>opn\<close>, \<open>fstat\<close> and \<open>cls\<close> are \<open>open\<close>, \<open>fstat\<close> and \<open>close\<close>.
\<close>

definition INT_MAX :: int where "INT_MAX = 2147483647"

section \<open>Strings\<close>

partial_function (option) strcpy_loop :: "pmem \<Rightarrow> addr \<Rightarrow> addr \<Rightarrow> pmem option" where
  "strcpy_loop m s t = (let m' = m(s := m t) in if m t \<noteq> 0 then strcpy_loop m' (s + 1) (t + 1) else Some m')"

definition u_strcpy :: "pmem \<Rightarrow> addr \<Rightarrow> addr \<Rightarrow> (addr \<times> pmem) option" where
  "u_strcpy m s t = map_option (\<lambda>m'. (s, m')) (strcpy_loop m s t)"

partial_function (option) u_strcmp :: "pmem \<Rightarrow> addr \<Rightarrow> addr \<Rightarrow> int option" where
  "u_strcmp m p q = (if m p \<noteq> 0 \<and> m p = m q then u_strcmp m (p + 1) (q + 1) else Some (uint (m p) - uint (m q)))"

partial_function (option) u_strlen_from :: "pmem \<Rightarrow> addr \<Rightarrow> int \<Rightarrow> uint32 option" where
  "u_strlen_from m s n = (if m (s + of_int n) \<noteq> 0
     then if n + 1 > INT_MAX then None else u_strlen_from m s (n + 1)
     else Some (of_int n))"

definition u_strlen :: "pmem \<Rightarrow> addr \<Rightarrow> uint32 option" where
  "u_strlen m s = u_strlen_from m s 0"

text \<open>\<open>strchr\<close> returns 0 when the character does not occur.\<close>

partial_function (option) strchr :: "pmem \<Rightarrow> addr \<Rightarrow> uchar \<Rightarrow> addr option" where
  "strchr m s c = (if m s = 0 then Some 0 else if m s = c then Some s else strchr m (s + 1) c)"

partial_function (option) atoi_loop :: "pmem \<Rightarrow> addr \<Rightarrow> int \<Rightarrow> int option" where
  "atoi_loop m s n = (if 48 \<le> m s \<and> m s \<le> 57
     then if n * 10 + uint (m s) > INT_MAX then None else atoi_loop m (s + 1) (n * 10 + uint (m s) - 48)
     else Some n)"

definition atoi :: "pmem \<Rightarrow> addr \<Rightarrow> int option" where
  "atoi m s = atoi_loop m s 0"

section \<open>Memory\<close>

definition u_memset :: "pmem \<Rightarrow> addr \<Rightarrow> int \<Rightarrow> uint32 \<Rightarrow> (addr \<times> pmem) option" where
  "u_memset m dst c n = (if uint n > INT_MAX then None else Some (dst, memset m dst (of_int c) (unat n)))"

definition u_memmove :: "pmem \<Rightarrow> addr \<Rightarrow> addr \<Rightarrow> int \<Rightarrow> addr \<times> pmem" where
  "u_memmove m vdst vsrc n = (vdst,
     if vsrc > vdst then copy_up (nat n) m vdst vsrc
     else copy_down (nat n) m (vdst + of_int n) (vsrc + of_int n))"

primrec u_memcmp :: "nat \<Rightarrow> pmem \<Rightarrow> addr \<Rightarrow> addr \<Rightarrow> int" where
  "u_memcmp 0 m p1 p2 = 0"
| "u_memcmp (Suc n) m p1 p2 = (if m p1 \<noteq> m p2 then uint (m p1) - uint (m p2) else u_memcmp n m (p1 + 1) (p2 + 1))"

definition u_memcpy :: "pmem \<Rightarrow> addr \<Rightarrow> addr \<Rightarrow> uint32 \<Rightarrow> addr \<times> pmem" where
  "u_memcpy m dst src n = u_memmove m dst src (sint n)"

section \<open>Input and files\<close>

text \<open>\<open>gets\<close>; \<open>k\<close> is how often \<open>i+1 < max\<close> can still hold.\<close>

primrec gets_loop :: "nat \<Rightarrow> ('s \<Rightarrow> (int \<times> uchar) \<times> 's) \<Rightarrow> pmem \<Rightarrow> addr \<Rightarrow> 's \<Rightarrow> pmem \<times> addr \<times> 's" where
  "gets_loop 0 rd m p s = (m, p, s)"
| "gets_loop (Suc k) rd m p s = (let ((cc, c), s') = rd s in
     if cc < 1 then (m, p, s')
     else if c = 10 \<or> c = 13 then (m(p := c), p + 1, s')
     else gets_loop k rd (m(p := c)) (p + 1) s')"

definition u_gets :: "('s \<Rightarrow> (int \<times> uchar) \<times> 's) \<Rightarrow> pmem \<Rightarrow> addr \<Rightarrow> int \<Rightarrow> 's \<Rightarrow> addr \<times> pmem \<times> 's" where
  "u_gets rd m buf mx s = (let (m', p, s') = gets_loop (nat (mx - 1)) rd m buf s in (buf, m'(p := 0), s'))"

definition stat :: "('s \<Rightarrow> int \<times> 's) \<Rightarrow> (int \<Rightarrow> 's \<Rightarrow> int \<times> 's) \<Rightarrow> (int \<Rightarrow> 's \<Rightarrow> int \<times> 's) \<Rightarrow> 's \<Rightarrow> int \<times> 's" where
  "stat opn fstat cls s = (let (fd, s1) = opn s in
     if fd < 0 then (- 1, s1)
     else let (r, s2) = fstat fd s1; (_, s3) = cls fd s2 in (r, s3))"

section \<open>C strings in memory\<close>

text \<open>\<open>str_at m s cs\<close>: the bytes from \<open>s\<close> on are \<open>cs\<close> and a final zero, with no zero before.\<close>

primrec str_at :: "pmem \<Rightarrow> addr \<Rightarrow> uchar list \<Rightarrow> bool" where
  "str_at m s [] \<longleftrightarrow> m s = 0"
| "str_at m s (c # cs) \<longleftrightarrow> m s = c \<and> c \<noteq> 0 \<and> str_at m (s + 1) cs"

lemma str_at_cong:
  "(\<And>a. in_range s (Suc (length cs)) a \<Longrightarrow> m' a = m a) \<Longrightarrow> Suc (length cs) \<le> 2 ^ 64 \<Longrightarrow> str_at m s cs \<Longrightarrow> str_at m' s cs"
proof (induction cs arbitrary: s)
  case (Cons c cs)
  have "m' a = m a" if "in_range (s + 1) (Suc (length cs)) a" for a
    using that Cons.prems(1,2) in_range_step [of "Suc (length cs)" s a] by simp
  moreover have "m' s = m s" using Cons.prems(1,2) by (simp add: in_range_def)
  ultimately show ?case using Cons.IH [of "s + 1"] Cons.prems by simp
qed (simp add: in_range_def)

lemma u_strlen_from_str:
  assumes "str_at m (s + of_int n) cs" and "0 \<le> n" and "n + int (length cs) \<le> INT_MAX"
  shows "u_strlen_from m s n = Some (of_int (n + int (length cs)))"
  using assms
proof (induction cs arbitrary: n)
  case Nil
  then show ?case by (subst u_strlen_from.simps) simp
next
  case (Cons c cs)
  then show ?case using Cons.IH [of "n + 1"]
    by (subst u_strlen_from.simps) (simp add: add.assoc add.commute [of 1])
qed

lemma u_strlen_str: "str_at m s cs \<Longrightarrow> int (length cs) \<le> INT_MAX \<Longrightarrow> u_strlen m s = Some (of_nat (length cs))"
  using u_strlen_from_str [of m s 0 cs] by (simp add: u_strlen_def)

lemma u_strcmp_str:
  assumes "str_at m p xs" and "str_at m q ys"
  shows "\<exists>r. u_strcmp m p q = Some r \<and> (r = 0 \<longleftrightarrow> xs = ys)"
  using assms
proof (induction xs arbitrary: p q ys)
  case Nil
  then show ?case by (cases ys) (subst u_strcmp.simps, auto simp: uint_0_iff)+
next
  case (Cons x xs)
  show ?case
  proof (cases ys)
    case Nil
    with Cons.prems show ?thesis by (subst u_strcmp.simps) (auto simp: uint_0_iff)
  next
    case ys: (Cons y zs)
    show ?thesis
    proof (cases "x = y")
      case True
      with Cons ys show ?thesis by (subst u_strcmp.simps) auto
    next
      case False
      with Cons.prems ys have "u_strcmp m p q = Some (uint x - uint y)" by (subst u_strcmp.simps) auto
      with False ys show ?thesis by (simp add: word_uint_eq_iff)
    qed
  qed
qed

lemma strcpy_loop_str:
  assumes "str_at m t cs" and "unat t + length cs < 2 ^ 64" and "unat s + length cs < 2 ^ 64"
    and "s < t \<or> unat t + length cs < unat s"
  shows "strcpy_loop m s t = Some (blit m s t (Suc (length cs)))"
  using assms
proof (induction cs arbitrary: m s t)
  case Nil
  then show ?case by (subst strcpy_loop.simps) (auto simp: blit_def in_range_def unat_eq_0 fun_eq_iff)
next
  case (Cons c cs)
  let ?m = "m(s := m t)"
  have t1: "unat (t + 1) = unat t + 1" and s1: "unat (s + 1) = unat s + 1"
    using Cons.prems(2,3) by (simp_all add: unat_word_ariths)
  have "str_at ?m (t + 1) cs"
  proof (rule str_at_cong)
    show "str_at m (t + 1) cs" using Cons.prems(1) by simp
    fix a assume "in_range (t + 1) (Suc (length cs)) a"
    then have "unat t + 1 \<le> unat a" "unat a < unat t + 1 + Suc (length cs)"
      using Cons.prems(2) t1 by (simp_all add: in_range_nat)
    with Cons.prems(4) show "?m a = m a" by (auto simp: word_less_nat_alt)
  qed (use Cons.prems(2) in simp)
  then have "strcpy_loop ?m (s + 1) (t + 1) = Some (blit ?m (s + 1) (t + 1) (Suc (length cs)))"
    using Cons.prems t1 s1 by (intro Cons.IH) (assumption | auto simp: word_less_nat_alt)+
  moreover have "blit ?m (s + 1) (t + 1) (Suc (length cs)) = blit m s t (Suc (length (c # cs)))"
  proof -
    have "blit m s t 1 = ?m" by (auto simp: blit_def in_range_def unat_eq_0 fun_eq_iff)
    with blit_split [of t 1 "Suc (length cs)" s m] Cons.prems show ?thesis
      by (simp add: word_less_nat_alt word_le_nat_alt) linarith
  qed
  ultimately show ?case using Cons.prems(1) by (subst strcpy_loop.simps) simp
qed

end
