(* ===== verification/Printf.thy ===== *)
theory Printf
  imports Ulib
begin

text \<open>
  Formatted output: \<open>user/printf.c\<close> and the formatting part of \<open>kernel/printf.c\<close>, as functions to the
  characters that are put out, in order.  Variable arguments are the 64-bit argument registers; running
  out of them, writing beyond \<open>buf[16]\<close>, the overflow of \<open>-xx\<close> and a string without an end are \<open>None\<close>.
  What the characters do, the \<open>write\<close> system call or \<open>consputc\<close>, follows in the programs and in \<open>Console\<close>.
\<close>

unbundle bit_operations_syntax

section \<open>Numbers\<close>

definition chars :: "string \<Rightarrow> uchar list" where
  "chars s = map of_char s"

definition kdigits :: "uchar list" where
  "kdigits = chars ''0123456789abcdef''"

definition udigits :: "uchar list" where
  "udigits = chars ''0123456789ABCDEF''"

text \<open>The \<open>do\<close> loop of \<open>printint\<close>, with \<open>k\<close> free bytes in \<open>buf\<close>; the result is what it stores, lowest digit first.\<close>

primrec print_digits :: "nat \<Rightarrow> uchar list \<Rightarrow> uint32 \<Rightarrow> uint32 \<Rightarrow> uchar list option" where
  "print_digits 0 ds base x = None"
| "print_digits (Suc k) ds base x =
     (let d = ds ! unat (x mod base); x' = x div base in
      if x' \<noteq> 0 then map_option (Cons d) (print_digits k ds base x') else Some [d])"

definition add_sign :: "bool \<Rightarrow> uchar list \<Rightarrow> uchar list option" where
  "add_sign neg bs = (if neg then if length bs < 16 then Some (bs @ [45]) else None else Some bs)"

definition negate :: "uint32 \<Rightarrow> uint32 option" where
  "negate xx = (if sint xx = - 2147483648 then None else Some (- xx))"

definition k_printint :: "uint32 \<Rightarrow> uint32 \<Rightarrow> bool \<Rightarrow> uchar list option" where
  "k_printint xx base sign =
     Option.bind (if sign \<and> sint xx < 0 then negate xx else Some xx) (\<lambda>x.
     Option.bind (print_digits 16 kdigits base x) (\<lambda>buf.
     map_option rev (add_sign (sign \<and> sint xx < 0) buf)))"

definition u_printint :: "uint32 \<Rightarrow> uint32 \<Rightarrow> bool \<Rightarrow> uchar list option" where
  "u_printint xx base signd =
     Option.bind (if signd \<and> sint xx < 0 then negate xx else Some xx) (\<lambda>x.
     Option.bind (print_digits 16 udigits base x) (\<lambda>buf.
     map_option rev (add_sign (signd \<and> sint xx < 0) buf)))"

primrec ptr_digits :: "nat \<Rightarrow> uchar list \<Rightarrow> uint64 \<Rightarrow> uchar list" where
  "ptr_digits 0 ds x = []"
| "ptr_digits (Suc n) ds x = ds ! unat (drop_bit 60 x) # ptr_digits n ds (push_bit 4 x)"

definition k_printptr :: "uint64 \<Rightarrow> uchar list" where
  "k_printptr x = [48, 120] @ ptr_digits 16 kdigits x"

definition u_printptr :: "uint64 \<Rightarrow> uchar list" where
  "u_printptr x = [48, 120] @ ptr_digits 16 udigits x"

section \<open>Formats\<close>

text \<open>The bytes of the string at \<open>s\<close>, as the loops for \<open>%s\<close> go through them.\<close>

partial_function (option) str_bytes :: "pmem \<Rightarrow> addr \<Rightarrow> uchar list option" where
  "str_bytes m s = (if m s \<noteq> 0 then Option.bind (str_bytes m (s + 1)) (\<lambda>cs. Some (m s # cs)) else Some [])"

definition print_str :: "pmem \<Rightarrow> uint64 \<Rightarrow> uchar list option" where
  "print_str m s = (if s = 0 then Some (chars ''(null)'') else str_bytes m s)"

text \<open>One conversion of the kernel's \<open>printf\<close>: what it puts out and the arguments that are left.\<close>

definition k_conv :: "pmem \<Rightarrow> uchar \<Rightarrow> uint64 list \<Rightarrow> (uchar list \<times> uint64 list) option" where
  "k_conv m c ap =
     (if c = of_char (CHR ''d'') then case ap of [] \<Rightarrow> None | a # ap \<Rightarrow> map_option (\<lambda>o'. (o', ap)) (k_printint (ucast a) 10 True)
      else if c = of_char (CHR ''x'') then case ap of [] \<Rightarrow> None | a # ap \<Rightarrow> map_option (\<lambda>o'. (o', ap)) (k_printint (ucast a) 16 True)
      else if c = of_char (CHR ''p'') then case ap of [] \<Rightarrow> None | a # ap \<Rightarrow> Some (k_printptr a, ap)
      else if c = of_char (CHR ''s'') then case ap of [] \<Rightarrow> None | a # ap \<Rightarrow> map_option (\<lambda>o'. (o', ap)) (print_str m a)
      else if c = 37 then Some ([37], ap)
      else Some ([37, c], ap))"

text \<open>The loop over the format, a C string without its final zero.\<close>

fun printf_chars :: "pmem \<Rightarrow> uchar list \<Rightarrow> uint64 list \<Rightarrow> uchar list option" where
  "printf_chars m [] ap = Some []"
| "printf_chars m (c # fmt) ap =
     (if c \<noteq> 37 then map_option (Cons c) (printf_chars m fmt ap)
      else case fmt of
        [] \<Rightarrow> Some []
      | c' # fmt' \<Rightarrow> Option.bind (k_conv m c' ap) (\<lambda>(o', ap'). map_option ((@) o') (printf_chars m fmt' ap')))"

definition u_conv :: "pmem \<Rightarrow> uchar \<Rightarrow> uint64 list \<Rightarrow> (uchar list \<times> uint64 list) option" where
  "u_conv m c ap =
     (if c = of_char (CHR ''d'') then case ap of [] \<Rightarrow> None | a # ap \<Rightarrow> map_option (\<lambda>o'. (o', ap)) (u_printint (ucast a) 10 True)
      else if c = of_char (CHR ''l'') then case ap of [] \<Rightarrow> None | a # ap \<Rightarrow> map_option (\<lambda>o'. (o', ap)) (u_printint (ucast a) 10 False)
      else if c = of_char (CHR ''x'') then case ap of [] \<Rightarrow> None | a # ap \<Rightarrow> map_option (\<lambda>o'. (o', ap)) (u_printint (ucast a) 16 False)
      else if c = of_char (CHR ''p'') then case ap of [] \<Rightarrow> None | a # ap \<Rightarrow> Some (u_printptr a, ap)
      else if c = of_char (CHR ''s'') then case ap of [] \<Rightarrow> None | a # ap \<Rightarrow> map_option (\<lambda>o'. (o', ap)) (print_str m a)
      else if c = of_char (CHR ''c'') then case ap of [] \<Rightarrow> None | a # ap \<Rightarrow> Some ([ucast a], ap)
      else if c = 37 then Some ([c], ap)
      else Some ([37, c], ap))"

text \<open>\<open>vprintf\<close>; \<open>st\<close> is \<open>state == '%'\<close>.\<close>

fun vprintf :: "pmem \<Rightarrow> uchar list \<Rightarrow> bool \<Rightarrow> uint64 list \<Rightarrow> uchar list option" where
  "vprintf m [] st ap = Some []"
| "vprintf m (c # fmt) st ap =
     (if \<not> st then if c = 37 then vprintf m fmt True ap else map_option (Cons c) (vprintf m fmt False ap)
      else Option.bind (u_conv m c ap) (\<lambda>(o', ap'). map_option ((@) o') (vprintf m fmt False ap')))"

text \<open>\<open>printf\<close> and \<open>fprintf\<close>: the file descriptor and the bytes written to it one by one.\<close>

definition u_fprintf :: "pmem \<Rightarrow> int \<Rightarrow> uchar list \<Rightarrow> uint64 list \<Rightarrow> (int \<times> uchar list) option" where
  "u_fprintf m fd fmt ap = map_option (Pair fd) (vprintf m fmt False ap)"

definition u_printf :: "pmem \<Rightarrow> uchar list \<Rightarrow> uint64 list \<Rightarrow> (int \<times> uchar list) option" where
  "u_printf m fmt ap = map_option (Pair 1) (vprintf m fmt False ap)"

lemma str_bytes_str: "str_at m s cs \<Longrightarrow> str_bytes m s = Some cs"
  by (induction cs arbitrary: s) (subst str_bytes.simps, simp)+

section \<open>Digits\<close>

text \<open>The digits of a number, lowest first.\<close>

fun digs :: "nat \<Rightarrow> nat \<Rightarrow> nat list" where
  "digs b n = (if b < 2 \<or> n < b then [n] else n mod b # digs b (n div b))"

declare digs.simps [simp del]

lemma print_digits_digs:
  assumes "2 \<le> unat base" and "unat x < unat base ^ Suc k"
  shows "print_digits (Suc k) ds base x = Some (map ((!) ds) (digs (unat base) (unat x)))"
  using assms(2)
proof (induction k arbitrary: x)
  case 0
  then have "x div base = 0" by (simp add: word_unat_eq_iff unat_div)
  with 0 assms(1) show ?case by (simp add: digs.simps unat_mod)
next
  case (Suc k)
  show ?case
  proof (cases "x div base = 0")
    case True
    then have "unat x div unat base = 0" by (simp flip: unat_div)
    with assms(1) have "unat x < unat base" by (simp add: div_eq_0_iff)
    with True show ?thesis by (simp add: digs.simps unat_mod)
  next
    case False
    then have "unat base \<le> unat x" using assms(1) by (simp add: word_unat_eq_iff unat_div div_eq_0_iff not_less)
    moreover have "unat (x div base) < unat base ^ Suc k"
      using Suc.prems assms(1) by (simp add: unat_div less_mult_imp_div_less mult.commute)
    from Suc.IH [OF this] False calculation assms(1) show ?thesis
      by (subst print_digits.simps, subst digs.simps) (simp add: Let_def unat_mod unat_div del: print_digits.simps)
  qed
qed

lemma digs_less: "2 \<le> b \<Longrightarrow> d \<in> set (digs b n) \<Longrightarrow> d < b"
  by (induction b n rule: digs.induct) (subst (asm) (2) digs.simps, auto split: if_splits)

lemma length_digs: "2 \<le> b \<Longrightarrow> n < b ^ Suc k \<Longrightarrow> length (digs b n) \<le> Suc k"
proof (induction k arbitrary: n)
  case 0
  then show ?case by (simp add: digs.simps)
next
  case (Suc k)
  then have "n div b < b ^ Suc k" by (simp add: less_mult_imp_div_less mult.commute)
  with Suc show ?case by (subst digs.simps) auto
qed

lemma digs_value: "2 \<le> b \<Longrightarrow> foldr (\<lambda>d n. n * b + d) (digs b n) 0 = n"
  by (induction b n rule: digs.induct) (subst digs.simps, auto)

section \<open>Properties\<close>

lemma printint_digits:
  assumes "base = 10 \<or> base = (16 :: uint32)"
  shows "print_digits 16 ds base x = Some (map ((!) ds) (digs (unat base) (unat x)))"
    and "length (digs (unat base) (unat x)) \<le> 10"
proof -
  have "unat base \<ge> 2" using assms by auto
  moreover have "unat x < unat base ^ Suc 9" using assms unat32_less [of x] by auto
  moreover from this have "unat x < unat base ^ Suc 15" using assms by auto
  ultimately show "print_digits 16 ds base x = Some (map ((!) ds) (digs (unat base) (unat x)))"
      "length (digs (unat base) (unat x)) \<le> 10"
    using print_digits_digs [of base x 15 ds] length_digs [of "unat base" "unat x" 9]
    by (simp_all add: numeral_eq_Suc del: print_digits.simps power_Suc)
qed

text \<open>C33: Every number that the kernel's \<open>printf\<close> can be asked to print fits into \<open>buf[16]\<close>, in base 10 and in base 16,
  signed or not: it takes at most 11 of the 16 bytes.  The one exception is the most negative \<open>int\<close>, whose
  negation overflows before anything is printed.\<close>

theorem printint_fits:
  assumes "base = 10 \<or> base = 16" and "\<not> (sign \<and> sint xx = - 2147483648)"
  shows "\<exists>cs. k_printint xx base sign = Some cs \<and> length cs \<le> 11"
proof -
  define x where "x = (if sign \<and> sint xx < 0 then - xx else xx)"
  have "(if sign \<and> sint xx < 0 then negate xx else Some xx) = Some x"
    using assms(2) by (auto simp: x_def negate_def)
  with printint_digits(1) [OF assms(1), of kdigits x] printint_digits(2) [OF assms(1), of x] show ?thesis
    by (auto simp: k_printint_def add_sign_def)
qed

theorem printint_fits_witness: "\<exists>cs. k_printint 0xFFFFFFFF 16 True = Some cs \<and> length cs \<le> 11"
  by (rule printint_fits) (simp_all add: sint_uint)

definition dec_char :: "nat \<Rightarrow> uchar" where
  "dec_char d = 48 + of_nat d"

lemma uint_dec_char: "d < 10 \<Longrightarrow> uint (dec_char d) = 48 + int d"
  by (simp add: dec_char_def uint_nat unat_word_ariths unat_of_nat)

lemma udigits_dec: "d < 10 \<Longrightarrow> udigits ! d = dec_char d"
  by (auto simp: udigits_def chars_def dec_char_def eval_nat_numeral less_Suc_eq)

lemma foldl_digits_mono: "0 \<le> (n::int) \<Longrightarrow> n \<le> foldl (\<lambda>n d. n * 10 + int d) n ds"
proof (induction ds arbitrary: n)
  case (Cons d ds)
  then have "n * 10 + int d \<le> foldl (\<lambda>n d. n * 10 + int d) (n * 10 + int d) ds" by simp
  with Cons.prems show ?case by simp
qed simp

lemma atoi_loop_digits:
  assumes "str_at m s (map dec_char ds)" and "\<forall>d\<in>set ds. d < 10" and "0 \<le> n"
    and "foldl (\<lambda>n d. n * 10 + int d) n ds \<le> INT_MAX - 48"
  shows "atoi_loop m s n = Some (foldl (\<lambda>n d. n * 10 + int d) n ds)"
  using assms
proof (induction ds arbitrary: s n)
  case Nil
  then show ?case by (subst atoi_loop.simps) simp
next
  case (Cons d ds)
  let ?n = "n * 10 + int d"
  have c: "m s = dec_char d" "uint (m s) = 48 + int d" "0 \<le> ?n"
    using Cons.prems(1-3) by (auto simp: uint_dec_char)
  then have "48 \<le> m s \<and> m s \<le> 57" using Cons.prems(2) by (simp add: word_le_def)
  moreover have "?n \<le> INT_MAX - 48" using foldl_digits_mono [OF c(3), of ds] Cons.prems(4) by simp
  moreover have "atoi_loop m (s + 1) ?n = Some (foldl (\<lambda>n d. n * 10 + int d) ?n ds)"
    using Cons.prems c(3) by (intro Cons.IH) simp_all
  ultimately show ?case using c(2) by (subst atoi_loop.simps) (simp add: algebra_simps)
qed

text \<open>C34: Printing and reading are inverse: the characters that the user library's \<open>printint\<close> puts out in base 10 for a
  number from 0 to 2147483599, stored as a string anywhere in memory, make \<open>atoi\<close> return the number.  For
  greater numbers \<open>atoi\<close> overflows, since it adds the character before it subtracts \<open>'0'\<close>.\<close>

theorem atoi_printint:
  assumes "0 \<le> x" and "x \<le> 2147483599"
  shows "\<exists>cs. u_printint (of_int x) 10 True = Some cs \<and> (\<forall>m s. str_at m s cs \<longrightarrow> atoi m s = Some x)"
proof -
  define ds where "ds = digs 10 (nat x)"
  have "uint (of_int x :: uint32) = x" using assms by (simp add: uint_word_of_int)
  then have "unat (of_int x :: uint32) = nat x" "sint (of_int x :: uint32) = x"
    using assms by (simp_all add: unat_eq_nat_uint sint_uint signed_take_bit_int_eq_self)
  then have pr: "u_printint (of_int x) 10 True = Some (rev (map ((!) udigits) ds))"
    using printint_digits(1) [of 10 udigits "of_int x"] assms(1) by (simp add: u_printint_def add_sign_def ds_def)
  have less: "\<forall>d\<in>set ds. d < 10" unfolding ds_def using digs_less [of 10] by simp
  then have "map ((!) udigits) ds = map dec_char ds" by (simp add: udigits_dec)
  then have cs: "rev (map ((!) udigits) ds) = map dec_char (rev ds)" by (simp add: rev_map)
  have "int (foldr (\<lambda>d n. n * 10 + d) ds 0) = foldr (\<lambda>d n. n * 10 + int d) ds 0" by (induction ds) simp_all
  then have "foldl (\<lambda>n d. n * 10 + int d) 0 (rev ds) = x"
    using assms(1) digs_value [of 10 "nat x"] by (simp add: foldl_conv_foldr ds_def)
  then have "atoi m s = Some x" if "str_at m s (map dec_char (rev ds))" for m s
    using atoi_loop_digits [OF that, of 0] less assms(2) by (simp add: atoi_def INT_MAX_def)
  with pr cs show ?thesis by simp
qed

theorem atoi_printint_witness:
  "\<exists>cs. u_printint (of_int 1234567890) 10 True = Some cs \<and> (\<forall>m s. str_at m s cs \<longrightarrow> atoi m s = Some 1234567890)"
  by (rule atoi_printint) simp_all

end
