(* ===== verification/Uart.thy ===== *)
theory Uart
  imports Pipe Printf
begin

text \<open>
  The driver of the serial port, \<open>kernel/uart.c\<close>.  The device is seen through its registers: \<open>lsr_at n\<close> and
  \<open>rhr_at n\<close> are what the \<open>n\<close>-th read of the line status and of the receive register gives, and \<open>uart_log\<close>
  lists the writes to registers, oldest first.  \<open>push_off\<close> and \<open>pop_off\<close> are in \<open>Spinlock\<close> and have no
  effect here.  A hart that spins because of \<open>panicked\<close> has stopped, which is the outcome \<open>Panic\<close>.
\<close>

unbundle bit_operations_syntax

section \<open>State\<close>

definition RHR :: nat where "RHR = 0"
definition THR :: nat where "THR = 0"
definition IER :: nat where "IER = 1"
definition IER_RX_ENABLE :: uchar where "IER_RX_ENABLE = 1"
definition IER_TX_ENABLE :: uchar where "IER_TX_ENABLE = 2"
definition FCR :: nat where "FCR = 2"
definition FCR_FIFO_ENABLE :: uchar where "FCR_FIFO_ENABLE = 1"
definition FCR_FIFO_CLEAR :: uchar where "FCR_FIFO_CLEAR = 6"
definition LCR :: nat where "LCR = 3"
definition LCR_EIGHT_BITS :: uchar where "LCR_EIGHT_BITS = 3"
definition LCR_BAUD_LATCH :: uchar where "LCR_BAUD_LATCH = 0x80"
definition LSR_RX_READY :: uchar where "LSR_RX_READY = 1"
definition LSR_TX_IDLE :: uchar where "LSR_TX_IDLE = 0x20"
definition UART_TX_BUF_SIZE :: uint64 where "UART_TX_BUF_SIZE = 32"

record uartstate = pistate +
  lsr_at :: "nat \<Rightarrow> uchar"
  lsr_n :: nat
  rhr_at :: "nat \<Rightarrow> uchar"
  rhr_n :: nat
  uart_log :: "(nat \<times> uchar) list"
  uart_tx_buf :: "uchar list"
  uart_tx_w :: uint64
  uart_tx_r :: uint64
  panicked :: int

definition WriteReg :: "nat \<Rightarrow> uchar \<Rightarrow> ('z uartstate_scheme, unit) kfun" where
  "WriteReg r v = modify (\<lambda>s. s\<lparr>uart_log := uart_log s @ [(r, v)]\<rparr>)"

definition ReadLSR :: "('z uartstate_scheme, uchar) kfun" where
  "ReadLSR = bnd (gets (\<lambda>s. lsr_at s (lsr_n s))) (\<lambda>v. thn (modify (\<lambda>s. s\<lparr>lsr_n := Suc (lsr_n s)\<rparr>)) (ret v))"

definition ReadRHR :: "('z uartstate_scheme, uchar) kfun" where
  "ReadRHR = bnd (gets (\<lambda>s. rhr_at s (rhr_n s))) (\<lambda>v. thn (modify (\<lambda>s. s\<lparr>rhr_n := Suc (rhr_n s)\<rparr>)) (ret v))"

section \<open>Operations\<close>

definition uartinit :: "('z uartstate_scheme, unit) kfun" where
  "uartinit = thn (WriteReg IER 0)
     (thn (WriteReg LCR LCR_BAUD_LATCH)
     (thn (WriteReg 0 3)
     (thn (WriteReg 1 0)
     (thn (WriteReg LCR LCR_EIGHT_BITS)
     (thn (WriteReg FCR (FCR_FIFO_ENABLE OR FCR_FIFO_CLEAR))
     (thn (WriteReg IER (IER_TX_ENABLE OR IER_RX_ENABLE))
          (initlock UartLock)))))))"

text \<open>The loop of \<open>uartstart\<close>; each turn takes one of the \<open>uart_tx_w - uart_tx_r\<close> characters that wait.\<close>

primrec uartstart_loop :: "nat \<Rightarrow> ('z uartstate_scheme, unit) kfun" where
  "uartstart_loop 0 = ret ()"
| "uartstart_loop (Suc k) = bnd ReadLSR (\<lambda>v.
     if v AND LSR_TX_IDLE = 0 then ret ()
     else bnd (gets (\<lambda>s. uart_tx_buf s ! unat (uart_tx_r s mod UART_TX_BUF_SIZE))) (\<lambda>c.
       thn (modify (\<lambda>s. s\<lparr>uart_tx_r := uart_tx_r s + 1\<rparr>))
      (thn (wakeup ChanUart)
      (thn (WriteReg THR c) (uartstart_loop k)))))"

definition uartstart :: "('z uartstate_scheme, unit) kfun" where
  "uartstart = bnd (gets (\<lambda>s. unat (uart_tx_w s - uart_tx_r s))) uartstart_loop"

text \<open>The loop of \<open>uartputc\<close>, up to where it sleeps or returns.\<close>

definition uartputc_loop :: "uchar \<Rightarrow> ('z uartstate_scheme, unit) kfun" where
  "uartputc_loop c = bnd (gets uart_tx_w) (\<lambda>w. bnd (gets uart_tx_r) (\<lambda>r.
     if w = r + UART_TX_BUF_SIZE then sleep ChanUart UartLock
     else thn (modify (\<lambda>s. s\<lparr>uart_tx_buf := (uart_tx_buf s)[unat (w mod UART_TX_BUF_SIZE) := c], uart_tx_w := w + 1\<rparr>))
         (thn uartstart (release UartLock))))"

definition uartputc :: "uchar \<Rightarrow> ('z uartstate_scheme, unit) kfun" where
  "uartputc c = thn (acquire UartLock) (bnd (gets panicked) (\<lambda>p.
     if p \<noteq> 0 then panic ''panicked'' else uartputc_loop c))"

definition uartputc_resume :: "uchar \<Rightarrow> ('z uartstate_scheme, unit) kfun" where
  "uartputc_resume c = thn (sleep_resume UartLock) (uartputc_loop c)"

text \<open>Waiting for the transmitter: the number of the first read that finds it idle, \<open>None\<close> if none does.\<close>

partial_function (option) next_idle :: "(nat \<Rightarrow> uchar) \<Rightarrow> nat \<Rightarrow> nat option" where
  "next_idle lsr n = (if lsr n AND LSR_TX_IDLE = 0 then next_idle lsr (Suc n) else Some n)"

definition uartputc_sync :: "uchar \<Rightarrow> ('z uartstate_scheme, unit) kfun" where
  "uartputc_sync c = bnd (gets panicked) (\<lambda>p. if p \<noteq> 0 then panic ''panicked''
     else bnd (gets (\<lambda>s. next_idle (lsr_at s) (lsr_n s))) (\<lambda>i. case i of
       None \<Rightarrow> undef ''uartputc_sync: waits forever''
     | Some n \<Rightarrow> thn (modify (\<lambda>s. s\<lparr>lsr_n := Suc n\<rparr>)) (WriteReg THR c)))"

definition uartgetc :: "('z uartstate_scheme, int) kfun" where
  "uartgetc = bnd ReadLSR (\<lambda>v. if v AND 1 \<noteq> 0 then bnd ReadRHR (\<lambda>c. ret (uint c)) else ret (- 1))"

section \<open>The transmit queue\<close>

interpretation uart_ring: ring_index UART_TX_BUF_SIZE
  by unfold_locales (simp_all add: UART_TX_BUF_SIZE_def)

lemma unat_UART_TX_BUF_SIZE [simp]: "unat UART_TX_BUF_SIZE = 32"
  by (simp add: UART_TX_BUF_SIZE_def)

definition tx_queue :: "'z uartstate_scheme \<Rightarrow> uchar list" where
  "tx_queue s = ring_queue UART_TX_BUF_SIZE (uart_tx_buf s) (uart_tx_r s) (uart_tx_w s)"

text \<open>\<open>uartstart\<close> sends from the front of the queue, one character for every read that finds the transmitter
  idle, and stops at the first that does not.\<close>

lemma uartstart_loop_run:
  assumes "table_ok s" and "k = length (tx_queue s)"
  shows "\<exists>j\<le>k. \<exists>t. uartstart_loop k s = Ret () t \<and> tx_queue t = drop j (tx_queue s) \<and>
    uart_log t = uart_log s @ map (Pair THR) (take j (tx_queue s)) \<and> table_ok t \<and> held t = held s \<and>
    uart_tx_buf t = uart_tx_buf s \<and> uart_tx_w t = uart_tx_w s \<and> cur t = cur s \<and> panicked t = panicked s"
  using assms
proof (induction k arbitrary: s)
  case 0
  then show ?case by (intro exI [of _ 0] conjI exI [of _ s]) (simp_all add: monad_simps)
next
  case (Suc k)
  let ?s = "s\<lparr>lsr_n := Suc (lsr_n s)\<rparr>" and ?c = "uart_tx_buf s ! unat (uart_tx_r s mod UART_TX_BUF_SIZE)"
  have ok: "table_ok ?s" using Suc.prems(1) by (simp add: table_ok_def)
  show ?case
  proof (cases "lsr_at s (lsr_n s) AND LSR_TX_IDLE = 0")
    case True
    then show ?thesis using ok
      by (intro exI [of _ 0] conjI exI [of _ ?s]) (simp_all add: monad_simps ReadLSR_def tx_queue_def)
  next
    case False
    have "uart_tx_w s \<noteq> uart_tx_r s" using Suc.prems(2) by (auto simp: tx_queue_def)
    from uart_ring.get [OF this, of "uart_tx_buf s"] have q: "tx_queue s = ?c # tx_queue (s\<lparr>uart_tx_r := uart_tx_r s + 1\<rparr>)"
      by (simp add: tx_queue_def unat_mod)
    have "table_ok (?s\<lparr>uart_tx_r := uart_tx_r s + 1\<rparr>)" using ok by (simp add: table_ok_def)
    then obtain ts where ts: "wakeup ChanUart (?s\<lparr>uart_tx_r := uart_tx_r s + 1\<rparr>) =
        Ret () (?s\<lparr>uart_tx_r := uart_tx_r s + 1, procs := ts\<rparr>)" "length ts = NPROC"
      by (rule wakeup_run [where c = ChanUart]) simp
    define u where "u = ?s\<lparr>uart_tx_r := uart_tx_r s + 1, procs := ts, uart_log := uart_log s @ [(THR, ?c)]\<rparr>"
    have "uartstart_loop (Suc k) s = uartstart_loop k u"
      using False ts(1) by (simp add: monad_simps ReadLSR_def WriteReg_def u_def)
    moreover have "table_ok u" using ok ts(2) by (simp add: u_def table_ok_def)
    moreover have "tx_queue u = tl (tx_queue s)" unfolding q by (simp add: u_def tx_queue_def)
    moreover from this Suc.prems(2) have "k = length (tx_queue u)" by simp
    ultimately obtain j t where "j \<le> k" "uartstart_loop (Suc k) s = Ret () t" "tx_queue t = drop j (tl (tx_queue s))"
        "uart_log t = uart_log u @ map (Pair THR) (take j (tl (tx_queue s)))" "table_ok t" "held t = held u"
        "uart_tx_buf t = uart_tx_buf u" "uart_tx_w t = uart_tx_w u" "cur t = cur u" "panicked t = panicked u"
      using Suc.IH [of u] by auto
    moreover have "take (Suc j) (tx_queue s) = ?c # take j (tl (tx_queue s))" using q by (cases "tx_queue s") simp_all
    ultimately show ?thesis
      by (intro exI [of _ "Suc j"] conjI exI [of _ t]) (simp_all add: u_def drop_Suc)
  qed
qed

end
