(* ===== verification/Console.thy ===== *)
theory Console
  imports Uart
begin

text \<open>
  The console, \<open>kernel/console.c\<close>, the rest of \<open>kernel/printf.c\<close>, \<open>procdump\<close> of \<open>kernel/proc.c\<close>, and the
  interrupt handler of \<open>kernel/uart.c\<close>, which calls the console.  The single bytes \<open>c\<close> and \<open>cbuf\<close> through which
  \<open>consolewrite\<close> and \<open>consoleread\<close> copy are the byte at \<open>stack_at\<close>.
\<close>

unbundle bit_operations_syntax

section \<open>State\<close>

definition INPUT_BUF :: uint32 where "INPUT_BUF = 128"
definition BACKSPACE :: int where "BACKSPACE = 0x100"

definition C :: "int \<Rightarrow> int" where "C x = x - 64"

record constate = uartstate +
  pr_locking :: int
  cons_buf :: "uchar list"
  cons_r :: uint32
  cons_w :: uint32
  cons_e :: uint32

section \<open>Output\<close>

definition consputc :: "int \<Rightarrow> ('z uartstate_scheme, unit) kfun" where
  "consputc c = (if c = BACKSPACE
     then thn (uartputc_sync 8) (thn (uartputc_sync 32) (uartputc_sync 8))
     else uartputc_sync (of_int c))"

definition printf :: "uchar list \<Rightarrow> uint64 list \<Rightarrow> ('z constate_scheme, unit) kfun" where
  "printf fmt ap = bnd (gets pr_locking) (\<lambda>locking.
     thn (if locking \<noteq> 0 then acquire PrLock else ret ())
    (bnd (gets mem) (\<lambda>m. bnd (lift_option ''printf'' (printf_chars m fmt ap)) (\<lambda>cs.
       thn (for_each cs (\<lambda>c. consputc (uint c)))
           (if locking \<noteq> 0 then release PrLock else ret ())))))"

text \<open>What \<open>panic\<close> does before it stops for good.\<close>

definition panic_print :: "uchar list \<Rightarrow> ('z constate_scheme, 'a) kfun" where
  "panic_print msg = thn (modify (\<lambda>s. s\<lparr>pr_locking := 0\<rparr>))
     (thn (printf (chars ''panic: '') [])
     (thn (printf msg [])
     (thn (printf [10] [])
     (thn (modify (\<lambda>s. s\<lparr>panicked := 1\<rparr>)) (panic ''panic'')))))"

definition printfinit :: "('z constate_scheme, unit) kfun" where
  "printfinit = thn (initlock PrLock) (modify (\<lambda>s. s\<lparr>pr_locking := 1\<rparr>))"

text \<open>\<open>procdump\<close>; the strings of a process are not in byte memory, so that the format is applied to them here.\<close>

definition state_name :: "procstate \<Rightarrow> uchar list" where
  "state_name st = chars (case st of UNUSED \<Rightarrow> ''unused'' | SLEEPING \<Rightarrow> ''sleep '' | RUNNABLE \<Rightarrow> ''runble''
     | RUNNING \<Rightarrow> ''run   '' | ZOMBIE \<Rightarrow> ''zombie'' | _ \<Rightarrow> ''???'')"

definition print_chars :: "uchar list \<Rightarrow> ('z constate_scheme, unit) kfun" where
  "print_chars cs = bnd (gets pr_locking) (\<lambda>locking.
     thn (if locking \<noteq> 0 then acquire PrLock else ret ())
    (thn (for_each cs (\<lambda>c. consputc (uint c)))
         (if locking \<noteq> 0 then release PrLock else ret ())))"

definition procdump :: "('z constate_scheme, unit) kfun" where
  "procdump = thn (printf [10] [])
     (for_each [0..<NPROC] (\<lambda>i. bnd (get_proc i) (\<lambda>p.
       if p_state p = UNUSED then ret ()
       else bnd (lift_option ''procdump'' (k_printint (of_int (p_pid p)) 10 True)) (\<lambda>pid.
         thn (print_chars (pid @ [32] @ state_name (p_state p) @ [32] @ takeWhile (\<lambda>c. c \<noteq> 0) (p_name p)))
             (printf [10] [])))))"

section \<open>The device behind read and write\<close>

text \<open>\<open>k\<close> bytes are left of the \<open>n\<close>.\<close>

primrec consolewrite_loop :: "nat \<Rightarrow> bool \<Rightarrow> uint64 \<Rightarrow> int \<Rightarrow> ('z uartstate_scheme, int) kfun" where
  "consolewrite_loop 0 user_src src i = ret i"
| "consolewrite_loop (Suc k) user_src src i = bnd (gets stack_at) (\<lambda>c.
     bnd (either_copyin c user_src (src + of_int i) 1) (\<lambda>r.
       if r = - 1 then ret i
       else bnd (gets (\<lambda>s. mem s c)) (\<lambda>b. thn (uartputc b) (consolewrite_loop k user_src src (i + 1)))))"

definition consolewrite :: "bool \<Rightarrow> uint64 \<Rightarrow> int \<Rightarrow> ('z uartstate_scheme, int) kfun" where
  "consolewrite user_src src n = consolewrite_loop (nat n) user_src src 0"

text \<open>When \<open>uartputc\<close> of byte \<open>b\<close>, number \<open>i\<close>, has slept.\<close>

definition consolewrite_resume :: "bool \<Rightarrow> uint64 \<Rightarrow> int \<Rightarrow> int \<Rightarrow> uchar \<Rightarrow> ('z uartstate_scheme, int) kfun" where
  "consolewrite_resume user_src src n i b =
     thn (uartputc_resume b) (consolewrite_loop (nat (n - i - 1)) user_src src (i + 1))"

definition consoleread_done :: "uint32 \<Rightarrow> nat \<Rightarrow> ('z constate_scheme, int) kfun" where
  "consoleread_done target n = thn (release ConsLock) (ret (sint (target - of_nat n)))"

primrec consoleread_loop :: "nat \<Rightarrow> bool \<Rightarrow> uint64 \<Rightarrow> uint32 \<Rightarrow> ('z constate_scheme, int) kfun" where
  "consoleread_loop 0 user_dst dst target = consoleread_done target 0"
| "consoleread_loop (Suc k) user_dst dst target = bnd (gets cons_r) (\<lambda>r. bnd (gets cons_w) (\<lambda>w.
     if r = w
     then bnd myproc (\<lambda>i. bnd (get_proc i) (\<lambda>p.
       if p_killed p \<noteq> 0 then thn (release ConsLock) (ret (- 1))
       else sleep ChanCons ConsLock))
     else bnd (gets (\<lambda>s. cons_buf s ! unat (r mod INPUT_BUF))) (\<lambda>c.
       thn (modify (\<lambda>s. s\<lparr>cons_r := r + 1\<rparr>))
      (if uint c = C 68
       then thn (if of_nat (Suc k) < target then modify (\<lambda>s. s\<lparr>cons_r := cons_r s - 1\<rparr>) else ret ())
                (consoleread_done target (Suc k))
       else bnd (gets stack_at) (\<lambda>cbuf.
         thn (modify (\<lambda>s. s\<lparr>mem := (mem s)(cbuf := c)\<rparr>))
        (bnd (either_copyout user_dst dst cbuf 1) (\<lambda>x.
           if x = - 1 then consoleread_done target (Suc k)
           else if c = 10 then consoleread_done target k
           else consoleread_loop k user_dst (dst + 1) target)))))))"

definition consoleread :: "bool \<Rightarrow> uint64 \<Rightarrow> int \<Rightarrow> ('z constate_scheme, int) kfun" where
  "consoleread user_dst dst n = thn (acquire ConsLock)
     (if n > 0 then consoleread_loop (nat n) user_dst dst (of_int n) else thn (release ConsLock) (ret 0))"

text \<open>After \<open>sleep\<close>, with \<open>n\<close> bytes still wanted for \<open>dst\<close>.\<close>

definition consoleread_resume :: "bool \<Rightarrow> uint64 \<Rightarrow> nat \<Rightarrow> uint32 \<Rightarrow> ('z constate_scheme, int) kfun" where
  "consoleread_resume user_dst dst n target = thn (sleep_resume ConsLock) (consoleread_loop n user_dst dst target)"

section \<open>Interrupts\<close>

text \<open>The loop for control-U; \<open>k\<close> bounds the turns by \<open>cons.e - cons.w\<close>.\<close>

primrec kill_line :: "nat \<Rightarrow> ('z constate_scheme, unit) kfun" where
  "kill_line 0 = ret ()"
| "kill_line (Suc k) = bnd (gets cons_e) (\<lambda>e. bnd (gets cons_w) (\<lambda>w. bnd (gets cons_buf) (\<lambda>b.
     if e \<noteq> w \<and> b ! unat ((e - 1) mod INPUT_BUF) \<noteq> 10
     then thn (modify (\<lambda>s. s\<lparr>cons_e := e - 1\<rparr>)) (thn (consputc BACKSPACE) (kill_line k))
     else ret ())))"

definition cons_char :: "int \<Rightarrow> ('z constate_scheme, unit) kfun" where
  "cons_char c0 = bnd (gets cons_e) (\<lambda>e. bnd (gets cons_r) (\<lambda>r.
     if c0 \<noteq> 0 \<and> e - r < INPUT_BUF
     then let c = (if c0 = 13 then 10 else c0) in
       thn (consputc c)
      (thn (modify (\<lambda>s. s\<lparr>cons_buf := (cons_buf s)[unat (e mod INPUT_BUF) := of_int c], cons_e := e + 1\<rparr>))
      (if c = 10 \<or> c = C 68 \<or> e + 1 = r + INPUT_BUF
       then thn (modify (\<lambda>s. s\<lparr>cons_w := cons_e s\<rparr>)) (wakeup ChanCons)
       else ret ()))
     else ret ()))"

definition consoleintr :: "int \<Rightarrow> ('z constate_scheme, unit) kfun" where
  "consoleintr c = thn (acquire ConsLock)
     (thn (if c = C 80 then procdump
           else if c = C 85 then bnd (gets (\<lambda>s. unat (cons_e s - cons_w s))) kill_line
           else if c = C 72 \<or> c = 0x7F
           then bnd (gets cons_e) (\<lambda>e. bnd (gets cons_w) (\<lambda>w.
             if e \<noteq> w then thn (modify (\<lambda>s. s\<lparr>cons_e := e - 1\<rparr>)) (consputc BACKSPACE) else ret ()))
           else cons_char c)
          (release ConsLock))"

definition consoleinit :: "('z constate_scheme, unit) kfun" where
  "consoleinit = thn (initlock ConsLock) uartinit"

text \<open>The handler of the serial interrupt; \<open>fuel\<close> bounds the characters taken in one interrupt.\<close>

primrec uartintr_loop :: "nat \<Rightarrow> ('z constate_scheme, unit) kfun" where
  "uartintr_loop 0 = undef ''uartintr: fuel''"
| "uartintr_loop (Suc fuel) = bnd uartgetc (\<lambda>c. if c = - 1 then ret () else thn (consoleintr c) (uartintr_loop fuel))"

definition uartintr :: "nat \<Rightarrow> ('z constate_scheme, unit) kfun" where
  "uartintr fuel = thn (uartintr_loop fuel) (thn (acquire UartLock) (thn uartstart (release UartLock)))"

section \<open>The input buffer\<close>

text \<open>The three counters stand in order, and no further apart than the buffer is long.\<close>

definition cons_ok :: "'z constate_scheme \<Rightarrow> bool" where
  "cons_ok s \<longleftrightarrow> length (cons_buf s) = 128 \<and> cons_w s - cons_r s \<le> cons_e s - cons_r s \<and> cons_e s - cons_r s \<le> 128"

text \<open>\<open>keeps_cons f\<close>: \<open>f\<close> leaves the buffer and its counters alone, whatever its outcome.\<close>

definition keeps_cons :: "('z constate_scheme, 'a) kfun \<Rightarrow> bool" where
  "keeps_cons f \<longleftrightarrow> (\<forall>s t. (\<exists>a. f s = Ret a t) \<or> (\<exists>c. f s = Sleep c t) \<longrightarrow>
     cons_buf t = cons_buf s \<and> cons_r t = cons_r s \<and> cons_w t = cons_w s \<and> cons_e t = cons_e s)"

lemma keeps_cons_basic [simp]:
  "keeps_cons (ret a)" "keeps_cons (gets g)" "keeps_cons (panic e)" "keeps_cons (undef e)"
  "keeps_cons (acquire l)" "keeps_cons (release l)" "keeps_cons (get_proc i)" "keeps_cons myproc"
  by (auto simp: keeps_cons_def monad_simps acquire_def release_def get_proc_def myproc_def bnd_def split: if_splits option.splits)

lemma keeps_consD:
  "keeps_cons f \<Longrightarrow> f s = Ret a t \<Longrightarrow> cons_buf t = cons_buf s \<and> cons_r t = cons_r s \<and> cons_w t = cons_w s \<and> cons_e t = cons_e s"
  "keeps_cons f \<Longrightarrow> f s = Sleep c t \<Longrightarrow> cons_buf t = cons_buf s \<and> cons_r t = cons_r s \<and> cons_w t = cons_w s \<and> cons_e t = cons_e s"
  unfolding keeps_cons_def by blast+

lemma keeps_cons_bnd:
  assumes "keeps_cons m" and "\<And>a. keeps_cons (k a)"
  shows "keeps_cons (bnd m k)"
  unfolding keeps_cons_def
proof (intro allI impI)
  fix s t assume run: "(\<exists>a. bnd m k s = Ret a t) \<or> (\<exists>c. bnd m k s = Sleep c t)"
  show "cons_buf t = cons_buf s \<and> cons_r t = cons_r s \<and> cons_w t = cons_w s \<and> cons_e t = cons_e s"
  proof (cases "m s")
    case (Ret a u)
    with run have "(\<exists>b. k a u = Ret b t) \<or> (\<exists>c. k a u = Sleep c t)" by (simp add: bnd_def)
    then show ?thesis using keeps_consD(1) [OF assms(1) Ret] keeps_consD [OF assms(2)] by metis
  next
    case (Sleep c u)
    with run keeps_consD(2) [OF assms(1) Sleep] show ?thesis by (simp add: bnd_def)
  qed (use run in \<open>simp_all add: bnd_def\<close>)
qed

lemma keeps_cons_thn: "keeps_cons m \<Longrightarrow> keeps_cons n \<Longrightarrow> keeps_cons (thn m n)"
  unfolding thn_def by (rule keeps_cons_bnd)

lemma keeps_cons_if: "keeps_cons m \<Longrightarrow> keeps_cons n \<Longrightarrow> keeps_cons (if b then m else n)"
  by simp

lemma keeps_cons_for_each: "(\<And>x. keeps_cons (f x)) \<Longrightarrow> keeps_cons (for_each xs f)"
  by (induction xs) (simp_all add: keeps_cons_thn)

lemma keeps_cons_modify:
  "(\<And>s. cons_buf (f s) = cons_buf s \<and> cons_r (f s) = cons_r s \<and> cons_w (f s) = cons_w s \<and> cons_e (f s) = cons_e s) \<Longrightarrow> keeps_cons (modify f)"
  by (simp add: keeps_cons_def monad_simps)

lemmas keeps_cons_intros = keeps_cons_bnd keeps_cons_thn keeps_cons_if keeps_cons_for_each

lemma keeps_cons_mem_fun: "mem_fun f \<Longrightarrow> keeps_cons f"
  unfolding keeps_cons_def by (auto dest!: mem_funD simp: mem_fun_awake mem_only_def)

lemma keeps_cons_sync [simp]: "keeps_cons (uartputc_sync c)"
  unfolding uartputc_sync_def WriteReg_def
  by (intro keeps_cons_intros) (auto intro!: keeps_cons_intros keeps_cons_modify split: option.split)

lemma keeps_cons_consputc [simp]: "keeps_cons (consputc c)"
  unfolding consputc_def by (intro keeps_cons_intros) simp_all

lemma keeps_cons_lift [simp]: "keeps_cons (lift_option e x)"
  by (cases x) (simp_all add: lift_option_def)

lemma keeps_cons_printf [simp]: "keeps_cons (printf fmt ap)" "keeps_cons (print_chars cs)"
  unfolding printf_def print_chars_def by (intro keeps_cons_intros; simp)+

lemma keeps_cons_procdump [simp]: "keeps_cons procdump"
  unfolding procdump_def by (intro keeps_cons_intros) simp_all

lemma keeps_cons_set_proc [simp]: "keeps_cons (set_proc i f)"
  unfolding set_proc_def by (rule keeps_cons_modify) simp

lemma keeps_cons_wakeup [simp]: "keeps_cons (wakeup c)"
  unfolding wakeup_def by (intro keeps_cons_intros) simp_all

lemma keeps_cons_either_copyout [simp]: "keeps_cons (either_copyout u d s n)"
  unfolding either_copyout_def
  by (intro keeps_cons_intros keeps_cons_modify) (simp_all add: keeps_cons_mem_fun mem_fun_copyout)

lemma keeps_cons_sched [simp]: "keeps_cons sched"
  unfolding sched_def by (intro keeps_cons_intros keeps_cons_modify) simp_all

lemma keeps_cons_sleep [simp]: "keeps_cons (sleep c lk)" "keeps_cons (sleep_resume lk)"
proof -
  have "keeps_cons (sleep_on c)" by (simp add: keeps_cons_def monad_simps)
  then show "keeps_cons (sleep c lk)" "keeps_cons (sleep_resume lk)"
    unfolding sleep_def sleep_resume_def by (intro keeps_cons_intros; simp)+
qed

text \<open>\<open>cons_safe f s\<close>: run from a state \<open>s\<close> in order, \<open>f\<close> returns or sleeps in a state in order.\<close>

definition cons_safe :: "('z constate_scheme, 'a) kfun \<Rightarrow> 'z constate_scheme \<Rightarrow> bool" where
  "cons_safe f s \<longleftrightarrow> (cons_ok s \<longrightarrow> (case f s of Ret a t \<Rightarrow> cons_ok t | Sleep c t \<Rightarrow> cons_ok t | _ \<Rightarrow> True))"

lemma cons_safe_keeps: "keeps_cons f \<Longrightarrow> cons_safe f s"
  unfolding cons_safe_def cons_ok_def by (auto dest: keeps_consD split: outcome.split)

lemma cons_safe_gets: "cons_safe (k (g s)) s \<Longrightarrow> cons_safe (bnd (gets g) k) s"
  by (simp add: cons_safe_def bnd_def gets_def)

lemma cons_safe_seq: "cons_safe m s \<Longrightarrow> (\<And>a u. m s = Ret a u \<Longrightarrow> cons_safe (k a) u) \<Longrightarrow> cons_safe (bnd m k) s"
  by (cases "m s") (auto simp: cons_safe_def bnd_def)

lemma cons_safe_bnd: "keeps_cons m \<Longrightarrow> (\<And>a u. m s = Ret a u \<Longrightarrow> cons_safe (k a) u) \<Longrightarrow> cons_safe (bnd m k) s"
  by (rule cons_safe_seq) (auto intro: cons_safe_keeps)

lemma cons_safe_thn: "keeps_cons m \<Longrightarrow> (\<And>a u. m s = Ret a u \<Longrightarrow> cons_safe n u) \<Longrightarrow> cons_safe (thn m n) s"
  unfolding thn_def by (rule cons_safe_bnd)

lemma cons_safe_modify: "(cons_ok s \<Longrightarrow> cons_ok (f s) \<and> cons_safe n (f s)) \<Longrightarrow> cons_safe (thn (modify f) n) s"
  by (simp add: cons_safe_def thn_def bnd_def modify_def)

lemma cons_safe_then: "cons_safe m s \<Longrightarrow> keeps_cons n \<Longrightarrow> cons_safe (thn m n) s"
  unfolding thn_def by (rule cons_safe_seq) (auto intro: cons_safe_keeps)

lemma cons_safe_if: "(b \<Longrightarrow> cons_safe m s) \<Longrightarrow> (\<not> b \<Longrightarrow> cons_safe n s) \<Longrightarrow> cons_safe (if b then m else n) s"
  by simp

text \<open>The three ways in which the counters move.\<close>

lemma cons_ok_back: "cons_ok s \<Longrightarrow> cons_e s \<noteq> cons_w s \<Longrightarrow> cons_ok (s\<lparr>cons_e := cons_e s - 1\<rparr>)"
proof -
  assume ok: "cons_ok s" and ne: "cons_e s \<noteq> cons_w s"
  define x y where "x = cons_w s - cons_r s" and "y = cons_e s - cons_r s"
  have "x \<le> y" "y \<le> 128" "x \<noteq> y" using ok ne by (auto simp: cons_ok_def x_def y_def)
  then have "x \<le> y - 1" "y - 1 \<le> 128"
    using unat_minus_one [of y] by (auto simp: word_le_nat_alt word_unat_eq_iff)
  moreover have eq: "cons_e s - 1 - cons_r s = y - 1" by (simp add: y_def)
  ultimately show ?thesis using ok unfolding cons_ok_def x_def by (simp add: eq)
qed

lemma cons_ok_put:
  assumes "cons_ok s" and "cons_e s - cons_r s < INPUT_BUF"
  shows "cons_ok (s\<lparr>cons_buf := (cons_buf s)[i := b], cons_e := cons_e s + 1\<rparr>)"
    and "cons_ok (s\<lparr>cons_buf := (cons_buf s)[i := b], cons_e := cons_e s + 1, cons_w := cons_e s + 1\<rparr>)"
proof -
  define x y where "x = cons_w s - cons_r s" and "y = cons_e s - cons_r s"
  have xy: "x \<le> y" "y < 128" using assms by (auto simp: cons_ok_def x_def y_def INPUT_BUF_def)
  then have "unat (y + 1) = unat y + 1" by (simp add: word_less_nat_alt unat_word_ariths)
  with xy have "x \<le> y + 1" "y + 1 \<le> 128" by (auto simp: word_le_nat_alt word_less_nat_alt)
  moreover have eq: "cons_e s + 1 - cons_r s = y + 1" by (simp add: y_def)
  ultimately show "cons_ok (s\<lparr>cons_buf := (cons_buf s)[i := b], cons_e := cons_e s + 1\<rparr>)"
    "cons_ok (s\<lparr>cons_buf := (cons_buf s)[i := b], cons_e := cons_e s + 1, cons_w := cons_e s + 1\<rparr>)"
    using assms(1) unfolding cons_ok_def x_def by (simp_all add: eq)
qed

lemma cons_ok_get: "cons_ok s \<Longrightarrow> cons_r s \<noteq> cons_w s \<Longrightarrow> cons_ok (s\<lparr>cons_r := cons_r s + 1\<rparr>)"
proof -
  assume ok: "cons_ok s" and ne: "cons_r s \<noteq> cons_w s"
  define x y where "x = cons_w s - cons_r s" and "y = cons_e s - cons_r s"
  have xy: "x \<le> y" "y \<le> 128" "x \<noteq> 0" using ok ne by (auto simp: cons_ok_def x_def y_def)
  then have "y \<noteq> 0" by auto
  with xy have "x - 1 \<le> y - 1" "y - 1 \<le> 128" by (simp_all add: word_le_nat_alt unat_minus_one)
  moreover have eq: "cons_w s - (cons_r s + 1) = x - 1" "cons_e s - (cons_r s + 1) = y - 1" by (simp_all add: x_def y_def)
  ultimately show ?thesis using ok unfolding cons_ok_def by (simp add: eq)
qed

lemma kill_line_safe: "cons_safe (kill_line k) s"
proof (induction k arbitrary: s)
  case (Suc k)
  show ?case
    unfolding kill_line.simps
    by (intro cons_safe_gets cons_safe_if cons_safe_modify conjI cons_safe_thn Suc)
      (auto intro: cons_ok_back cons_safe_keeps)
qed (simp add: cons_safe_keeps)

lemma cons_char_safe: "cons_safe (cons_char c) s"
proof -
  have put: "cons_safe (thn (modify (\<lambda>s. s\<lparr>cons_buf := (cons_buf s)[i := b], cons_e := cons_e v + 1\<rparr>))
      (if p then thn (modify (\<lambda>s. s\<lparr>cons_w := cons_e s\<rparr>)) (wakeup ChanCons) else ret ())) u"
    if "cons_e v - cons_r v < INPUT_BUF" "cons_e u = cons_e v" "cons_r u = cons_r v" for u v :: "'a constate_scheme" and i b p
  proof (intro cons_safe_modify conjI)
    assume ok: "cons_ok u"
    with cons_ok_put [OF ok] that show "cons_ok (u\<lparr>cons_buf := (cons_buf u)[i := b], cons_e := cons_e v + 1\<rparr>)" by simp
    show "cons_safe (if p then thn (modify (\<lambda>s. s\<lparr>cons_w := cons_e s\<rparr>)) (wakeup ChanCons) else ret ())
        (u\<lparr>cons_buf := (cons_buf u)[i := b], cons_e := cons_e v + 1\<rparr>)"
      by (rule cons_safe_if, rule cons_safe_modify)
        (use cons_ok_put(2) [OF ok, of i b] that in \<open>simp_all add: cons_safe_keeps\<close>)
  qed
  show ?thesis
    unfolding cons_char_def Let_def
    by (intro cons_safe_gets cons_safe_if, rule cons_safe_thn [OF keeps_cons_consputc], rule put)
      (auto dest!: keeps_consD(1) [OF keeps_cons_consputc] intro: cons_safe_keeps)
qed

lemma consoleintr_safe: "cons_safe (consoleintr c) s"
  unfolding consoleintr_def
  by (intro cons_safe_thn cons_safe_then cons_safe_if cons_safe_gets cons_safe_modify conjI)
    (auto intro: cons_safe_keeps kill_line_safe cons_char_safe cons_ok_back)

lemma consoleread_done_safe: "cons_safe (consoleread_done target n) s"
  unfolding consoleread_done_def by (intro cons_safe_keeps keeps_cons_intros) simp_all

lemma consoleread_loop_safe: "cons_safe (consoleread_loop k user_dst dst target) s"
proof (induction k arbitrary: dst s)
  case 0
  show ?case by (simp add: consoleread_done_safe)
next
  case (Suc k)
  have unget: "cons_safe (thn (if b then modify (\<lambda>s. s\<lparr>cons_r := cons_r s - 1\<rparr>) else ret ()) (consoleread_done target (Suc k)))
      (u\<lparr>cons_r := cons_r u + 1\<rparr>)" if "cons_ok u" for u :: "'a constate_scheme" and b
    using that consoleread_done_safe [of target "Suc k" u]
    by (cases b) (auto simp: cons_safe_def thn_def bnd_def modify_def ret_def consoleread_done_def release_def cons_ok_def split: outcome.splits if_splits)
  show ?case
    unfolding consoleread_loop.simps
    by (intro cons_safe_gets cons_safe_if cons_safe_bnd cons_safe_modify conjI cons_safe_thn unget Suc consoleread_done_safe)
      (auto intro: cons_safe_keeps cons_ok_get keeps_cons_intros keeps_cons_modify)
qed

section \<open>Properties\<close>

text \<open>C38: The counters of the console's input buffer keep their order and never get further apart than the 128 bytes of the
  buffer: every interrupt for a character and every \<open>read\<close> of the console, whether it returns, goes to sleep or
  goes on after sleeping, leads from such a state to such a state, also when the counters wrap around.\<close>

theorem console_buffer_type:
  assumes "cons_ok s"
    and "consoleintr c s = Ret u t \<or>
      consoleread user_dst dst n s = Ret r t \<or> consoleread user_dst dst n s = Sleep ch t \<or>
      consoleread_resume user_dst dst k target s = Ret r t \<or> consoleread_resume user_dst dst k target s = Sleep ch t"
  shows "length (cons_buf t) = 128 \<and> cons_w t - cons_r t \<le> cons_e t - cons_r t \<and> cons_e t - cons_r t \<le> 128"
proof -
  have "cons_safe (consoleread user_dst dst n) s"
    unfolding consoleread_def
    by (intro cons_safe_thn cons_safe_if consoleread_loop_safe cons_safe_keeps keeps_cons_intros) simp_all
  moreover have "cons_safe (consoleread_resume user_dst dst k target) s"
    unfolding consoleread_resume_def by (intro cons_safe_thn consoleread_loop_safe) simp
  ultimately have "cons_ok t" using assms consoleintr_safe [of c s] by (auto simp: cons_safe_def)
  then show ?thesis by (simp add: cons_ok_def)
qed

definition console0 :: constate where
  "console0 = uartstate.extend (pistate.extend (small_pipes (\<lambda>_. 0))
     (uartstate.fields (\<lambda>_. 0x20) 0 (\<lambda>_. 0) 0 [] (replicate 32 0) 0 0 0))
     (constate.fields 1 (replicate 128 0) 0xFFFFFFFF 0xFFFFFFFF 0xFFFFFFFF)"

lemma console0_simps [simp]:
  "cons_buf console0 = replicate 128 0" "cons_r console0 = 0xFFFFFFFF" "cons_w console0 = 0xFFFFFFFF"
  "cons_e console0 = 0xFFFFFFFF" "held console0 = []" "lsr_at console0 = (\<lambda>_. 0x20)" "lsr_n console0 = 0" "panicked console0 = 0"
  by (simp_all add: console0_def uartstate.defs pistate.defs constate.defs small_pipes_def rstate.defs no_rings_def pstate.defs small_table_def)

theorem console_buffer_type_witness:
  "\<exists>t. consoleintr 97 console0 = Ret () t \<and> cons_e t = 0 \<and> cons_e t - cons_r t \<le> 128"
proof -
  have idle: "next_idle (\<lambda>_. 0x20) 0 = Some 0" by (subst next_idle.simps) (simp add: LSR_TX_IDLE_def)
  obtain t where t: "consoleintr 97 console0 = Ret () t" "cons_e t = 0"
    by (simp add: consoleintr_def cons_char_def C_def INPUT_BUF_def BACKSPACE_def consputc_def uartputc_sync_def WriteReg_def
        Let_def idle monad_simps)
  have "cons_ok console0" by (simp add: cons_ok_def)
  from console_buffer_type [OF this, of 97 _ t] t show ?thesis by auto
qed

end
