(* ===== verification/Sleeplock.thy ===== *)
theory Sleeplock
  imports Console
begin

text \<open>
  Sleep locks, \<open>kernel/sleeplock.c\<close>.  The kernel has one in every buffer and in every cached inode; \<open>sleeplocks\<close>
  maps their names to the fields of \<open>struct sleeplock\<close>.  A process that finds the lock taken sleeps, and goes on
  in \<open>acquiresleep_resume\<close>.
\<close>

datatype slid = SlBuf nat | SlInode nat

record sleeplock =
  sl_locked :: uint32
  sl_pid :: int

record slstate = constate +
  sleeplocks :: "slid \<Rightarrow> sleeplock"

text \<open>The spin lock inside a sleep lock, and its address as a channel.\<close>

fun sl_lk :: "slid \<Rightarrow> lock" where
  "sl_lk (SlBuf i) = BufLk i"
| "sl_lk (SlInode i) = InodeLk i"

fun sl_chan :: "slid \<Rightarrow> chan" where
  "sl_chan (SlBuf i) = ChanBufLock i"
| "sl_chan (SlInode i) = ChanInodeLock i"

definition set_sl :: "slid \<Rightarrow> sleeplock \<Rightarrow> ('z slstate_scheme, unit) kfun" where
  "set_sl l v = modify (\<lambda>s. s\<lparr>sleeplocks := (sleeplocks s)(l := v)\<rparr>)"

definition initsleeplock :: "slid \<Rightarrow> ('z slstate_scheme, unit) kfun" where
  "initsleeplock l = thn (initlock (sl_lk l)) (set_sl l \<lparr>sl_locked = 0, sl_pid = 0\<rparr>)"

text \<open>One test of the loop of \<open>acquiresleep\<close>.\<close>

definition acquiresleep_loop :: "slid \<Rightarrow> ('z slstate_scheme, unit) kfun" where
  "acquiresleep_loop l = bnd (gets (\<lambda>s. sleeplocks s l)) (\<lambda>v.
     if sl_locked v \<noteq> 0 then sleep (sl_chan l) (sl_lk l)
     else bnd myproc (\<lambda>i. bnd (get_proc i) (\<lambda>p.
       thn (set_sl l \<lparr>sl_locked = 1, sl_pid = p_pid p\<rparr>) (release (sl_lk l)))))"

definition acquiresleep :: "slid \<Rightarrow> ('z slstate_scheme, unit) kfun" where
  "acquiresleep l = thn (acquire (sl_lk l)) (acquiresleep_loop l)"

definition acquiresleep_resume :: "slid \<Rightarrow> ('z slstate_scheme, unit) kfun" where
  "acquiresleep_resume l = thn (sleep_resume (sl_lk l)) (acquiresleep_loop l)"

definition releasesleep :: "slid \<Rightarrow> ('z slstate_scheme, unit) kfun" where
  "releasesleep l = thn (acquire (sl_lk l))
     (thn (set_sl l \<lparr>sl_locked = 0, sl_pid = 0\<rparr>)
     (thn (wakeup (sl_chan l)) (release (sl_lk l))))"

definition holdingsleep :: "slid \<Rightarrow> ('z slstate_scheme, bool) kfun" where
  "holdingsleep l = thn (acquire (sl_lk l))
     (bnd (gets (\<lambda>s. sleeplocks s l)) (\<lambda>v. bnd myproc (\<lambda>i. bnd (get_proc i) (\<lambda>p.
       let r = (sl_locked v \<noteq> 0 \<and> sl_pid v = p_pid p) in
       thn (release (sl_lk l)) (ret r)))))"

section \<open>Runs\<close>

text \<open>A process that runs and holds no spin lock.\<close>

definition at_work :: "'z pstate_scheme \<Rightarrow> bool" where
  "at_work s \<longleftrightarrow> table_ok s \<and> held s = [] \<and> cur s \<noteq> None"

definition my_pid :: "'z pstate_scheme \<Rightarrow> int" where
  "my_pid s = p_pid (procs s ! the (cur s))"

definition sl_free :: "'z slstate_scheme \<Rightarrow> slid \<Rightarrow> bool" where
  "sl_free s l \<longleftrightarrow> sl_locked (sleeplocks s l) = 0"

definition sl_mine :: "'z slstate_scheme \<Rightarrow> slid \<Rightarrow> bool" where
  "sl_mine s l \<longleftrightarrow> sl_locked (sleeplocks s l) \<noteq> 0 \<and> sl_pid (sleeplocks s l) = my_pid s"

lemma acquiresleep_run:
  assumes "at_work s" and "sl_free s l"
  shows "acquiresleep l s = Ret () (s\<lparr>sleeplocks := (sleeplocks s)(l := \<lparr>sl_locked = 1, sl_pid = my_pid s\<rparr>)\<rparr>)"
  using assms by (auto simp: at_work_def sl_free_def my_pid_def acquiresleep_def acquiresleep_loop_def set_sl_def proc_run)

lemma holdingsleep_run:
  assumes "at_work s"
  shows "holdingsleep l s = Ret (sl_mine s l) s"
  using assms by (auto simp: at_work_def sl_mine_def my_pid_def holdingsleep_def proc_run Let_def)

text \<open>\<open>woke s t\<close>: \<open>t\<close> is \<open>s\<close> but that sleeping processes other than the running one may have been made runnable.\<close>

definition woke :: "'z pstate_scheme \<Rightarrow> 'z pstate_scheme \<Rightarrow> bool" where
  "woke s t \<longleftrightarrow> (\<exists>ts. t = s\<lparr>procs := ts\<rparr> \<and> length ts = NPROC \<and>
     (\<forall>j<NPROC. ts ! j = procs s ! j \<or> (cur s \<noteq> Some j \<and> p_state (procs s ! j) = SLEEPING \<and> ts ! j = (procs s ! j)\<lparr>p_state := RUNNABLE\<rparr>)))"

lemma wakeup_woke:
  assumes "table_ok s"
  shows "\<exists>t. wakeup c s = Ret () t \<and> woke s t"
proof -
  obtain ts where "wakeup c s = Ret () (s\<lparr>procs := ts\<rparr>)" "length ts = NPROC"
      "\<And>j. j < NPROC \<Longrightarrow> ts ! j = woken c (cur s) j (procs s ! j)"
    using wakeup_run [OF assms] by metis
  then show ?thesis unfolding woke_def
    by (intro exI [of _ "s\<lparr>procs := ts\<rparr>"] conjI exI [of _ ts]) (auto simp: woken_def)
qed

end
