(* ===== verification/Virtio.thy ===== *)
theory Virtio
  imports Sleeplock
begin

text \<open>
  Buffers and the driver of the disk, \<open>kernel/virtio_disk.c\<close>.  Descriptors, the two rings and the request
  headers are typed tables; an address in a descriptor is the object it points to.  \<open>image\<close> is the
  content of the disk, byte by byte, and \<open>device\<close> what the disk does with the requests in the available
  ring when it is notified: it follows the chain of descriptors, moves the data and sets the status, puts
  the chain into the used ring, and raises an interrupt.

  \<open>virtio_disk_rw\<close> waits for its request in \<open>sleep\<close>, which gives up \<open>vdisk_lock\<close>; meanwhile the device
  serves the request and \<open>virtio_disk_intr\<close> runs.  \<open>virtio_disk_wait\<close> is this hand-over seen by the process
  that waits; what other processes do in between is not part of its run.
\<close>

unbundle bit_operations_syntax

section \<open>Buffers\<close>

definition BSIZE :: nat where "BSIZE = 1024"

record buf =
  b_valid :: int
  b_disk :: int
  b_dev :: uint32
  b_blockno :: uint32
  b_refcnt :: uint32
  b_data :: "uchar list"

section \<open>The queue\<close>

definition NUM :: nat where "NUM = 8"
definition VRING_DESC_F_NEXT :: ushort where "VRING_DESC_F_NEXT = 1"
definition VRING_DESC_F_WRITE :: ushort where "VRING_DESC_F_WRITE = 2"
definition VIRTIO_BLK_T_IN :: uint32 where "VIRTIO_BLK_T_IN = 0"
definition VIRTIO_BLK_T_OUT :: uint32 where "VIRTIO_BLK_T_OUT = 1"

text \<open>What a descriptor can point to: nothing, \<open>disk.ops[i]\<close>, the data of buffer \<open>i\<close>, \<open>disk.info[i].status\<close>.\<close>

datatype dma = DmaNull | DmaOp nat | DmaData nat | DmaStatus nat

record virtq_desc =
  d_addr :: dma
  d_len :: uint32
  d_flags :: ushort
  d_next :: ushort

record virtio_blk_req =
  rq_type :: uint32
  rq_reserved :: uint32
  rq_sector :: uint64

record vinfo =
  i_b :: "nat option"
  i_status :: uchar

record vdstate = slstate +
  bufs :: "buf list"
  image :: "nat \<Rightarrow> uchar"
  desc :: "virtq_desc list"
  avail_ring :: "ushort list"
  avail_idx :: ushort
  used_ring :: "uint32 list"
  used_idx_dev :: ushort
  vfree :: "uchar list"
  vused_idx :: ushort
  vinfos :: "vinfo list"
  vops :: "virtio_blk_req list"

definition set_buf :: "nat \<Rightarrow> (buf \<Rightarrow> buf) \<Rightarrow> ('z vdstate_scheme, unit) kfun" where
  "set_buf i f = modify (\<lambda>s. s\<lparr>bufs := (bufs s)[i := f (bufs s ! i)]\<rparr>)"

definition get_buf :: "nat \<Rightarrow> ('z vdstate_scheme, buf) kfun" where
  "get_buf i = gets (\<lambda>s. bufs s ! i)"

definition set_desc :: "nat \<Rightarrow> virtq_desc \<Rightarrow> ('z vdstate_scheme, unit) kfun" where
  "set_desc i d = modify (\<lambda>s. s\<lparr>desc := (desc s)[i := d]\<rparr>)"

section \<open>Descriptors\<close>

primrec alloc_desc_scan :: "nat list \<Rightarrow> ('z vdstate_scheme, nat option) kfun" where
  "alloc_desc_scan [] = ret None"
| "alloc_desc_scan (i # is) = bnd (gets vfree) (\<lambda>f.
     if f ! i \<noteq> 0 then thn (modify (\<lambda>s. s\<lparr>vfree := (vfree s)[i := 0]\<rparr>)) (ret (Some i)) else alloc_desc_scan is)"

definition alloc_desc :: "('z vdstate_scheme, nat option) kfun" where
  "alloc_desc = alloc_desc_scan [0..<NUM]"

definition free_desc :: "nat \<Rightarrow> ('z vdstate_scheme, unit) kfun" where
  "free_desc i = (if i \<ge> NUM then panic ''free_desc 1''
     else bnd (gets vfree) (\<lambda>f. if f ! i \<noteq> 0 then panic ''free_desc 2''
     else thn (set_desc i \<lparr>d_addr = DmaNull, d_len = 0, d_flags = 0, d_next = 0\<rparr>)
         (thn (modify (\<lambda>s. s\<lparr>vfree := (vfree s)[i := 1]\<rparr>)) (wakeup ChanDisk))))"

text \<open>\<open>free_chain\<close>; each turn frees a descriptor and none twice, so that \<open>NUM\<close> turns are enough.\<close>

primrec free_chain_loop :: "nat \<Rightarrow> nat \<Rightarrow> ('z vdstate_scheme, unit) kfun" where
  "free_chain_loop 0 i = undef ''free_chain''"
| "free_chain_loop (Suc k) i = bnd (gets (\<lambda>s. desc s ! i)) (\<lambda>d.
     thn (free_desc i) (if d_flags d AND VRING_DESC_F_NEXT \<noteq> 0 then free_chain_loop k (unat (d_next d)) else ret ()))"

definition v_free_chain :: "nat \<Rightarrow> ('z vdstate_scheme, unit) kfun" where
  "v_free_chain i = free_chain_loop (Suc NUM) i"

definition alloc3_desc :: "('z vdstate_scheme, (nat \<times> nat \<times> nat) option) kfun" where
  "alloc3_desc = bnd alloc_desc (\<lambda>i0. case i0 of None \<Rightarrow> ret None | Some i0 \<Rightarrow>
     bnd alloc_desc (\<lambda>i1. case i1 of None \<Rightarrow> thn (free_desc i0) (ret None) | Some i1 \<Rightarrow>
     bnd alloc_desc (\<lambda>i2. case i2 of None \<Rightarrow> thn (free_desc i0) (thn (free_desc i1) (ret None))
       | Some i2 \<Rightarrow> ret (Some (i0, i1, i2)))))"

section \<open>Requests\<close>

text \<open>Filling in the three descriptors and making them available.\<close>

definition virtio_disk_format :: "nat \<Rightarrow> bool \<Rightarrow> nat \<Rightarrow> nat \<Rightarrow> nat \<Rightarrow> ('z vdstate_scheme, unit) kfun" where
  "virtio_disk_format b write i0 i1 i2 = bnd (get_buf b) (\<lambda>bp.
     let sector = ucast (b_blockno bp * 2) in
     thn (modify (\<lambda>s. s\<lparr>vops := (vops s)[i0 :=
         \<lparr>rq_type = (if write then VIRTIO_BLK_T_OUT else VIRTIO_BLK_T_IN), rq_reserved = 0, rq_sector = sector\<rparr>]\<rparr>))
    (thn (set_desc i0 \<lparr>d_addr = DmaOp i0, d_len = 16, d_flags = VRING_DESC_F_NEXT, d_next = of_nat i1\<rparr>)
    (thn (set_desc i1 \<lparr>d_addr = DmaData b, d_len = of_nat BSIZE,
         d_flags = (if write then 0 else VRING_DESC_F_WRITE) OR VRING_DESC_F_NEXT, d_next = of_nat i2\<rparr>)
    (thn (modify (\<lambda>s. s\<lparr>vinfos := (vinfos s)[i0 := (vinfos s ! i0)\<lparr>i_status := 0xFF\<rparr>]\<rparr>))
    (thn (set_desc i2 \<lparr>d_addr = DmaStatus i0, d_len = 1, d_flags = VRING_DESC_F_WRITE, d_next = 0\<rparr>)
    (thn (set_buf b (\<lambda>x. x\<lparr>b_disk := 1\<rparr>))
    (thn (modify (\<lambda>s. s\<lparr>vinfos := (vinfos s)[i0 := (vinfos s ! i0)\<lparr>i_b := Some b\<rparr>]\<rparr>))
    (thn (modify (\<lambda>s. s\<lparr>avail_ring := (avail_ring s)[unat (avail_idx s) mod NUM := of_nat i0]\<rparr>))
         (modify (\<lambda>s. s\<lparr>avail_idx := avail_idx s + 1\<rparr>))))))))))"

text \<open>The device: the request at the head of the chain \<open>i0\<close>.\<close>

definition read_image :: "(nat \<Rightarrow> uchar) \<Rightarrow> nat \<Rightarrow> uchar list" where
  "read_image im off = map (\<lambda>k. im (off + k)) [0..<BSIZE]"

definition write_image :: "(nat \<Rightarrow> uchar) \<Rightarrow> nat \<Rightarrow> uchar list \<Rightarrow> (nat \<Rightarrow> uchar)" where
  "write_image im off bs = (\<lambda>a. if off \<le> a \<and> a < off + length bs then bs ! (a - off) else im a)"

definition serve :: "nat \<Rightarrow> 'z vdstate_scheme \<Rightarrow> 'z vdstate_scheme" where
  "serve i0 s = (let d0 = desc s ! i0; d1 = desc s ! unat (d_next d0); d2 = desc s ! unat (d_next d1) in
     case (d_addr d0, d_addr d1, d_addr d2) of
       (DmaOp r, DmaData b, DmaStatus i) \<Rightarrow>
         (let off = unat (rq_sector (vops s ! r)) * 512;
              s1 = (if rq_type (vops s ! r) = VIRTIO_BLK_T_OUT
                    then s\<lparr>image := write_image (image s) off (b_data (bufs s ! b))\<rparr>
                    else s\<lparr>bufs := (bufs s)[b := (bufs s ! b)\<lparr>b_data := read_image (image s) off\<rparr>]\<rparr>) in
          s1\<lparr>vinfos := (vinfos s1)[i := (vinfos s1 ! i)\<lparr>i_status := 0\<rparr>],
             used_ring := (used_ring s1)[unat (used_idx_dev s1) mod NUM := of_nat i0],
             used_idx_dev := used_idx_dev s1 + 1\<rparr>)
     | _ \<Rightarrow> s)"

text \<open>The request that was made available last.\<close>

definition device :: "('z vdstate_scheme, unit) kfun" where
  "device = modify (\<lambda>s. serve (unat (avail_ring s ! (unat (avail_idx s - 1) mod NUM))) s)"

text \<open>The interrupt handler; the turns are the entries of the used ring not yet looked at.\<close>

primrec virtio_intr_loop :: "nat \<Rightarrow> ('z vdstate_scheme, unit) kfun" where
  "virtio_intr_loop 0 = ret ()"
| "virtio_intr_loop (Suc k) = bnd (gets (\<lambda>s. unat (used_ring s ! (unat (vused_idx s) mod NUM)))) (\<lambda>id.
     bnd (gets (\<lambda>s. vinfos s ! id)) (\<lambda>v.
       if i_status v \<noteq> 0 then panic ''virtio_disk_intr status''
       else case i_b v of None \<Rightarrow> undef ''virtio_disk_intr: no buffer''
         | Some b \<Rightarrow> thn (set_buf b (\<lambda>x. x\<lparr>b_disk := 0\<rparr>))
            (thn (wakeup (ChanBuf b))
            (thn (modify (\<lambda>s. s\<lparr>vused_idx := vused_idx s + 1\<rparr>)) (virtio_intr_loop k)))))"

definition virtio_disk_intr :: "('z vdstate_scheme, unit) kfun" where
  "virtio_disk_intr = thn (acquire VdiskLock)
     (thn (bnd (gets (\<lambda>s. unat (used_idx_dev s - vused_idx s))) virtio_intr_loop) (release VdiskLock))"

text \<open>Waiting until the request of buffer \<open>b\<close> has finished.\<close>

definition virtio_disk_wait :: "nat \<Rightarrow> ('z vdstate_scheme, unit) kfun" where
  "virtio_disk_wait b = bnd (get_buf b) (\<lambda>bp.
     if b_disk bp \<noteq> 1 then ret ()
     else thn (release VdiskLock) (thn device (thn virtio_disk_intr (acquire VdiskLock))))"

definition virtio_disk_rw_loop :: "nat \<Rightarrow> bool \<Rightarrow> ('z vdstate_scheme, unit) kfun" where
  "virtio_disk_rw_loop b write = bnd alloc3_desc (\<lambda>idx. case idx of
     None \<Rightarrow> sleep ChanDisk VdiskLock
   | Some (i0, i1, i2) \<Rightarrow> thn (virtio_disk_format b write i0 i1 i2)
       (thn (virtio_disk_wait b)
       (thn (modify (\<lambda>s. s\<lparr>vinfos := (vinfos s)[i0 := (vinfos s ! i0)\<lparr>i_b := None\<rparr>]\<rparr>))
       (thn (v_free_chain i0) (release VdiskLock)))))"

definition virtio_disk_rw :: "nat \<Rightarrow> bool \<Rightarrow> ('z vdstate_scheme, unit) kfun" where
  "virtio_disk_rw b write = thn (acquire VdiskLock) (virtio_disk_rw_loop b write)"

text \<open>After waiting for free descriptors.\<close>

definition virtio_disk_rw_resume :: "nat \<Rightarrow> bool \<Rightarrow> ('z vdstate_scheme, unit) kfun" where
  "virtio_disk_rw_resume b write = thn (sleep_resume VdiskLock) (virtio_disk_rw_loop b write)"

section \<open>Initialisation\<close>

text \<open>The registers of the device are read through \<open>rd\<close>; the result lists the writes, in order, and the
  queue starts out empty.  \<open>pages\<close> is the address of \<open>disk.pages\<close>.\<close>

definition feature_mask :: uint64 where
  "feature_mask = NOT (2 ^ 5) AND NOT (2 ^ 7) AND NOT (2 ^ 11) AND NOT (2 ^ 12) AND NOT (2 ^ 27) AND NOT (2 ^ 29) AND NOT (2 ^ 28)"

definition virtio_disk_init :: "(nat \<Rightarrow> uint32) \<Rightarrow> addr \<Rightarrow> ('z vdstate_scheme, (nat \<times> uint32) list) kfun" where
  "virtio_disk_init rd pages = thn (initlock VdiskLock)
     (if rd 0 \<noteq> 0x74726976 \<or> rd 4 \<noteq> 1 \<or> rd 8 \<noteq> 2 \<or> rd 0xC \<noteq> 0x554d4551 then panic ''could not find virtio disk''
      else let mx = rd 0x34 in
        if mx = 0 then panic ''virtio disk has no queue 0''
        else if mx < of_nat NUM then panic ''virtio disk max queue too short''
        else thn (modify (\<lambda>s. s\<lparr>desc := replicate NUM \<lparr>d_addr = DmaNull, d_len = 0, d_flags = 0, d_next = 0\<rparr>,
               avail_ring := replicate NUM 0, avail_idx := 0, used_ring := replicate NUM 0, used_idx_dev := 0,
               vfree := replicate NUM 1\<rparr>))
             (ret [(0x70, 1), (0x70, 3), (0x20, ucast (ucast (rd 0x10) AND feature_mask)), (0x70, 11), (0x70, 15),
                   (0x28, 4096), (0x30, 0), (0x38, of_nat NUM), (0x40, ucast (drop_bit 12 pages))]))"

section \<open>One request\<close>

text \<open>The queue at rest: all descriptors are free and every answer has been looked at.\<close>

definition vq_ok :: "'z vdstate_scheme \<Rightarrow> bool" where
  "vq_ok s \<longleftrightarrow> vfree s = replicate NUM 1 \<and> length (desc s) = NUM \<and> length (avail_ring s) = NUM \<and>
     length (used_ring s) = NUM \<and> length (vinfos s) = NUM \<and> length (vops s) = NUM \<and> used_idx_dev s = vused_idx s"

lemma wakes:
  assumes "table_ok s"
  shows "\<exists>ts. wakeup c s = Ret () (s\<lparr>procs := ts\<rparr>) \<and> length ts = NPROC \<and> (\<forall>j<NPROC. cur s = Some j \<longrightarrow> ts ! j = procs s ! j)"
proof -
  obtain ts where "wakeup c s = Ret () (s\<lparr>procs := ts\<rparr>)" "length ts = NPROC"
      "\<And>j. j < NPROC \<Longrightarrow> ts ! j = woken c (cur s) j (procs s ! j)"
    using wakeup_run [OF assms] by metis
  then show ?thesis by (intro exI [of _ ts]) (simp add: woken_def)
qed

lemma table_ok_cong: "length (procs t) = length (procs s) \<Longrightarrow> held t = held s \<Longrightarrow> cur t = cur s \<Longrightarrow> table_ok t = table_ok s"
  by (simp add: table_ok_def)

lemma upt_NUM: "[0..<NUM] = [0, 1, 2, 3, 4, 5, 6, 7]"
  by (simp add: NUM_def upt_rec)

lemma replicate_NUM: "replicate NUM x = [x, x, x, x, x, x, x, x]"
  by (simp add: NUM_def numeral_eq_Suc)

lemma alloc3_run:
  assumes "vfree s = replicate NUM 1"
  shows "alloc3_desc s = Ret (Some (0, 1, 2)) (s\<lparr>vfree := [0, 0, 0, 1, 1, 1, 1, 1]\<rparr>)"
  using assms by (simp add: alloc3_desc_def alloc_desc_def upt_NUM replicate_NUM monad_simps)

lemma free_desc_run:
  assumes "i < NUM" and "length (vfree s) = NUM" and "vfree s ! i = 0" and "table_ok s"
  shows "\<exists>ts. free_desc i s = Ret () (s\<lparr>desc := (desc s)[i := \<lparr>d_addr = DmaNull, d_len = 0, d_flags = 0, d_next = 0\<rparr>],
      vfree := (vfree s)[i := 1], procs := ts\<rparr>) \<and> length ts = NPROC \<and> (\<forall>j<NPROC. cur s = Some j \<longrightarrow> ts ! j = procs s ! j)"
proof -
  let ?s = "s\<lparr>desc := (desc s)[i := \<lparr>d_addr = DmaNull, d_len = 0, d_flags = 0, d_next = 0\<rparr>], vfree := (vfree s)[i := 1]\<rparr>"
  have "table_ok ?s" using assms(4) by (simp add: table_ok_def)
  from wakes [OF this, of ChanDisk] show ?thesis using assms(1,3) by (auto simp: free_desc_def set_desc_def monad_simps)
qed

text \<open>The chain that a request uses, and the state with it in place.\<close>

definition req_descs :: "nat \<Rightarrow> bool \<Rightarrow> virtq_desc list \<Rightarrow> virtq_desc list" where
  "req_descs b wr ds = ds[0 := \<lparr>d_addr = DmaOp 0, d_len = 16, d_flags = VRING_DESC_F_NEXT, d_next = 1\<rparr>,
     1 := \<lparr>d_addr = DmaData b, d_len = of_nat BSIZE, d_flags = (if wr then 0 else VRING_DESC_F_WRITE) OR VRING_DESC_F_NEXT, d_next = 2\<rparr>,
     2 := \<lparr>d_addr = DmaStatus 0, d_len = 1, d_flags = VRING_DESC_F_WRITE, d_next = 0\<rparr>]"

lemma req_descs_nth:
  assumes "length ds = NUM"
  shows "req_descs b wr ds ! 0 = \<lparr>d_addr = DmaOp 0, d_len = 16, d_flags = VRING_DESC_F_NEXT, d_next = 1\<rparr>"
    and "req_descs b wr ds ! 1 = \<lparr>d_addr = DmaData b, d_len = of_nat BSIZE,
      d_flags = (if wr then 0 else VRING_DESC_F_WRITE) OR VRING_DESC_F_NEXT, d_next = 2\<rparr>"
    and "req_descs b wr ds ! 2 = \<lparr>d_addr = DmaStatus 0, d_len = 1, d_flags = VRING_DESC_F_WRITE, d_next = 0\<rparr>"
  using assms by (simp_all add: req_descs_def NUM_def)

lemma free_chain_run:
  assumes "table_ok s" and "vfree s = [0, 0, 0, 1, 1, 1, 1, 1]" and "desc s = req_descs b wr ds" and "length ds = NUM"
  shows "\<exists>ts ds'. v_free_chain 0 s = Ret () (s\<lparr>desc := ds', vfree := replicate NUM 1, procs := ts\<rparr>) \<and> length ts = NPROC \<and>
    (\<forall>j<NPROC. cur s = Some j \<longrightarrow> ts ! j = procs s ! j) \<and> length ds' = NUM"
proof -
  let ?z = "\<lparr>d_addr = DmaNull, d_len = 0, d_flags = 0, d_next = 0\<rparr>"
  have fl: "VRING_DESC_F_NEXT AND VRING_DESC_F_NEXT \<noteq> 0" "VRING_DESC_F_WRITE AND VRING_DESC_F_NEXT = 0"
    "((if wr then 0 else VRING_DESC_F_WRITE) OR VRING_DESC_F_NEXT) AND VRING_DESC_F_NEXT \<noteq> 0"
    by (simp_all add: VRING_DESC_F_NEXT_def VRING_DESC_F_WRITE_def)
  have n: "(0::nat) < NUM" "1 < NUM" "2 < NUM" by (simp_all add: NUM_def)
  note d = req_descs_nth [OF assms(4), where b = b and wr = wr]
  obtain ts0 where t0: "free_desc 0 s = Ret () (s\<lparr>desc := (desc s)[0 := ?z], vfree := (vfree s)[0 := 1], procs := ts0\<rparr>)"
      "length ts0 = NPROC" "\<forall>j<NPROC. cur s = Some j \<longrightarrow> ts0 ! j = procs s ! j"
    using free_desc_run [OF n(1) _ _ assms(1)] assms(2) by (auto simp: NUM_def)
  define s0 where "s0 = s\<lparr>desc := (desc s)[0 := ?z], vfree := (vfree s)[0 := 1], procs := ts0\<rparr>"
  have "table_ok s0" using assms(1) t0(2) by (simp add: s0_def table_ok_def)
  then obtain ts1 where t1: "free_desc 1 s0 = Ret () (s0\<lparr>desc := (desc s0)[1 := ?z], vfree := (vfree s0)[1 := 1], procs := ts1\<rparr>)"
      "length ts1 = NPROC" "\<forall>j<NPROC. cur s0 = Some j \<longrightarrow> ts1 ! j = procs s0 ! j"
    using free_desc_run [OF n(2), of s0] assms(2) by (auto simp: NUM_def s0_def)
  define s1 where "s1 = s0\<lparr>desc := (desc s0)[1 := ?z], vfree := (vfree s0)[1 := 1], procs := ts1\<rparr>"
  have "table_ok s1" using \<open>table_ok s0\<close> t1(2) by (simp add: s1_def table_ok_def)
  then obtain ts2 where t2: "free_desc 2 s1 = Ret () (s1\<lparr>desc := (desc s1)[2 := ?z], vfree := (vfree s1)[2 := 1], procs := ts2\<rparr>)"
      "length ts2 = NPROC" "\<forall>j<NPROC. cur s1 = Some j \<longrightarrow> ts2 ! j = procs s1 ! j"
    using free_desc_run [OF n(3), of s1] assms(2) by (auto simp: NUM_def s0_def s1_def)
  have "desc s ! 0 = req_descs b wr ds ! 0" "desc s0 ! 1 = req_descs b wr ds ! 1" "desc s1 ! 2 = req_descs b wr ds ! 2"
    by (simp_all add: s0_def s1_def assms(3))
  moreover obtain k where k: "Suc NUM = Suc (Suc (Suc k))" by (simp add: NUM_def numeral_eq_Suc)
  ultimately have "v_free_chain 0 s = Ret () (s1\<lparr>desc := (desc s1)[2 := ?z], vfree := (vfree s1)[2 := 1], procs := ts2\<rparr>)"
    using t0(1) [folded s0_def] t1(1) [folded s1_def] t2(1) d fl unfolding v_free_chain_def k by (simp add: monad_simps)
  then show ?thesis
    using t0(2,3) t1(2,3) t2(2,3) assms(2-4)
    by (intro exI [of _ ts2] exI [of _ "(desc s1)[2 := ?z]"]) (simp add: s0_def s1_def replicate_NUM req_descs_def)
qed

text \<open>The queue and the states of sleeping processes are all that may differ between \<open>s\<close> and \<open>t\<close>.\<close>

definition vq_only :: "'z vdstate_scheme \<Rightarrow> 'z vdstate_scheme \<Rightarrow> bool" where
  "vq_only s t \<longleftrightarrow> (\<exists>ts ds ar ai ur ui vf vu vi vo. t = s\<lparr>procs := ts, desc := ds, avail_ring := ar, avail_idx := ai, used_ring := ur,
     used_idx_dev := ui, vfree := vf, vused_idx := vu, vinfos := vi, vops := vo\<rparr> \<and> length ts = NPROC \<and>
     (\<forall>j<NPROC. cur s = Some j \<longrightarrow> ts ! j = procs s ! j))"

lemma vq_only_procs:
  "length ts = NPROC \<Longrightarrow> \<forall>j<NPROC. cur s = Some j \<longrightarrow> ts ! j = procs s ! j \<Longrightarrow>
   vq_only s (s\<lparr>desc := ds, avail_ring := ar, avail_idx := ai, used_ring := ur,
     used_idx_dev := ui, vfree := vf, vused_idx := vu, vinfos := vi, vops := vo, procs := ts\<rparr>)"
  unfolding vq_only_def
  by (intro exI [of _ ts] exI [of _ ds] exI [of _ ar] exI [of _ ai] exI [of _ ur] exI [of _ ui] exI [of _ vf] exI [of _ vu] exI [of _ vi] exI [of _ vo])
    simp

lemma virtio_disk_format_run:
  assumes "b < length (bufs s)" and "length (desc s) = NUM" and "length (vinfos s) = NUM" and "length (vops s) = NUM"
  shows "virtio_disk_format b wr 0 1 2 s = Ret ()
    (s\<lparr>vops := (vops s)[0 := \<lparr>rq_type = (if wr then VIRTIO_BLK_T_OUT else VIRTIO_BLK_T_IN), rq_reserved = 0,
        rq_sector = ucast (b_blockno (bufs s ! b) * 2)\<rparr>],
      desc := req_descs b wr (desc s), vinfos := (vinfos s)[0 := (vinfos s ! 0)\<lparr>i_status := 0xFF, i_b := Some b\<rparr>],
      bufs := (bufs s)[b := (bufs s ! b)\<lparr>b_disk := 1\<rparr>],
      avail_ring := (avail_ring s)[unat (avail_idx s) mod NUM := 0], avail_idx := avail_idx s + 1\<rparr>)"
  using assms by (simp add: virtio_disk_format_def get_buf_def set_buf_def set_desc_def monad_simps Let_def req_descs_def NUM_def)

text \<open>The device on such a request.\<close>

lemma device_run:
  assumes "length ds = NUM" and "desc s = req_descs b wr ds" and "length (avail_ring s) = NUM"
    and "avail_ring s ! (unat (avail_idx s - 1) mod NUM) = 0"
    and "rq_type (vops s ! 0) = (if wr then VIRTIO_BLK_T_OUT else VIRTIO_BLK_T_IN)" and "off = unat (rq_sector (vops s ! 0)) * 512"
  shows "device s = Ret () (s\<lparr>image := (if wr then write_image (image s) off (b_data (bufs s ! b)) else image s),
    bufs := (if wr then bufs s else (bufs s)[b := (bufs s ! b)\<lparr>b_data := read_image (image s) off\<rparr>]),
    vinfos := (vinfos s)[0 := (vinfos s ! 0)\<lparr>i_status := 0\<rparr>],
    used_ring := (used_ring s)[unat (used_idx_dev s) mod NUM := 0], used_idx_dev := used_idx_dev s + 1\<rparr>)"
proof -
  note d = req_descs_nth [OF assms(1), of b wr]
  have "serve 0 s = s\<lparr>image := (if wr then write_image (image s) off (b_data (bufs s ! b)) else image s),
    bufs := (if wr then bufs s else (bufs s)[b := (bufs s ! b)\<lparr>b_data := read_image (image s) off\<rparr>]),
    vinfos := (vinfos s)[0 := (vinfos s ! 0)\<lparr>i_status := 0\<rparr>],
    used_ring := (used_ring s)[unat (used_idx_dev s) mod NUM := 0], used_idx_dev := used_idx_dev s + 1\<rparr>"
    using assms(5,6) d by (cases wr) (simp_all add: serve_def assms(2) Let_def VIRTIO_BLK_T_IN_def VIRTIO_BLK_T_OUT_def)
  then show ?thesis using assms(4) by (simp add: device_def monad_simps)
qed

lemma virtio_disk_intr_run:
  assumes "table_ok s" and "held s = []" and "used_idx_dev s = vused_idx s + 1" and "used_ring s ! (unat (vused_idx s) mod NUM) = 0"
    and "i_status (vinfos s ! 0) = 0" and "i_b (vinfos s ! 0) = Some b"
  shows "\<exists>ts. virtio_disk_intr s = Ret () (s\<lparr>bufs := (bufs s)[b := (bufs s ! b)\<lparr>b_disk := 0\<rparr>], procs := ts, vused_idx := vused_idx s + 1\<rparr>) \<and>
    length ts = NPROC \<and> (\<forall>j<NPROC. cur s = Some j \<longrightarrow> ts ! j = procs s ! j)"
proof -
  let ?s = "s\<lparr>held := [VdiskLock], bufs := (bufs s)[b := (bufs s ! b)\<lparr>b_disk := 0\<rparr>]\<rparr>"
  have "table_ok ?s" using assms(1,2) by (simp add: table_ok_def)
  then obtain ts where "wakeup (ChanBuf b) ?s = Ret () (?s\<lparr>procs := ts\<rparr>)" "length ts = NPROC"
      "\<forall>j<NPROC. cur s = Some j \<longrightarrow> ts ! j = procs s ! j"
    using wakes [of ?s "ChanBuf b"] by auto
  moreover have "unat (used_idx_dev s - vused_idx s) = Suc 0" using assms(3) by simp
  ultimately show ?thesis using assms by (intro exI [of _ ts]) (simp add: virtio_disk_intr_def monad_simps set_buf_def)
qed

lemma virtio_disk_rw_run:
  assumes "table_ok s" and "held s = []" and "vq_ok s" and b: "b < length (bufs s)"
    and off: "off = unat (b_blockno (bufs s ! b) * 2) * 512"
  shows "\<exists>t. virtio_disk_rw b wr s = Ret () t \<and> vq_ok t \<and>
    vq_only (s\<lparr>bufs := (bufs s)[b := (bufs s ! b)\<lparr>b_disk := 0, b_data := (if wr then b_data (bufs s ! b) else read_image (image s) off)\<rparr>],
      image := (if wr then write_image (image s) off (b_data (bufs s ! b)) else image s)\<rparr>) t"
proof -
  note q = assms(3) [unfolded vq_ok_def]
  have n: "0 < NUM" by (simp add: NUM_def)
  define VO where "VO = (vops s)[0 := \<lparr>rq_type = (if wr then VIRTIO_BLK_T_OUT else VIRTIO_BLK_T_IN), rq_reserved = 0,
    rq_sector = ucast (b_blockno (bufs s ! b) * 2)\<rparr>]"
  define VI where "VI = (vinfos s)[0 := (vinfos s ! 0)\<lparr>i_status := 0xFF, i_b := Some b\<rparr>]"
  define AR where "AR = (avail_ring s)[unat (avail_idx s) mod NUM := 0]"
  define UR where "UR = (used_ring s)[unat (vused_idx s) mod NUM := 0]"
  define B2 where "B2 = (bufs s)[b := (bufs s ! b)\<lparr>b_disk := 1\<rparr>]"
  define B3 where "B3 = (if wr then B2 else B2[b := (B2 ! b)\<lparr>b_data := read_image (image s) off\<rparr>])"
  define IM where "IM = (if wr then write_image (image s) off (b_data (bufs s ! b)) else image s)"
  define s1 where "s1 = s\<lparr>held := [VdiskLock], vfree := [0, 0, 0, 1, 1, 1, 1, 1]\<rparr>"
  define s2 where "s2 = s1\<lparr>vops := VO, desc := req_descs b wr (desc s), vinfos := VI, bufs := B2, avail_ring := AR,
    avail_idx := avail_idx s + 1\<rparr>"
  define s3 where "s3 = s2\<lparr>held := [], image := IM, bufs := B3, vinfos := VI[0 := (VI ! 0)\<lparr>i_status := 0\<rparr>],
    used_ring := UR, used_idx_dev := vused_idx s + 1\<rparr>"
  have l: "length VO = NUM" "length VI = NUM" "length AR = NUM" "length UR = NUM" "b < length B3"
    using q b by (simp_all add: VO_def VI_def AR_def UR_def B3_def B2_def)
  have f: "virtio_disk_format b wr 0 1 2 s1 = Ret () s2"
    using virtio_disk_format_run [of b s1 wr] b q by (simp add: s1_def s2_def VO_def VI_def AR_def B2_def)
  have v: "rq_type (VO ! 0) = (if wr then VIRTIO_BLK_T_OUT else VIRTIO_BLK_T_IN)" "unat (rq_sector (VO ! 0)) * 512 = off"
    "AR ! (unat (avail_idx s) mod NUM) = 0" "b_data (B2 ! b) = b_data (bufs s ! b)" "b_disk (B2 ! b) = 1"
    "UR ! (unat (vused_idx s) mod NUM) = 0" "i_b (VI ! 0) = Some b"
    using q n b by (simp_all add: VO_def off AR_def B2_def UR_def VI_def)
  have dv: "device (s2\<lparr>held := []\<rparr>) = Ret () s3"
    using device_run [of "desc s" "s2\<lparr>held := []\<rparr>" b wr off] q v(1-4) l
    by (simp add: s1_def s2_def s3_def B3_def IM_def UR_def)
  have "table_ok s3" using assms(1,2) by (simp add: s3_def s2_def s1_def table_ok_def)
  then obtain ts where ts: "virtio_disk_intr s3 = Ret () (s3\<lparr>bufs := (bufs s3)[b := (bufs s3 ! b)\<lparr>b_disk := 0\<rparr>], procs := ts, vused_idx := vused_idx s3 + 1\<rparr>)"
      "length ts = NPROC" "\<forall>j<NPROC. cur s = Some j \<longrightarrow> ts ! j = procs s ! j"
    using virtio_disk_intr_run [of s3 b] l v(6,7) n by (auto simp: s3_def s2_def s1_def)
  define s4 where "s4 = s3\<lparr>bufs := (bufs s3)[b := (bufs s3 ! b)\<lparr>b_disk := 0\<rparr>], procs := ts, vused_idx := vused_idx s3 + 1\<rparr>"
  have h: "held s2 = [VdiskLock]" "bufs s2 = B2" "held s4 = []" by (simp_all add: s2_def s1_def s3_def s4_def)
  then have w: "virtio_disk_wait b s2 = Ret () (s4\<lparr>held := [VdiskLock]\<rparr>)"
    using dv ts(1) [folded s4_def] v(5) by (simp add: virtio_disk_wait_def get_buf_def monad_simps)
  define VE where "VE = (vinfos s4)[0 := (vinfos s4 ! 0)\<lparr>i_b := None\<rparr>]"
  define s5 where "s5 = s4\<lparr>held := [VdiskLock], vinfos := VE\<rparr>"
  have "table_ok s5" using assms(1,2) ts(2) by (simp add: s5_def s4_def s3_def s2_def s1_def table_ok_def)
  moreover have "vfree s5 = [0, 0, 0, 1, 1, 1, 1, 1]" "desc s5 = req_descs b wr (desc s)" "cur s5 = cur s" "procs s5 = ts" "held s5 = [VdiskLock]"
    by (simp_all add: s5_def s4_def s3_def s2_def s1_def)
  ultimately obtain ts' ds' where fc: "v_free_chain 0 s5 = Ret () (s5\<lparr>desc := ds', vfree := replicate NUM 1, procs := ts'\<rparr>)"
      "length ts' = NPROC" "\<forall>j<NPROC. cur s = Some j \<longrightarrow> ts' ! j = ts ! j" "length ds' = NUM"
    using free_chain_run [of s5 b wr "desc s"] q by auto
  let ?t = "s5\<lparr>desc := ds', vfree := replicate NUM 1, procs := ts', held := []\<rparr>"
  have "virtio_disk_rw b wr s = Ret () ?t"
    using alloc3_run [of "s\<lparr>held := [VdiskLock]\<rparr>"] q assms(2) f w fc(1) \<open>held s5 = [VdiskLock]\<close>
    by (simp add: virtio_disk_rw_def virtio_disk_rw_loop_def monad_simps s1_def [symmetric] s5_def [symmetric] VE_def [symmetric])
  moreover have "length VE = NUM" using l by (simp add: VE_def s4_def s3_def s2_def s1_def)
  then have "vq_ok ?t" using l fc(4) by (simp add: vq_ok_def s5_def s4_def s3_def s2_def s1_def)
  moreover have "B3[b := (B3 ! b)\<lparr>b_disk := 0\<rparr>] = (bufs s)[b := (bufs s ! b)\<lparr>b_disk := 0, b_data := (if wr then b_data (bufs s ! b) else read_image (image s) off)\<rparr>]"
    using b by (cases "bufs s ! b") (simp add: B3_def B2_def)
  then have "vq_only (s\<lparr>bufs := (bufs s)[b := (bufs s ! b)\<lparr>b_disk := 0, b_data := (if wr then b_data (bufs s ! b) else read_image (image s) off)\<rparr>],
      image := IM\<rparr>) ?t"
    unfolding vq_only_def
    by (intro exI [of _ ts'] exI [of _ ds'] exI [of _ AR] exI [of _ "avail_idx s + 1"] exI [of _ UR]
      exI [of _ "vused_idx s + 1"] exI [of _ "replicate NUM 1"] exI [of _ "vused_idx s + 1"] exI [of _ VE] exI [of _ VO])
      (use ts(3) fc(2,3) assms(2) in \<open>simp add: s5_def s4_def s3_def s2_def s1_def\<close>)
  ultimately show ?thesis unfolding IM_def by blast
qed

end
