(* ===== verification/Log.thy ===== *)
theory Log
  imports Bio
begin

text \<open>
  The log, \<open>kernel/log.c\<close>, and the super block of \<open>kernel/fs.h\<close>.  Integers in a block are little-endian.  The
  in-memory log header is \<open>lh_n\<close> and the table \<open>lh_block\<close> of \<open>LOGSIZE\<close> block numbers; an index outside the table
  is undefined behaviour.
\<close>

unbundle bit_operations_syntax

section \<open>Integers in a block\<close>

definition get16 :: "uchar list \<Rightarrow> nat \<Rightarrow> ushort" where
  "get16 bs i = ucast (bs ! i) OR push_bit 8 (ucast (bs ! (i + 1)))"

definition put16 :: "uchar list \<Rightarrow> nat \<Rightarrow> ushort \<Rightarrow> uchar list" where
  "put16 bs i v = bs[i := ucast v, i + 1 := ucast (drop_bit 8 v)]"

definition get32 :: "uchar list \<Rightarrow> nat \<Rightarrow> uint32" where
  "get32 bs i = ucast (bs ! i) OR push_bit 8 (ucast (bs ! (i + 1))) OR push_bit 16 (ucast (bs ! (i + 2)))
     OR push_bit 24 (ucast (bs ! (i + 3)))"

definition put32 :: "uchar list \<Rightarrow> nat \<Rightarrow> uint32 \<Rightarrow> uchar list" where
  "put32 bs i v = bs[i := ucast v, i + 1 := ucast (drop_bit 8 v), i + 2 := ucast (drop_bit 16 v), i + 3 := ucast (drop_bit 24 v)]"

section \<open>The code\<close>

record superblock =
  sb_magic :: uint32
  sb_size :: uint32
  sb_nblocks :: uint32
  sb_ninodes :: uint32
  sb_nlog :: uint32
  sb_logstart :: uint32
  sb_inodestart :: uint32
  sb_bmapstart :: uint32

record lstate = bstate +
  log_start :: int
  log_size :: int
  log_outstanding :: int
  log_committing :: int
  log_dev :: int
  lh_n :: int
  lh_block :: "int list"

definition log_block :: "nat \<Rightarrow> ('z lstate_scheme, int) kfun" where
  "log_block i = bnd (gets lh_block) (\<lambda>bl. if i < length bl then ret (bl ! i) else undef ''log.lh.block'')"

definition set_log_block :: "nat \<Rightarrow> int \<Rightarrow> ('z lstate_scheme, unit) kfun" where
  "set_log_block i v = bnd (gets lh_block) (\<lambda>bl.
     if i < length bl then modify (\<lambda>s. s\<lparr>lh_block := (lh_block s)[i := v]\<rparr>) else undef ''log.lh.block'')"

text \<open>The block of the log with number \<open>tail\<close>.\<close>

definition bread_log :: "nat \<Rightarrow> ('z lstate_scheme, nat) kfun" where
  "bread_log tail = bnd (gets log_dev) (\<lambda>dev. bnd (gets log_start) (\<lambda>st. bread (of_int dev) (of_int (st + int tail + 1))))"

definition bread_home :: "nat \<Rightarrow> ('z lstate_scheme, nat) kfun" where
  "bread_home tail = bnd (gets log_dev) (\<lambda>dev. bnd (log_block tail) (\<lambda>bn. bread (of_int dev) (of_int bn)))"

definition copy_block :: "nat \<Rightarrow> nat \<Rightarrow> ('z lstate_scheme, unit) kfun" where
  "copy_block dst src = bnd (get_buf src) (\<lambda>x. set_buf dst (\<lambda>y. y\<lparr>b_data := b_data x\<rparr>))"

definition install_one :: "bool \<Rightarrow> nat \<Rightarrow> ('z lstate_scheme, unit) kfun" where
  "install_one recovering tail = bnd (bread_log tail) (\<lambda>lbuf. bnd (bread_home tail) (\<lambda>dbuf.
     thn (copy_block dbuf lbuf)
    (thn (bwrite dbuf)
    (thn (if \<not> recovering then bunpin dbuf else ret ())
    (thn (brelse lbuf)
         (brelse dbuf))))))"

definition install_trans :: "bool \<Rightarrow> ('z lstate_scheme, unit) kfun" where
  "install_trans recovering = bnd (gets lh_n) (\<lambda>n. for_each [0..<nat n] (install_one recovering))"

definition bread_head :: "('z lstate_scheme, nat) kfun" where
  "bread_head = bnd (gets log_dev) (\<lambda>dev. bnd (gets log_start) (\<lambda>st. bread (of_int dev) (of_int st)))"

definition read_head :: "('z lstate_scheme, unit) kfun" where
  "read_head = bnd bread_head (\<lambda>b. bnd (get_buf b) (\<lambda>x.
     thn (modify (\<lambda>s. s\<lparr>lh_n := sint (get32 (b_data x) 0)\<rparr>))
    (bnd (gets lh_n) (\<lambda>n.
     thn (for_each [0..<nat n] (\<lambda>i. set_log_block i (sint (get32 (b_data x) (4 + 4 * i)))))
         (brelse b)))))"

definition write_head :: "('z lstate_scheme, unit) kfun" where
  "write_head = bnd bread_head (\<lambda>b. bnd (gets lh_n) (\<lambda>n.
     thn (set_buf b (\<lambda>x. x\<lparr>b_data := put32 (b_data x) 0 (of_int n)\<rparr>))
    (thn (for_each [0..<nat n] (\<lambda>i. bnd (log_block i) (\<lambda>bn.
            set_buf b (\<lambda>x. x\<lparr>b_data := put32 (b_data x) (4 + 4 * i) (of_int bn)\<rparr>))))
    (thn (bwrite b)
         (brelse b)))))"

definition recover_from_log :: "('z lstate_scheme, unit) kfun" where
  "recover_from_log = thn read_head
     (thn (install_trans True)
     (thn (modify (\<lambda>s. s\<lparr>lh_n := 0\<rparr>)) write_head))"

definition initlog :: "int \<Rightarrow> superblock \<Rightarrow> ('z lstate_scheme, unit) kfun" where
  "initlog dev sb = (if 4 + 4 * LOGSIZE \<ge> BSIZE then panic ''initlog: too big logheader''
     else thn (initlock LogLock)
         (thn (modify (\<lambda>s. s\<lparr>log_start := sint (sb_logstart sb), log_size := sint (sb_nlog sb), log_dev := dev\<rparr>))
              recover_from_log))"

text \<open>One test of the loop of \<open>begin_op\<close>.\<close>

definition begin_op_loop :: "('z lstate_scheme, unit) kfun" where
  "begin_op_loop = bnd (gets log_committing) (\<lambda>c. bnd (gets lh_n) (\<lambda>n. bnd (gets log_outstanding) (\<lambda>o'.
     if c \<noteq> 0 then sleep ChanLog LogLock
     else if n + (o' + 1) * int MAXOPBLOCKS > int LOGSIZE then sleep ChanLog LogLock
     else thn (modify (\<lambda>s. s\<lparr>log_outstanding := o' + 1\<rparr>)) (release LogLock))))"

definition begin_op :: "('z lstate_scheme, unit) kfun" where
  "begin_op = thn (acquire LogLock) begin_op_loop"

definition begin_op_resume :: "('z lstate_scheme, unit) kfun" where
  "begin_op_resume = thn (sleep_resume LogLock) begin_op_loop"

definition write_log_one :: "nat \<Rightarrow> ('z lstate_scheme, unit) kfun" where
  "write_log_one tail = bnd (bread_log tail) (\<lambda>to. bnd (bread_home tail) (\<lambda>from'.
     thn (copy_block to from')
    (thn (bwrite to)
    (thn (brelse from')
         (brelse to)))))"

definition write_log :: "('z lstate_scheme, unit) kfun" where
  "write_log = bnd (gets lh_n) (\<lambda>n. for_each [0..<nat n] write_log_one)"

definition commit :: "('z lstate_scheme, unit) kfun" where
  "commit = bnd (gets lh_n) (\<lambda>n.
     if n > 0
     then thn write_log
         (thn write_head
         (thn (install_trans False)
         (thn (modify (\<lambda>s. s\<lparr>lh_n := 0\<rparr>)) write_head)))
     else ret ())"

definition end_op :: "('z lstate_scheme, unit) kfun" where
  "end_op = thn (acquire LogLock)
     (thn (modify (\<lambda>s. s\<lparr>log_outstanding := log_outstanding s - 1\<rparr>))
     (bnd (gets log_committing) (\<lambda>c. if c \<noteq> 0 then panic ''log.committing''
      else bnd (gets (\<lambda>s. log_outstanding s = 0)) (\<lambda>do_commit.
        thn (if do_commit then modify (\<lambda>s. s\<lparr>log_committing := 1\<rparr>) else wakeup ChanLog)
       (thn (release LogLock)
       (if do_commit
        then thn commit
            (thn (acquire LogLock)
            (thn (modify (\<lambda>s. s\<lparr>log_committing := 0\<rparr>))
            (thn (wakeup ChanLog) (release LogLock))))
        else ret ()))))))"

text \<open>The search of \<open>log_write\<close>: the first entry with the block number, or \<open>log.lh.n\<close>.\<close>

primrec log_absorb :: "nat \<Rightarrow> nat \<Rightarrow> uint32 \<Rightarrow> ('z lstate_scheme, nat) kfun" where
  "log_absorb 0 i bn = ret i"
| "log_absorb (Suc k) i bn = bnd (log_block i) (\<lambda>x. if of_int x = bn then ret i else log_absorb k (i + 1) bn)"

definition log_write :: "nat \<Rightarrow> ('z lstate_scheme, unit) kfun" where
  "log_write b = thn (acquire LogLock)
     (bnd (gets lh_n) (\<lambda>n. bnd (gets log_size) (\<lambda>sz. bnd (gets log_outstanding) (\<lambda>o'.
      if n \<ge> int LOGSIZE \<or> n \<ge> sz - 1 then panic ''too big a transaction''
      else if o' < 1 then panic ''log_write outside of trans''
      else bnd (get_buf b) (\<lambda>x.
        bnd (log_absorb (nat n) 0 (b_blockno x)) (\<lambda>i.
        thn (set_log_block i (sint (b_blockno x)))
       (thn (if int i = n then thn (bpin b) (modify (\<lambda>s. s\<lparr>lh_n := n + 1\<rparr>)) else ret ())
            (release LogLock))))))))"

end
