(* ===== verification/Fs.thy ===== *)
theory Fs
  imports Log
begin

text \<open>
  The file system, \<open>kernel/fs.c\<close>, with the on-disk format of \<open>kernel/fs.h\<close>.  The entries of the inode cache are the
  list \<open>inodes\<close>; a pointer to an inode is its index.  \<open>buf_at b\<close> is the address of the data of buffer \<open>b\<close>:
  \<open>readi\<close> and \<open>writei\<close> hand it to \<open>either_copyout\<close> and \<open>either_copyin\<close>, for which the bytes are laid into memory and
  read back.  A directory entry \<open>de\<close> on the kernel stack is the 16 bytes at \<open>stack_at\<close>.  Paths and names are
  C strings.  \<open>itrunc\<close> comes before \<open>iput\<close>, which calls it.
\<close>

unbundle bit_operations_syntax

section \<open>The format\<close>

definition ROOTINO :: uint32 where "ROOTINO = 1"
definition FSMAGIC :: uint32 where "FSMAGIC = 0x10203040"
definition NDIRECT :: nat where "NDIRECT = 12"
definition NINDIRECT :: nat where "NINDIRECT = BSIZE div 4"
definition MAXFILE :: nat where "MAXFILE = NDIRECT + NINDIRECT"
definition IPB :: nat where "IPB = BSIZE div 64"
definition BPB :: nat where "BPB = BSIZE * 8"
definition DIRSIZ :: nat where "DIRSIZ = 14"

definition T_DIR :: ushort where "T_DIR = 1"
definition T_FILE :: ushort where "T_FILE = 2"
definition T_DEVICE :: ushort where "T_DEVICE = 3"

definition IBLOCK :: "uint32 \<Rightarrow> superblock \<Rightarrow> uint32" where
  "IBLOCK i sb = i div of_nat IPB + sb_inodestart sb"

definition BBLOCK :: "uint32 \<Rightarrow> superblock \<Rightarrow> uint32" where
  "BBLOCK b sb = b div of_nat BPB + sb_bmapstart sb"

record dinode =
  d_type :: ushort
  d_major :: ushort
  d_minor :: ushort
  d_nlink :: ushort
  d_size :: uint32
  d_addrs :: "uint32 list"

definition get_dinode :: "uchar list \<Rightarrow> nat \<Rightarrow> dinode" where
  "get_dinode bs k = (let o' = 64 * k in
     \<lparr>d_type = get16 bs o', d_major = get16 bs (o' + 2), d_minor = get16 bs (o' + 4), d_nlink = get16 bs (o' + 6),
      d_size = get32 bs (o' + 8), d_addrs = map (\<lambda>i. get32 bs (o' + 12 + 4 * i)) [0..<NDIRECT + 1]\<rparr>)"

definition put_dinode :: "uchar list \<Rightarrow> nat \<Rightarrow> dinode \<Rightarrow> uchar list" where
  "put_dinode bs k d = (let o' = 64 * k;
     bs1 = put32 (put16 (put16 (put16 (put16 bs o' (d_type d)) (o' + 2) (d_major d)) (o' + 4) (d_minor d)) (o' + 6) (d_nlink d))
       (o' + 8) (d_size d) in
     foldl (\<lambda>bs i. put32 bs (o' + 12 + 4 * i) (d_addrs d ! i)) bs1 [0..<NDIRECT + 1])"

record inode =
  i_dev :: uint32
  i_inum :: uint32
  i_ref :: int
  i_valid :: int
  i_type :: ushort
  i_major :: ushort
  i_minor :: ushort
  i_nlink :: ushort
  i_size :: uint32
  i_addrs :: "uint32 list"

record fsstate = lstate +
  sb :: superblock
  inodes :: "inode list"
  buf_at :: "nat \<Rightarrow> addr"

definition get_inode :: "nat \<Rightarrow> ('z fsstate_scheme, inode) kfun" where
  "get_inode ip = gets (\<lambda>s. inodes s ! ip)"

definition set_inode :: "nat \<Rightarrow> (inode \<Rightarrow> inode) \<Rightarrow> ('z fsstate_scheme, unit) kfun" where
  "set_inode ip f = modify (\<lambda>s. s\<lparr>inodes := (inodes s)[ip := f (inodes s ! ip)]\<rparr>)"

section \<open>Blocks\<close>

definition readsb :: "uint32 \<Rightarrow> ('z fsstate_scheme, unit) kfun" where
  "readsb dev = bnd (bread dev 1) (\<lambda>bp. bnd (get_buf bp) (\<lambda>x. let w = (\<lambda>i. get32 (b_data x) (4 * i)) in
     thn (modify (\<lambda>s. s\<lparr>sb := \<lparr>sb_magic = w 0, sb_size = w 1, sb_nblocks = w 2, sb_ninodes = w 3, sb_nlog = w 4,
       sb_logstart = w 5, sb_inodestart = w 6, sb_bmapstart = w 7\<rparr>\<rparr>)) (brelse bp)))"

definition fsinit :: "int \<Rightarrow> ('z fsstate_scheme, unit) kfun" where
  "fsinit dev = thn (readsb (of_int dev))
     (bnd (gets sb) (\<lambda>b. if sb_magic b \<noteq> FSMAGIC then panic ''invalid file system'' else initlog dev b))"

definition bzero :: "uint32 \<Rightarrow> uint32 \<Rightarrow> ('z fsstate_scheme, unit) kfun" where
  "bzero dev bno = bnd (bread dev bno) (\<lambda>bp.
     thn (set_buf bp (\<lambda>x. x\<lparr>b_data := replicate BSIZE 0\<rparr>)) (thn (log_write bp) (brelse bp)))"

text \<open>Bit \<open>bi\<close> of a block of the bitmap, as \<open>m\<close> selects it.\<close>

definition bit_mask :: "nat \<Rightarrow> uchar" where
  "bit_mask bi = push_bit (bi mod 8) 1"

text \<open>The inner loop of \<open>balloc\<close>: the first clear bit, of the bits below \<open>n\<close>.\<close>

definition clear_bit :: "uchar list \<Rightarrow> nat \<Rightarrow> nat option" where
  "clear_bit bs n = find (\<lambda>bi. bs ! (bi div 8) AND bit_mask bi = 0) [0..<n]"

primrec balloc_loop :: "uint32 \<Rightarrow> nat list \<Rightarrow> ('z fsstate_scheme, uint32) kfun" where
  "balloc_loop dev [] = panic ''balloc: out of blocks''"
| "balloc_loop dev (b # bs) = (if b \<ge> 2 ^ 31 then undef ''balloc: int overflow'' else bnd (gets sb) (\<lambda>sup. bnd (bread dev (BBLOCK (of_nat b) sup)) (\<lambda>bp. bnd (get_buf bp) (\<lambda>x.
     case clear_bit (b_data x) (min BPB (unat (sb_size sup) - b)) of
       Some bi \<Rightarrow> thn (set_buf bp (\<lambda>x. x\<lparr>b_data := (b_data x)[bi div 8 := b_data x ! (bi div 8) OR bit_mask bi]\<rparr>))
         (thn (log_write bp)
         (thn (brelse bp)
         (thn (bzero dev (of_nat (b + bi)))
              (ret (of_nat (b + bi))))))
     | None \<Rightarrow> thn (brelse bp) (balloc_loop dev bs)))))"

definition balloc :: "uint32 \<Rightarrow> ('z fsstate_scheme, uint32) kfun" where
  "balloc dev = bnd (gets sb) (\<lambda>sup.
     balloc_loop dev (map (\<lambda>i. i * BPB) [0..<(unat (sb_size sup) + BPB - 1) div BPB]))"

definition bfree :: "uint32 \<Rightarrow> uint32 \<Rightarrow> ('z fsstate_scheme, unit) kfun" where
  "bfree dev b = bnd (gets sb) (\<lambda>sup. bnd (bread dev (BBLOCK b sup)) (\<lambda>bp. bnd (get_buf bp) (\<lambda>x.
     let bi = unat b mod BPB in
     if b_data x ! (bi div 8) AND bit_mask bi = 0 then panic ''freeing free block''
     else thn (set_buf bp (\<lambda>x. x\<lparr>b_data := (b_data x)[bi div 8 := b_data x ! (bi div 8) AND NOT (bit_mask bi)]\<rparr>))
         (thn (log_write bp) (brelse bp)))))"

section \<open>The inode cache\<close>

definition iinit :: "('z fsstate_scheme, unit) kfun" where
  "iinit = thn (initlock IcacheLock) (for_each [0..<NINODE] (\<lambda>i. initsleeplock (SlInode i)))"

text \<open>The scan of \<open>iget\<close>: an entry that holds the inode, or else the first entry that is not used.\<close>

primrec iget_scan :: "uint32 \<Rightarrow> uint32 \<Rightarrow> nat option \<Rightarrow> nat list \<Rightarrow> ('z fsstate_scheme, nat option \<times> nat option) kfun" where
  "iget_scan dev inum empt [] = ret (None, empt)"
| "iget_scan dev inum empt (ip # ips) = bnd (get_inode ip) (\<lambda>x.
     if i_ref x > 0 \<and> i_dev x = dev \<and> i_inum x = inum then ret (Some ip, empt)
     else iget_scan dev inum (if empt = None \<and> i_ref x = 0 then Some ip else empt) ips)"

definition iget :: "uint32 \<Rightarrow> uint32 \<Rightarrow> ('z fsstate_scheme, nat) kfun" where
  "iget dev inum = thn (acquire IcacheLock) (bnd (iget_scan dev inum None [0..<NINODE]) (\<lambda>r. case r of
     (Some ip, empt) \<Rightarrow> thn (set_inode ip (\<lambda>x. x\<lparr>i_ref := i_ref x + 1\<rparr>)) (thn (release IcacheLock) (ret ip))
   | (None, None) \<Rightarrow> panic ''iget: no inodes''
   | (None, Some ip) \<Rightarrow> thn (set_inode ip (\<lambda>x. x\<lparr>i_dev := dev, i_inum := inum, i_ref := 1, i_valid := 0\<rparr>))
       (thn (release IcacheLock) (ret ip))))"

primrec ialloc_loop :: "uint32 \<Rightarrow> ushort \<Rightarrow> nat list \<Rightarrow> ('z fsstate_scheme, nat) kfun" where
  "ialloc_loop dev type [] = panic ''ialloc: no inodes''"
| "ialloc_loop dev type (inum # inums) = (if inum \<ge> 2 ^ 31 then undef ''ialloc: int overflow'' else bnd (gets sb) (\<lambda>sup. bnd (bread dev (IBLOCK (of_nat inum) sup)) (\<lambda>bp. bnd (get_buf bp) (\<lambda>x.
     if d_type (get_dinode (b_data x) (inum mod IPB)) = 0
     then thn (set_buf bp (\<lambda>x. x\<lparr>b_data := put_dinode (b_data x) (inum mod IPB)
              \<lparr>d_type = type, d_major = 0, d_minor = 0, d_nlink = 0, d_size = 0, d_addrs = replicate (NDIRECT + 1) 0\<rparr>\<rparr>))
         (thn (log_write bp)
         (thn (brelse bp)
              (iget dev (of_nat inum))))
     else thn (brelse bp) (ialloc_loop dev type inums)))))"

definition ialloc :: "uint32 \<Rightarrow> ushort \<Rightarrow> ('z fsstate_scheme, nat) kfun" where
  "ialloc dev type = bnd (gets sb) (\<lambda>sup. ialloc_loop dev type [1..<unat (sb_ninodes sup)])"

definition iupdate :: "nat \<Rightarrow> ('z fsstate_scheme, unit) kfun" where
  "iupdate ip = bnd (get_inode ip) (\<lambda>x. bnd (gets sb) (\<lambda>sup. bnd (bread (i_dev x) (IBLOCK (i_inum x) sup)) (\<lambda>bp.
     thn (set_buf bp (\<lambda>b. b\<lparr>b_data := put_dinode (b_data b) (unat (i_inum x) mod IPB)
          \<lparr>d_type = i_type x, d_major = i_major x, d_minor = i_minor x, d_nlink = i_nlink x, d_size = i_size x, d_addrs = i_addrs x\<rparr>\<rparr>))
    (thn (log_write bp)
         (brelse bp)))))"

definition idup :: "nat \<Rightarrow> ('z fsstate_scheme, nat) kfun" where
  "idup ip = thn (acquire IcacheLock)
     (thn (set_inode ip (\<lambda>x. x\<lparr>i_ref := i_ref x + 1\<rparr>)) (thn (release IcacheLock) (ret ip)))"

text \<open>\<open>ilock\<close> once it has the lock.\<close>

definition ilock_load :: "nat \<Rightarrow> ('z fsstate_scheme, unit) kfun" where
  "ilock_load ip = bnd (get_inode ip) (\<lambda>x. if i_valid x \<noteq> 0 then ret ()
     else bnd (gets sb) (\<lambda>sup. bnd (bread (i_dev x) (IBLOCK (i_inum x) sup)) (\<lambda>bp. bnd (get_buf bp) (\<lambda>b.
       let d = get_dinode (b_data b) (unat (i_inum x) mod IPB) in
       thn (set_inode ip (\<lambda>x. x\<lparr>i_type := d_type d, i_major := d_major d, i_minor := d_minor d, i_nlink := d_nlink d,
              i_size := d_size d, i_addrs := d_addrs d\<rparr>))
      (thn (brelse bp)
      (thn (set_inode ip (\<lambda>x. x\<lparr>i_valid := 1\<rparr>))
           (if d_type d = 0 then panic ''ilock: no type'' else ret ())))))))"

definition ilock :: "nat option \<Rightarrow> ('z fsstate_scheme, unit) kfun" where
  "ilock p = (case p of None \<Rightarrow> panic ''ilock''
   | Some ip \<Rightarrow> bnd (get_inode ip) (\<lambda>x. if i_ref x < 1 then panic ''ilock''
       else thn (acquiresleep (SlInode ip)) (ilock_load ip)))"

definition ilock_resume :: "nat \<Rightarrow> ('z fsstate_scheme, unit) kfun" where
  "ilock_resume ip = thn (acquiresleep_resume (SlInode ip)) (ilock_load ip)"

definition iunlock :: "nat option \<Rightarrow> ('z fsstate_scheme, unit) kfun" where
  "iunlock p = (case p of None \<Rightarrow> panic ''iunlock''
   | Some ip \<Rightarrow> bnd (holdingsleep (SlInode ip)) (\<lambda>h. if \<not> h then panic ''iunlock''
       else bnd (get_inode ip) (\<lambda>x. if i_ref x < 1 then panic ''iunlock''
       else releasesleep (SlInode ip))))"

section \<open>Content\<close>

definition bmap :: "nat \<Rightarrow> uint32 \<Rightarrow> ('z fsstate_scheme, uint32) kfun" where
  "bmap ip bn = bnd (get_inode ip) (\<lambda>x.
     if unat bn < NDIRECT
     then let addr = i_addrs x ! unat bn in
       if addr = 0
       then bnd (balloc (i_dev x)) (\<lambda>addr. thn (set_inode ip (\<lambda>x. x\<lparr>i_addrs := (i_addrs x)[unat bn := addr]\<rparr>)) (ret addr))
       else ret addr
     else let j = unat bn - NDIRECT in
       if j < NINDIRECT
       then bnd (if i_addrs x ! NDIRECT = 0
                 then bnd (balloc (i_dev x)) (\<lambda>addr. thn (set_inode ip (\<lambda>x. x\<lparr>i_addrs := (i_addrs x)[NDIRECT := addr]\<rparr>)) (ret addr))
                 else ret (i_addrs x ! NDIRECT)) (\<lambda>addr.
            bnd (bread (i_dev x) addr) (\<lambda>bp. bnd (get_buf bp) (\<lambda>b.
            bnd (if get32 (b_data b) (4 * j) = 0
                 then bnd (balloc (i_dev x)) (\<lambda>addr.
                   thn (set_buf bp (\<lambda>b. b\<lparr>b_data := put32 (b_data b) (4 * j) addr\<rparr>)) (thn (log_write bp) (ret addr)))
                 else ret (get32 (b_data b) (4 * j))) (\<lambda>addr.
            thn (brelse bp) (ret addr)))))
       else panic ''bmap: out of range'')"

definition itrunc_direct :: "nat \<Rightarrow> nat \<Rightarrow> ('z fsstate_scheme, unit) kfun" where
  "itrunc_direct ip i = bnd (get_inode ip) (\<lambda>x. if i_addrs x ! i \<noteq> 0
     then thn (bfree (i_dev x) (i_addrs x ! i)) (set_inode ip (\<lambda>x. x\<lparr>i_addrs := (i_addrs x)[i := 0]\<rparr>))
     else ret ())"

definition itrunc_indirect :: "nat \<Rightarrow> ('z fsstate_scheme, unit) kfun" where
  "itrunc_indirect ip = bnd (get_inode ip) (\<lambda>x. if i_addrs x ! NDIRECT \<noteq> 0
     then bnd (bread (i_dev x) (i_addrs x ! NDIRECT)) (\<lambda>bp.
       thn (for_each [0..<NINDIRECT] (\<lambda>j. bnd (get_buf bp) (\<lambda>b. let a = get32 (b_data b) (4 * j) in
              if a \<noteq> 0 then bfree (i_dev x) a else ret ())))
      (thn (brelse bp)
      (thn (bfree (i_dev x) (i_addrs x ! NDIRECT))
           (set_inode ip (\<lambda>x. x\<lparr>i_addrs := (i_addrs x)[NDIRECT := 0]\<rparr>)))))
     else ret ())"

definition itrunc :: "nat \<Rightarrow> ('z fsstate_scheme, unit) kfun" where
  "itrunc ip = thn (for_each [0..<NDIRECT] (itrunc_direct ip))
     (thn (itrunc_indirect ip)
     (thn (set_inode ip (\<lambda>x. x\<lparr>i_size := 0\<rparr>)) (iupdate ip)))"

definition iput :: "nat \<Rightarrow> ('z fsstate_scheme, unit) kfun" where
  "iput ip = thn (acquire IcacheLock) (bnd (get_inode ip) (\<lambda>x.
     thn (if i_ref x = 1 \<and> i_valid x \<noteq> 0 \<and> i_nlink x = 0
          then thn (acquiresleep (SlInode ip))
              (thn (release IcacheLock)
              (thn (itrunc ip)
              (thn (set_inode ip (\<lambda>x. x\<lparr>i_type := 0\<rparr>))
              (thn (iupdate ip)
              (thn (set_inode ip (\<lambda>x. x\<lparr>i_valid := 0\<rparr>))
              (thn (releasesleep (SlInode ip))
                   (acquire IcacheLock)))))))
          else ret ())
    (thn (set_inode ip (\<lambda>x. x\<lparr>i_ref := i_ref x - 1\<rparr>))
         (release IcacheLock))))"

definition iunlockput :: "nat \<Rightarrow> ('z fsstate_scheme, unit) kfun" where
  "iunlockput ip = thn (iunlock (Some ip)) (iput ip)"

record kstat =
  st_dev :: int
  st_ino :: uint32
  st_type :: ushort
  st_nlink :: ushort
  st_size :: uint64

definition stati :: "nat \<Rightarrow> ('z fsstate_scheme, kstat) kfun" where
  "stati ip = bnd (get_inode ip) (\<lambda>x. ret
     \<lparr>st_dev = sint (i_dev x), st_ino = i_inum x, st_type = i_type x, st_nlink = i_nlink x, st_size = ucast (i_size x)\<rparr>)"

text \<open>The bytes of a buffer, seen at its address.\<close>

definition lay_out :: "pmem \<Rightarrow> addr \<Rightarrow> uchar list \<Rightarrow> pmem" where
  "lay_out m a bs = (\<lambda>x. if unat (x - a) < length bs then bs ! unat (x - a) else m x)"

definition bytes_at :: "pmem \<Rightarrow> addr \<Rightarrow> nat \<Rightarrow> uchar list" where
  "bytes_at m a n = map (\<lambda>i. m (a + of_nat i)) [0..<n]"

definition spill_buf :: "nat \<Rightarrow> ('z fsstate_scheme, addr) kfun" where
  "spill_buf bp = thn (modify (\<lambda>s. s\<lparr>mem := lay_out (mem s) (buf_at s bp) (b_data (bufs s ! bp))\<rparr>)) (gets (\<lambda>s. buf_at s bp))"

definition reload_buf :: "nat \<Rightarrow> ('z fsstate_scheme, unit) kfun" where
  "reload_buf bp = bnd (gets (\<lambda>s. bytes_at (mem s) (buf_at s bp) BSIZE)) (\<lambda>bs. set_buf bp (\<lambda>b. b\<lparr>b_data := bs\<rparr>))"

text \<open>The loops of \<open>readi\<close> and \<open>writei\<close>.  Each turn moves at least one byte, so that \<open>n\<close> turns are enough.\<close>

primrec readi_loop :: "nat \<Rightarrow> nat \<Rightarrow> bool \<Rightarrow> uint64 \<Rightarrow> uint32 \<Rightarrow> uint32 \<Rightarrow> uint32 \<Rightarrow> ('z fsstate_scheme, int) kfun" where
  "readi_loop 0 ip user_dst dst off n tot = ret (sint tot)"
| "readi_loop (Suc k) ip user_dst dst off n tot = (if tot < n
     then bnd (bmap ip (off div of_nat BSIZE)) (\<lambda>addr. bnd (get_inode ip) (\<lambda>x. bnd (bread (i_dev x) addr) (\<lambda>bp.
       let m = min (n - tot) (of_nat BSIZE - off mod of_nat BSIZE) in
       bnd (spill_buf bp) (\<lambda>a.
       bnd (either_copyout user_dst dst (a + ucast (off mod of_nat BSIZE)) (ucast m)) (\<lambda>r.
         if r = - 1 then thn (brelse bp) (ret (- 1))
         else thn (brelse bp) (readi_loop k ip user_dst (dst + ucast m) (off + m) n (tot + m)))))))
     else ret (sint tot))"

definition readi :: "nat \<Rightarrow> bool \<Rightarrow> uint64 \<Rightarrow> uint32 \<Rightarrow> uint32 \<Rightarrow> ('z fsstate_scheme, int) kfun" where
  "readi ip user_dst dst off n = bnd (get_inode ip) (\<lambda>x.
     if off > i_size x \<or> off + n < off then ret 0
     else let n = (if off + n > i_size x then i_size x - off else n) in
       readi_loop (unat n) ip user_dst dst off n 0)"

text \<open>The results are \<open>tot\<close> and \<open>off\<close> at the end.\<close>

primrec writei_loop :: "nat \<Rightarrow> nat \<Rightarrow> bool \<Rightarrow> uint64 \<Rightarrow> uint32 \<Rightarrow> uint32 \<Rightarrow> uint32 \<Rightarrow> ('z fsstate_scheme, uint32 \<times> uint32) kfun" where
  "writei_loop 0 ip user_src src off n tot = ret (tot, off)"
| "writei_loop (Suc k) ip user_src src off n tot = (if tot < n
     then bnd (bmap ip (off div of_nat BSIZE)) (\<lambda>addr. bnd (get_inode ip) (\<lambda>x. bnd (bread (i_dev x) addr) (\<lambda>bp.
       let m = min (n - tot) (of_nat BSIZE - off mod of_nat BSIZE) in
       bnd (spill_buf bp) (\<lambda>a.
       bnd (either_copyin (a + ucast (off mod of_nat BSIZE)) user_src src (ucast m)) (\<lambda>r.
         thn (reload_buf bp)
        (if r = - 1 then thn (brelse bp) (ret (tot, off))
         else thn (log_write bp)
             (thn (brelse bp) (writei_loop k ip user_src (src + ucast m) (off + m) n (tot + m)))))))))
     else ret (tot, off))"

definition writei :: "nat \<Rightarrow> bool \<Rightarrow> uint64 \<Rightarrow> uint32 \<Rightarrow> uint32 \<Rightarrow> ('z fsstate_scheme, int) kfun" where
  "writei ip user_src src off n = bnd (get_inode ip) (\<lambda>x.
     if off > i_size x \<or> off + n < off then ret (- 1)
     else if unat (off + n) > MAXFILE * BSIZE then ret (- 1)
     else bnd (writei_loop (unat n) ip user_src src off n 0) (\<lambda>(tot, off).
       thn (set_inode ip (\<lambda>x. if off > i_size x then x\<lparr>i_size := off\<rparr> else x))
      (thn (iupdate ip)
           (ret (sint tot)))))"

section \<open>Directories\<close>

definition namecmp :: "cview \<Rightarrow> cview \<Rightarrow> int option" where
  "namecmp s t = strncmp s t DIRSIZ"

definition DIRENT :: uint32 where "DIRENT = 16"

text \<open>The entry \<open>de\<close> read into memory at \<open>a\<close>.\<close>

definition de_inum :: "pmem \<Rightarrow> addr \<Rightarrow> ushort" where
  "de_inum m a = get16 (bytes_at m a 2) 0"

definition de_name :: "pmem \<Rightarrow> addr \<Rightarrow> uchar list" where
  "de_name m a = bytes_at m (a + 2) DIRSIZ"

text \<open>The loop of \<open>dirlookup\<close>; the result is the inode and the offset of the entry.\<close>

primrec dirlookup_loop :: "nat \<Rightarrow> nat \<Rightarrow> cview \<Rightarrow> uint32 \<Rightarrow> ('z fsstate_scheme, (nat \<times> uint32) option) kfun" where
  "dirlookup_loop 0 dp name off = undef ''dirlookup: offset overflow''"
| "dirlookup_loop (Suc k) dp name off = bnd (get_inode dp) (\<lambda>x.
     if off < i_size x
     then bnd (gets stack_at) (\<lambda>de. bnd (readi dp False de off DIRENT) (\<lambda>r.
       if r \<noteq> uint DIRENT then panic ''dirlookup read''
       else bnd (gets mem) (\<lambda>m.
         if de_inum m de = 0 then dirlookup_loop k dp name (off + DIRENT)
         else bnd (lift_option ''namecmp'' (namecmp name (arr (de_name m de)))) (\<lambda>c.
           if c = 0 then bnd (iget (i_dev x) (ucast (de_inum m de))) (\<lambda>ip. ret (Some (ip, off)))
           else dirlookup_loop k dp name (off + DIRENT)))))
     else ret None)"

definition dirlookup :: "nat \<Rightarrow> cview \<Rightarrow> ('z fsstate_scheme, (nat \<times> uint32) option) kfun" where
  "dirlookup dp name = bnd (get_inode dp) (\<lambda>x.
     if i_type x \<noteq> T_DIR then panic ''dirlookup not DIR''
     else dirlookup_loop (unat (i_size x) div 16 + 2) dp name 0)"

text \<open>The search of \<open>dirlink\<close> for an empty entry.\<close>

primrec dirlink_find :: "nat \<Rightarrow> nat \<Rightarrow> uint32 \<Rightarrow> ('z fsstate_scheme, uint32) kfun" where
  "dirlink_find 0 dp off = undef ''dirlink: offset overflow''"
| "dirlink_find (Suc k) dp off = bnd (get_inode dp) (\<lambda>x.
     if off < i_size x
     then bnd (gets stack_at) (\<lambda>de. bnd (readi dp False de off DIRENT) (\<lambda>r.
       if r \<noteq> uint DIRENT then panic ''dirlink read''
       else bnd (gets mem) (\<lambda>m. if de_inum m de = 0 then ret off else dirlink_find k dp (off + DIRENT))))
     else ret off)"

definition dirlink :: "nat \<Rightarrow> cview \<Rightarrow> uint32 \<Rightarrow> ('z fsstate_scheme, int) kfun" where
  "dirlink dp name inum = bnd (dirlookup dp name) (\<lambda>r. case r of
     Some (ip, _) \<Rightarrow> thn (iput ip) (ret (- 1))
   | None \<Rightarrow> bnd (get_inode dp) (\<lambda>x. bnd (dirlink_find (unat (i_size x) div 16 + 2) dp 0) (\<lambda>off.
       bnd (gets stack_at) (\<lambda>de. bnd (gets mem) (\<lambda>m.
       bnd (lift_option ''strncpy'' (strncpy (de_name m de) name (int DIRSIZ))) (\<lambda>nm.
       thn (modify (\<lambda>s. s\<lparr>mem := lay_out (mem s) de (put16 [0, 0] 0 (ucast inum) @ nm)\<rparr>))
      (bnd (writei dp False de off DIRENT) (\<lambda>r.
       if r \<noteq> uint DIRENT then panic ''dirlink'' else ret 0))))))))"

section \<open>Paths\<close>

text \<open>The two loops of \<open>skipelem\<close>: past the slashes, and to the end of an element.\<close>

partial_function (option) skip_slashes :: "cview \<Rightarrow> nat \<Rightarrow> nat option" where
  "skip_slashes p i = Option.bind (p i) (\<lambda>c. if c = 47 then skip_slashes p (Suc i) else Some i)"

partial_function (option) elem_end :: "cview \<Rightarrow> nat \<Rightarrow> nat option" where
  "elem_end p i = Option.bind (p i) (\<lambda>c. if c \<noteq> 47 \<and> c \<noteq> 0 then elem_end p (Suc i) else Some i)"

text \<open>The \<open>len\<close> bytes at \<open>s\<close>, for \<open>memmove\<close> into \<open>name\<close>.\<close>

definition view_bytes :: "cview \<Rightarrow> nat \<Rightarrow> nat \<Rightarrow> uchar list" where
  "view_bytes p s len = map (\<lambda>i. the (p (s + i))) [0..<len]"

definition skipelem :: "cview \<Rightarrow> uchar list \<Rightarrow> (cview \<times> uchar list) option option" where
  "skipelem path name = Option.bind (skip_slashes path 0) (\<lambda>s. Option.bind (path s) (\<lambda>c.
     if c = 0 then Some None
     else Option.bind (elem_end path s) (\<lambda>e. Option.bind (skip_slashes path e) (\<lambda>nx.
       let len = e - s in
       Some (Some (adv path nx,
         if len \<ge> DIRSIZ then view_bytes path s DIRSIZ @ drop DIRSIZ name
         else (view_bytes path s len @ drop len name)[len := 0]))))))"

text \<open>Every turn of the loop of \<open>namex\<close> takes an element off the path, so that the length of the path bounds the
  turns.  The results are the inode and the last element.\<close>

primrec namex_loop :: "nat \<Rightarrow> nat \<Rightarrow> cview \<Rightarrow> bool \<Rightarrow> uchar list \<Rightarrow> ('z fsstate_scheme, nat option \<times> uchar list) kfun" where
  "namex_loop 0 ip path np name = undef ''namex''"
| "namex_loop (Suc k) ip path np name = bnd (lift_option ''skipelem'' (skipelem path name)) (\<lambda>r. case r of
     None \<Rightarrow> if np then thn (iput ip) (ret (None, name)) else ret (Some ip, name)
   | Some (path, name) \<Rightarrow> thn (ilock (Some ip)) (bnd (get_inode ip) (\<lambda>x.
       if i_type x \<noteq> T_DIR then thn (iunlockput ip) (ret (None, name))
       else if np \<and> path 0 = Some 0 then thn (iunlock (Some ip)) (ret (Some ip, name))
       else bnd (dirlookup ip (arr name)) (\<lambda>r. case r of
           None \<Rightarrow> thn (iunlockput ip) (ret (None, name))
         | Some (next, _) \<Rightarrow> thn (iunlockput ip) (namex_loop k next path np name)))))"

definition namex :: "cview \<Rightarrow> bool \<Rightarrow> uchar list \<Rightarrow> ('z fsstate_scheme, nat option \<times> uchar list) kfun" where
  "namex path np name = bnd (lift_option ''path'' (strlen path)) (\<lambda>n.
     bnd (if path 0 = Some 47 then iget ROOTDEV ROOTINO
          else bnd myproc (\<lambda>i. bnd (get_proc i) (\<lambda>p. case p_cwd p of None \<Rightarrow> undef ''cwd'' | Some ip \<Rightarrow> idup ip))) (\<lambda>ip.
     namex_loop (Suc n) ip path np name))"

text \<open>\<open>name\<close> starts out with whatever the stack holds.\<close>

definition namei :: "cview \<Rightarrow> uchar list \<Rightarrow> ('z fsstate_scheme, nat option) kfun" where
  "namei path name = bnd (namex path False name) (\<lambda>(ip, _). ret ip)"

definition nameiparent :: "cview \<Rightarrow> uchar list \<Rightarrow> ('z fsstate_scheme, nat option \<times> uchar list) kfun" where
  "nameiparent path name = namex path True name"

end
