(* ===== verification/FsPath.thy ===== *)
theory FsPath
  imports Fs
begin

text \<open>
  The path walk of \<open>kernel/fs.c\<close>: on a C string, \<open>skipelem\<close> takes the first element off the path, and \<open>namex\<close> walks
  over the elements of the path one by one.
\<close>

section \<open>The elements of a path\<close>

lemma length_dropWhile_head: "ds \<noteq> [] \<Longrightarrow> P (hd ds) \<Longrightarrow> length (dropWhile P ds) < length ds"
  by (cases ds) (simp_all add: length_dropWhile_le le_imp_less_Suc)

function path_elems :: "uchar list \<Rightarrow> uchar list list" where
  "path_elems cs = (let ds = dropWhile (\<lambda>c. c = 47) cs in
     if ds = [] then [] else takeWhile (\<lambda>c. c \<noteq> 47) ds # path_elems (dropWhile (\<lambda>c. c \<noteq> 47) ds))"
  by auto

lemma rest_shorter:
  "dropWhile (\<lambda>c. c = 47) cs \<noteq> [] \<Longrightarrow> length (dropWhile (\<lambda>c. c \<noteq> 47) (dropWhile (\<lambda>c. c = 47) cs)) < length (cs :: uchar list)"
  using hd_dropWhile [of "\<lambda>c. c = 47" cs]
  by (intro less_le_trans [OF length_dropWhile_head length_dropWhile_le]) simp_all

termination path_elems
  by (relation "measure length") (simp_all add: rest_shorter del: dropWhile_eq_Nil_conv)

declare path_elems.simps [simp del]

lemma path_elems_skip: "path_elems (dropWhile (\<lambda>c. c = 47) cs) = path_elems cs"
  by (subst (1 2) path_elems.simps) (simp add: dropWhile_idem)

lemma path_elems_Nil: "path_elems cs = [] \<longleftrightarrow> dropWhile (\<lambda>c. c = 47) cs = []"
  by (subst path_elems.simps) (simp add: Let_def)

lemma path_elems_Cons:
  "dropWhile (\<lambda>c. c = 47) cs \<noteq> [] \<Longrightarrow> path_elems cs =
    takeWhile (\<lambda>c. c \<noteq> 47) (dropWhile (\<lambda>c. c = 47) cs) # path_elems (dropWhile (\<lambda>c. c \<noteq> 47) (dropWhile (\<lambda>c. c = 47) cs))"
  by (subst path_elems.simps) (simp only: Let_def if_False)

text \<open>What the element \<open>e\<close> makes of the array \<open>name\<close>.\<close>

definition elem_name :: "uchar list \<Rightarrow> uchar list \<Rightarrow> uchar list" where
  "elem_name name e = (if length e \<ge> DIRSIZ then take DIRSIZ e @ drop DIRSIZ name else (e @ drop (length e) name)[length e := 0])"

section \<open>The loops of skipelem\<close>

lemma c_string_drop: "c_string p cs \<Longrightarrow> i \<le> length cs \<Longrightarrow> c_string (adv p i) (drop i cs)"
  by (auto simp: c_string_def adv_def dest: in_set_dropD)

lemma c_string_byte:
  "c_string p cs \<Longrightarrow> i < length cs \<Longrightarrow> p i = Some (cs ! i) \<and> cs ! i \<noteq> 0"
  "c_string p cs \<Longrightarrow> p (length cs) = Some 0"
  by (auto simp: c_string_def) (metis nth_mem)

lemma skip_slashes_str:
  assumes "c_string p cs" and "i \<le> length cs"
  shows "skip_slashes p i = Some (i + length (takeWhile (\<lambda>c. c = 47) (drop i cs)))"
  using assms(2)
proof (induction "length cs - i" arbitrary: i)
  case 0
  then show ?case using c_string_byte(2) [OF assms(1)] by (simp add: skip_slashes.simps)
next
  case (Suc n)
  then have i: "i < length cs" by simp
  then have "drop i cs = cs ! i # drop (Suc i) cs" by (simp add: Cons_nth_drop_Suc)
  moreover have "skip_slashes p (Suc i) = Some (Suc i + length (takeWhile (\<lambda>c. c = 47) (drop (Suc i) cs)))"
    using Suc i by simp
  ultimately show ?case using c_string_byte(1) [OF assms(1) i] by (subst skip_slashes.simps) simp
qed

lemma elem_end_str:
  assumes "c_string p cs" and "i \<le> length cs"
  shows "elem_end p i = Some (i + length (takeWhile (\<lambda>c. c \<noteq> 47) (drop i cs)))"
  using assms(2)
proof (induction "length cs - i" arbitrary: i)
  case 0
  then show ?case using c_string_byte(2) [OF assms(1)] by (simp add: elem_end.simps)
next
  case (Suc n)
  then have i: "i < length cs" by simp
  then have "drop i cs = cs ! i # drop (Suc i) cs" by (simp add: Cons_nth_drop_Suc)
  moreover have "elem_end p (Suc i) = Some (Suc i + length (takeWhile (\<lambda>c. c \<noteq> 47) (drop (Suc i) cs)))"
    using Suc i by simp
  ultimately show ?case using c_string_byte(1) [OF assms(1) i] by (subst elem_end.simps) simp
qed

lemma view_bytes_str:
  assumes "c_string p cs" and "i + n \<le> length cs"
  shows "view_bytes p i n = take n (drop i cs)"
  using assms c_string_byte(1) [OF assms(1)] by (intro nth_equalityI) (auto simp: view_bytes_def)

lemma drop_takeWhile: "drop (length (takeWhile P cs)) cs = dropWhile P cs"
  by (simp add: dropWhile_eq_drop)

lemma skipelem_str:
  assumes "c_string p cs"
  shows "path_elems cs = [] \<Longrightarrow> skipelem p name = Some None"
    and "path_elems cs = e # es \<Longrightarrow> \<exists>p' cs'. skipelem p name = Some (Some (p', elem_name name e)) \<and>
      c_string p' cs' \<and> path_elems cs' = es \<and> (p' 0 = Some 0 \<longleftrightarrow> es = [])"
proof -
  let ?s = "length (takeWhile (\<lambda>c. c = 47) cs)" and ?ds = "dropWhile (\<lambda>c. c = 47) cs"
  have s: "skip_slashes p 0 = Some ?s" "?s \<le> length cs" using skip_slashes_str [OF assms, of 0] by (simp_all add: length_takeWhile_le)
  have ds: "drop ?s cs = ?ds" by (rule drop_takeWhile)
  have l: "length ?ds = length cs - ?s" by (simp flip: ds)
  {
    assume "path_elems cs = []"
    then have "?ds = []" by (simp only: path_elems_Nil)
    then have "?s = length cs" using l s(2) by (simp only: list.size)
    then show "skipelem p name = Some None" using s c_string_byte(2) [OF assms] by (simp add: skipelem_def)
  next
    assume e: "path_elems cs = e # es"
    then have "?ds \<noteq> []" by (metis list.distinct(1) path_elems_Nil)
    then have lt: "?s < length cs" using l by (metis length_greater_0_conv zero_less_diff)
    have c: "p ?s = Some (cs ! ?s)" "cs ! ?s \<noteq> 0" using c_string_byte(1) [OF assms lt] by simp_all
    have e': "e = takeWhile (\<lambda>c. c \<noteq> 47) ?ds" "es = path_elems (dropWhile (\<lambda>c. c \<noteq> 47) ?ds)"
      using e path_elems_Cons [OF \<open>?ds \<noteq> []\<close>] by (simp_all only: list.inject)
    have el: "elem_end p ?s = Some (?s + length e)" using elem_end_str [OF assms s(2)] by (simp only: ds e'(1))
    have el2: "?s + length e \<le> length cs" using l length_takeWhile_le [of "\<lambda>c. c \<noteq> 47" ?ds] s(2) by (simp only: e'(1))
    let ?rs = "drop (?s + length e) cs"
    have rs: "?rs = dropWhile (\<lambda>c. c \<noteq> 47) ?ds"
      using drop_takeWhile [of "\<lambda>c. c \<noteq> 47" ?ds] by (simp only: e'(1) ds [symmetric] drop_drop add.commute)
    let ?n = "?s + length e + length (takeWhile (\<lambda>c. c = 47) ?rs)"
    have nx: "skip_slashes p (?s + length e) = Some ?n" using skip_slashes_str [OF assms el2] .
    have n: "?n \<le> length cs" using length_takeWhile_le [of "\<lambda>c. c = 47" ?rs] el2 by simp
    have tl: "drop ?n cs = dropWhile (\<lambda>c. c = 47) ?rs"
      using drop_takeWhile [of "\<lambda>c. c = 47" ?rs] by (simp only: drop_drop add.commute)
    have p': "c_string (adv p ?n) (drop ?n cs)" using c_string_drop [OF assms n] .
    have v: "view_bytes p ?s m = take m e" if "m \<le> length e" for m
    proof -
      have "view_bytes p ?s m = take m ?ds" using view_bytes_str [OF assms, of ?s m] that el2 by (simp only: ds)
      also have "\<dots> = take m (take (length e) ?ds)" using that by simp
      also have "take (length e) ?ds = e" by (simp only: e'(1) takeWhile_eq_take [symmetric])
      finally show ?thesis .
    qed
    have "skipelem p name = Some (Some (adv p ?n, elem_name name e))"
      using s(1) c el nx v [of DIRSIZ] v [of "length e"] by (simp add: skipelem_def elem_name_def Let_def)
    moreover have es: "path_elems ?rs = es" unfolding rs by (rule e'(2) [symmetric])
    then have "path_elems (drop ?n cs) = es" unfolding tl by (simp only: path_elems_skip)
    moreover have "adv p ?n 0 = Some 0 \<longleftrightarrow> drop ?n cs = []"
      using p' c_string_byte(1) [OF p', of 0] c_string_byte(2) [OF p'] by (cases "drop ?n cs") auto
    moreover have "drop ?n cs = [] \<longleftrightarrow> es = []"
      using path_elems_Nil [of ?rs] es unfolding tl by blast
    ultimately show "\<exists>p' cs'. skipelem p name = Some (Some (p', elem_name name e)) \<and>
      c_string p' cs' \<and> path_elems cs' = es \<and> (p' 0 = Some 0 \<longleftrightarrow> es = [])"
      using p' by blast
  }
qed

section \<open>The walk\<close>

text \<open>\<open>namex\<close> over a list of elements: what the loop does with each, and what it does at the end.\<close>

primrec walk_path :: "uchar list list \<Rightarrow> nat \<Rightarrow> bool \<Rightarrow> uchar list \<Rightarrow> ('z fsstate_scheme, nat option \<times> uchar list) kfun" where
  "walk_path [] ip np name = (if np then thn (iput ip) (ret (None, name)) else ret (Some ip, name))"
| "walk_path (e # es) ip np name = (let name = elem_name name e in
     thn (ilock (Some ip)) (bnd (get_inode ip) (\<lambda>x.
       if i_type x \<noteq> T_DIR then thn (iunlockput ip) (ret (None, name))
       else if np \<and> es = [] then thn (iunlock (Some ip)) (ret (Some ip, name))
       else bnd (dirlookup ip (arr name)) (\<lambda>r. case r of
           None \<Rightarrow> thn (iunlockput ip) (ret (None, name))
         | Some (next, _) \<Rightarrow> thn (iunlockput ip) (walk_path es next np name)))))"

definition walk_start :: "uchar list \<Rightarrow> ('z fsstate_scheme, nat) kfun" where
  "walk_start cs = (if cs \<noteq> [] \<and> hd cs = 47 then iget ROOTDEV ROOTINO
     else bnd myproc (\<lambda>i. bnd (get_proc i) (\<lambda>p. case p_cwd p of None \<Rightarrow> undef ''cwd'' | Some ip \<Rightarrow> idup ip)))"

lemma run_lift_Some [simp]: "bnd (lift_option e (Some v)) k = k v"
  by (simp add: lift_option_def bnd_def ret_def fun_eq_iff)

lemma namex_loop_walk:
  assumes "c_string p cs" and "k > length (path_elems cs)"
  shows "namex_loop k ip p np name = (walk_path (path_elems cs) ip np name :: ('z fsstate_scheme, nat option \<times> uchar list) kfun)"
  using assms
proof (induction "path_elems cs" arbitrary: cs p k ip name)
  case Nil
  then obtain j where "k = Suc j" by (cases k) auto
  then show ?case using skipelem_str(1) [OF Nil(2)] Nil(1) [symmetric] by simp
next
  case (Cons e es)
  then obtain j where k: "k = Suc j" "length es < j" by (cases k) (auto simp flip: Cons(2))
  obtain p' cs' where e: "skipelem p name = Some (Some (p', elem_name name e))" "c_string p' cs'" "path_elems cs' = es"
      "p' 0 = Some 0 \<longleftrightarrow> es = []"
    using skipelem_str(2) [OF Cons(3) Cons(2) [symmetric]] by blast
  have w: "namex_loop j ip' p' np name' = (walk_path es ip' np name' :: ('z fsstate_scheme, nat option \<times> uchar list) kfun)" for ip' name'
    using Cons(1) [OF e(3) [symmetric] e(2)] k(2) e(3) by simp
  have *: "(\<lambda>(next, x). thn (iunlockput ip) (namex_loop j next p' np n)) =
      (\<lambda>(next, x :: uint32). (thn (iunlockput ip) (walk_path es next np n) :: ('z fsstate_scheme, nat option \<times> uchar list) kfun))" for n
    by (simp only: w)
  show ?case by (simp add: k(1) e Cons(2) [symmetric] Let_def * cong: if_cong)
qed

lemma path_elems_length: "length (path_elems cs) \<le> length cs"
  by (induction cs rule: path_elems.induct)
    (subst path_elems.simps, use rest_shorter in \<open>fastforce simp: Let_def\<close>)

text \<open>C39: On every path, given as a C string, the loop of \<open>namex\<close> ends: it makes one turn for every element
  between slashes, in order, with the element cut to \<open>DIRSIZ\<close> bytes, starts at the root or the current directory
  by the first byte, and is the structurally recursive walk over the elements whatever state it runs in.\<close>

theorem namex_walk:
  assumes "c_string path cs"
  shows "namex path np name = bnd (walk_start cs) (\<lambda>ip. walk_path (path_elems cs) ip np name)"
proof -
  have "path 0 = Some 47 \<longleftrightarrow> cs \<noteq> [] \<and> hd cs = 47"
    using c_string_byte [OF assms] by (cases cs) fastforce+
  then show ?thesis
    using path_elems_length [of cs]
    by (simp add: namex_def strlen_eq [OF assms] walk_start_def namex_loop_walk [OF assms] del: namex_loop.simps)
qed

theorem namex_walk_witness:
  "c_string (arr [97, 47, 47, 98, 0]) [97, 47, 47, 98] \<and> path_elems [97, 47, 47, 98] = [[97], [98]] \<and>
   namex (arr [97, 47, 47, 98, 0]) True (replicate 14 0) =
     bnd (walk_start [97, 47, 47, 98]) (\<lambda>ip. walk_path [[97], [98]] ip True (replicate 14 0))"
proof -
  have c: "c_string (arr [97, 47, 47, 98, 0]) [97, 47, 47, 98]" using c_string_arr [of "[97, 47, 47, 98]" "[]"] by simp
  have e: "path_elems [97, 47, 47, 98] = [[97], [98]]" by (simp add: path_elems_Cons path_elems_Nil)
  show ?thesis using c e namex_walk [OF c, of True "replicate 14 0"] by (simp only: e) 
qed

end
