(* ===== verification/BioRun.thy ===== *)
theory BioRun
  imports Bio
begin

text \<open>
  What the buffer cache does.  \<open>lru s xs\<close>: the pointers link the buffers \<open>xs\<close>, most recently used first, in a ring
  through the head.  \<open>bc_ok\<close>: a block has at most one buffer, and a buffer that nobody uses is not locked and, when
  it is valid, as the disk has it.  \<open>content\<close> is the block as the file system sees it, in the cache or else on disk.
\<close>

section \<open>The list\<close>

definition linked :: "(nat \<Rightarrow> nat) \<Rightarrow> (nat \<Rightarrow> nat) \<Rightarrow> nat \<Rightarrow> nat list \<Rightarrow> bool" where
  "linked nx pv h xs \<longleftrightarrow> map nx (h # xs) = xs @ [h] \<and> map pv (xs @ [h]) = h # xs"

lemma linked_unlink:
  assumes "linked nx pv h (ys @ b # zs)" and "distinct (h # ys @ b # zs)"
  shows "linked (nx(pv b := nx b)) (pv(nx b := pv b)) h (ys @ zs)"
proof -
  obtain c p where cp: "h # ys = c @ [p]" "length c = length ys" by (metis length_append_singleton length_Cons nat.inject rev_exhaust list.distinct(1))
  obtain n d where nd: "zs @ [h] = n # d" by (cases zs) auto
  have e: "h # ys @ ws = c @ p # ws" for ws using arg_cong [OF cp(1), of "\<lambda>l. l @ ws"] by simp
  have "map nx (c @ p # b # zs) = ys @ b # n # d" using assms(1) nd unfolding linked_def by (simp flip: e)
  then have nx: "map nx c = ys" "nx p = b" "map nx (b # zs) = n # d" using cp(2) by auto
  have "map pv (ys @ b # (zs @ [h])) = c @ p # b # zs" using assms(1) unfolding linked_def e by simp
  then have "map pv (ys @ b # n # d) = c @ p # b # zs" by (simp only: nd)
  then have pv: "map pv ys = c" "pv b = p" "map pv (n # d) = b # zs" using cp(2) by auto
  have d: "distinct (c @ p # b # zs)" using assms(2) by (simp flip: e)
  have "distinct (ys @ b # zs @ [h])" using assms(2) by auto
  then have d2: "distinct (ys @ b # n # d)" by (simp only: nd)
  have "map (nx(p := n)) (c @ p # zs) = ys @ n # d" "map (pv(n := p)) (ys @ n # d) = c @ p # zs"
    using nx pv d d2 by (auto simp: map_fun_upd)
  moreover have "nx b = n" using nx(3) by simp
  ultimately show ?thesis using pv(2) unfolding linked_def e by (simp add: nd)
qed

lemma linked_push:
  assumes "linked nx pv h xs" and "distinct (b # h # xs)"
  shows "linked (nx(b := nx h, h := b)) (pv(b := h, nx h := b)) h (b # xs)"
proof -
  obtain n d where nd: "xs @ [h] = n # d" by (cases xs) auto
  have "distinct (b # n # d)" unfolding nd [symmetric] using assms(2) by auto
  moreover have "nx h = n" "map nx xs = d" "map pv d = xs" "pv n = h" using assms(1) nd by (auto simp: linked_def)
  moreover have "b \<notin> set xs" "h \<notin> set xs" "b \<noteq> h" using assms(2) by auto
  ultimately have "map (nx(b := n, h := b)) (h # b # xs) = b # n # d" "map (pv(b := h, n := b)) (b # n # d) = h # b # xs"
    by (auto simp: map_fun_upd)
  then show ?thesis using nd \<open>nx h = n\<close> by (simp only: linked_def append_Cons)
qed

definition lru :: "'z bstate_scheme \<Rightarrow> nat list \<Rightarrow> bool" where
  "lru s xs \<longleftrightarrow> distinct xs \<and> set xs = {..<NBUF} \<and> linked (bnext s) (bprev s) bhead xs"

lemma lru_head: "lru s xs \<Longrightarrow> distinct (bhead # xs)"
  by (simp add: lru_def bhead_def)

lemma b_to_front_run:
  assumes "lru s xs" and "b \<in> set xs"
  shows "\<exists>nx pv. b_to_front b s = Ret () (s\<lparr>bnext := nx, bprev := pv\<rparr>) \<and> lru (s\<lparr>bnext := nx, bprev := pv\<rparr>) (b # remove1 b xs)"
proof -
  obtain ys zs where xs: "xs = ys @ b # zs" "b \<notin> set ys" using split_list_first [OF assms(2)] by blast
  then have r: "remove1 b xs = ys @ zs" by (simp add: remove1_append)
  have d: "distinct (bhead # ys @ b # zs)" using lru_head [OF assms(1)] xs by simp
  have l: "linked (bnext s) (bprev s) bhead (ys @ b # zs)" using assms(1) xs by (simp add: lru_def)
  let ?nx = "(bnext s)(bprev s b := bnext s b)" and ?pv = "(bprev s)(bnext s b := bprev s b)"
  have "linked ?nx ?pv bhead (ys @ zs)" by (rule linked_unlink [OF l d])
  then have "linked (?nx(b := ?nx bhead, bhead := b)) (?pv(b := bhead, ?nx bhead := b)) bhead (b # ys @ zs)"
    by (rule linked_push) (use d in auto)
  moreover have "b_to_front b s = Ret () (s\<lparr>bnext := ?nx(b := ?nx bhead, bhead := b), bprev := ?pv(b := bhead, ?nx bhead := b)\<rparr>)"
    by (simp add: b_to_front_def set_next_def set_prev_def monad_simps)
  moreover have "distinct (b # ys @ zs)" "set (b # ys @ zs) = {..<NBUF}" using assms(1) xs(1) by (auto simp: lru_def)
  ultimately show ?thesis unfolding r
    by (intro exI [of _ "?nx(b := ?nx bhead, bhead := b)"] exI [of _ "?pv(b := bhead, ?nx bhead := b)"]) (simp add: lru_def)
qed

lemma binit_loop_run:
  assumes "held s = []" and "bnext s bhead = bhead" and "bprev s bhead = bhead"
  shows "k \<le> NBUF \<Longrightarrow> \<exists>nx pv sl. for_each [0..<k] binit_one s = Ret () (s\<lparr>sleeplocks := sl, bnext := nx, bprev := pv\<rparr>) \<and>
    linked nx pv bhead (rev [0..<k]) \<and> (\<forall>i<k. sl (SlBuf i) = \<lparr>sl_locked = 0, sl_pid = 0\<rparr>)"
proof (induction k)
  case 0
  have "linked (bnext s) (bprev s) bhead []" using assms by (simp add: linked_def)
  then show ?case
    by - (rule exI [of _ "bnext s"], rule exI [of _ "bprev s"], rule exI [of _ "sleeplocks s"], simp add: monad_simps)
next
  case (Suc k)
  then obtain nx pv sl where r: "for_each [0..<k] binit_one s = Ret () (s\<lparr>sleeplocks := sl, bnext := nx, bprev := pv\<rparr>)"
      "linked nx pv bhead (rev [0..<k])" "\<forall>i<k. sl (SlBuf i) = \<lparr>sl_locked = 0, sl_pid = 0\<rparr>"
    by auto
  let ?nx = "nx(k := nx bhead, bhead := k)" and ?pv = "pv(k := bhead, nx bhead := k)" and ?sl = "sl(SlBuf k := \<lparr>sl_locked = 0, sl_pid = 0\<rparr>)"
  have k: "k \<noteq> bhead" using Suc.prems by (simp add: bhead_def)
  have "linked ?nx ?pv bhead (k # rev [0..<k])"
    by (rule linked_push [OF r(2)]) (use Suc.prems(1) in \<open>auto simp: bhead_def\<close>)
  moreover have "for_each [0..<Suc k] binit_one s = Ret () (s\<lparr>sleeplocks := ?sl, bnext := ?nx, bprev := ?pv\<rparr>)"
    using r(1) k assms(1)
    by (simp add: for_each_append binit_one_def monad_simps set_next_def set_prev_def initsleeplock_def set_sl_def)
  moreover have "\<forall>i<Suc k. ?sl (SlBuf i) = \<lparr>sl_locked = 0, sl_pid = 0\<rparr>" using r(3) by (simp add: less_Suc_eq)
  moreover have "rev [0..<Suc k] = k # rev [0..<k]" by simp
  ultimately show ?case by metis
qed

lemma binit_run:
  assumes "held s = []"
  shows "\<exists>nx pv sl. binit s = Ret () (s\<lparr>sleeplocks := sl, bnext := nx, bprev := pv\<rparr>) \<and>
    lru (s\<lparr>sleeplocks := sl, bnext := nx, bprev := pv\<rparr>) (rev [0..<NBUF]) \<and> (\<forall>i<NBUF. sl (SlBuf i) = \<lparr>sl_locked = 0, sl_pid = 0\<rparr>)"
proof -
  have s: "s\<lparr>held := []\<rparr> = s" using assms by (cases s) simp
  let ?s = "s\<lparr>held := [], bprev := (bprev s)(bhead := bhead), bnext := (bnext s)(bhead := bhead)\<rparr>"
  obtain nx pv sl where l: "for_each [0..<NBUF] binit_one ?s = Ret () (?s\<lparr>sleeplocks := sl, bnext := nx, bprev := pv\<rparr>)"
      "linked nx pv bhead (rev [0..<NBUF])" "\<forall>i<NBUF. sl (SlBuf i) = \<lparr>sl_locked = 0, sl_pid = 0\<rparr>"
    using binit_loop_run [of ?s NBUF] assms by auto
  have "binit s = Ret () (s\<lparr>held := [], sleeplocks := sl, bnext := nx, bprev := pv\<rparr>)"
    using l(1) assms by (simp add: binit_def monad_simps set_prev_def set_next_def)
  then have "binit s = Ret () (s\<lparr>sleeplocks := sl, bnext := nx, bprev := pv\<rparr>)" unfolding s .
  moreover have "lru (s\<lparr>sleeplocks := sl, bnext := nx, bprev := pv\<rparr>) (rev [0..<NBUF])" using l(2) by (auto simp: lru_def)
  ultimately show ?thesis using l(3) by blast
qed

text \<open>The two searches.\<close>

lemma bget_find_run:
  assumes "map (bnext s) zs = tl (zs @ [bhead])" and "bhead \<notin> set zs" and "k > length zs"
  shows "bget_find k dev bn (hd (zs @ [bhead])) s = Ret (find (\<lambda>b. b_dev (bufs s ! b) = dev \<and> b_blockno (bufs s ! b) = bn) zs) s"
  using assms
proof (induction zs arbitrary: k)
  case Nil
  then show ?case by (cases k) (simp_all add: monad_simps)
next
  case (Cons z zs)
  then obtain j where "k = Suc j" by (cases k) auto
  moreover have "bnext s z = hd (zs @ [bhead])" using Cons.prems(1) by (cases zs) auto
  moreover have "map (bnext s) zs = tl (zs @ [bhead])" using Cons.prems(1) by (cases zs) auto
  ultimately show ?case using Cons by (simp add: monad_simps get_buf_def)
qed

lemma bget_unused_run:
  assumes "map (bprev s) zs = tl (zs @ [bhead])" and "bhead \<notin> set zs" and "k > length zs"
  shows "bget_unused k (hd (zs @ [bhead])) s = Ret (find (\<lambda>b. b_refcnt (bufs s ! b) = 0) zs) s"
  using assms
proof (induction zs arbitrary: k)
  case Nil
  then show ?case by (cases k) (simp_all add: monad_simps)
next
  case (Cons z zs)
  then obtain j where "k = Suc j" by (cases k) auto
  moreover have "bprev s z = hd (zs @ [bhead])" using Cons.prems(1) by (cases zs) auto
  moreover have "map (bprev s) zs = tl (zs @ [bhead])" using Cons.prems(1) by (cases zs) auto
  ultimately show ?case using Cons by (simp add: monad_simps get_buf_def)
qed

lemma lru_length: "lru s xs \<Longrightarrow> length xs = NBUF"
  using distinct_card [of xs] by (simp add: lru_def)

lemma searches_run:
  assumes "lru s xs"
  shows "bget_find (Suc NBUF) dev bn (bnext s bhead) s = Ret (find (\<lambda>b. b_dev (bufs s ! b) = dev \<and> b_blockno (bufs s ! b) = bn) xs) s"
    and "bget_unused (Suc NBUF) (bprev s bhead) s = Ret (find (\<lambda>b. b_refcnt (bufs s ! b) = 0) (rev xs)) s"
proof -
  have l: "map (bnext s) (bhead # xs) = xs @ [bhead]" "map (bprev s) (xs @ [bhead]) = bhead # xs"
    using assms by (simp_all add: lru_def linked_def)
  have h: "bhead \<notin> set xs" using lru_head [OF assms] by simp
  have "bnext s bhead = hd (xs @ [bhead])" "map (bnext s) xs = tl (xs @ [bhead])" using l(1) by (cases xs, auto)+
  then show "bget_find (Suc NBUF) dev bn (bnext s bhead) s = Ret (find (\<lambda>b. b_dev (bufs s ! b) = dev \<and> b_blockno (bufs s ! b) = bn) xs) s"
    using bget_find_run [of s xs "Suc NBUF"] h lru_length [OF assms] by simp
  have "map (bprev s) (bhead # rev xs) = rev xs @ [bhead]" using arg_cong [OF l(2), of rev] by (simp add: rev_map)
  then have "bprev s bhead = hd (rev xs @ [bhead])" "map (bprev s) (rev xs) = tl (rev xs @ [bhead])" by (cases "rev xs", auto)+
  then show "bget_unused (Suc NBUF) (bprev s bhead) s = Ret (find (\<lambda>b. b_refcnt (bufs s ! b) = 0) (rev xs)) s"
    using bget_unused_run [of s "rev xs" "Suc NBUF"] h lru_length [OF assms] by simp
qed

section \<open>Blocks\<close>

definition holds_block :: "uint32 \<Rightarrow> uint32 \<Rightarrow> buf \<Rightarrow> bool" where
  "holds_block dev n x \<longleftrightarrow> b_dev x = dev \<and> b_blockno x = n"

definition holder :: "uint32 \<Rightarrow> 'z bstate_scheme \<Rightarrow> uint32 \<Rightarrow> nat option" where
  "holder dev s n = find (\<lambda>b. holds_block dev n (bufs s ! b)) [0..<NBUF]"

text \<open>The blocks of the disk; those from \<open>2 ^ 31\<close> on are out of reach of the driver, which counts in sectors.\<close>

definition disk :: "'z vdstate_scheme \<Rightarrow> uint32 \<Rightarrow> uchar list" where
  "disk s n = (if n < 2 ^ 31 then read_image (image s) (unat (n * 2) * 512) else [])"

text \<open>The block as the cache presents it, the references to its buffer, and whether it is locked.\<close>

definition content :: "uint32 \<Rightarrow> 'z bstate_scheme \<Rightarrow> uint32 \<Rightarrow> uchar list" where
  "content dev s n = (case holder dev s n of None \<Rightarrow> disk s n
     | Some b \<Rightarrow> if b_valid (bufs s ! b) = 0 then disk s n else b_data (bufs s ! b))"

definition refs :: "uint32 \<Rightarrow> 'z bstate_scheme \<Rightarrow> uint32 \<Rightarrow> nat" where
  "refs dev s n = (case holder dev s n of None \<Rightarrow> 0 | Some b \<Rightarrow> unat (b_refcnt (bufs s ! b)))"

definition locked :: "uint32 \<Rightarrow> 'z bstate_scheme \<Rightarrow> uint32 \<Rightarrow> bool" where
  "locked dev s n = (case holder dev s n of None \<Rightarrow> False | Some b \<Rightarrow> \<not> sl_free s (SlBuf b))"

text \<open>The cache while one process uses it: no block is held twice, the buffers in use are blocks of \<open>dev\<close>, those that
  are locked are locked by the running process, and an unused one is unlocked and, if valid, clean.\<close>

definition bc_ok :: "uint32 \<Rightarrow> 'z bstate_scheme \<Rightarrow> bool" where
  "bc_ok dev s \<longleftrightarrow> (\<exists>xs. lru s xs) \<and> length (bufs s) = NBUF \<and>
     (\<forall>b<NBUF. \<forall>c<NBUF. b_dev (bufs s ! b) = dev \<and> holds_block dev (b_blockno (bufs s ! b)) (bufs s ! c) \<longrightarrow> b = c) \<and>
     (\<forall>b<NBUF. length (b_data (bufs s ! b)) = BSIZE) \<and>
     (\<forall>b<NBUF. b_valid (bufs s ! b) \<noteq> 0 \<longrightarrow> b_dev (bufs s ! b) = dev \<and> b_blockno (bufs s ! b) < 2 ^ 31) \<and>
     (\<forall>b<NBUF. b_refcnt (bufs s ! b) \<noteq> 0 \<longrightarrow> b_dev (bufs s ! b) = dev) \<and>
     (\<forall>b<NBUF. sl_free s (SlBuf b) \<or> sl_mine s (SlBuf b) \<and> b_refcnt (bufs s ! b) \<noteq> 0) \<and>
     (\<forall>b<NBUF. b_refcnt (bufs s ! b) = 0 \<and> b_valid (bufs s ! b) \<noteq> 0 \<longrightarrow> b_data (bufs s ! b) = disk s (b_blockno (bufs s ! b)))"

definition busy :: "'z pstate_scheme \<Rightarrow> bool" where
  "busy s \<longleftrightarrow> table_ok s \<and> held s = [] \<and> (\<exists>i<NPROC. cur s = Some i)"

lemma busy_at_work: "busy s \<Longrightarrow> at_work s"
  by (auto simp: busy_def at_work_def)

text \<open>What the cache may change of a state.\<close>

definition bc_only :: "'z bstate_scheme \<Rightarrow> 'z bstate_scheme \<Rightarrow> bool" where
  "bc_only s t \<longleftrightarrow> (\<exists>ts sl bs im ds ar ai ur ui vf vu vi vo nx pv. t = s\<lparr>procs := ts, sleeplocks := sl, bufs := bs, image := im,
     desc := ds, avail_ring := ar, avail_idx := ai, used_ring := ur, used_idx_dev := ui, vfree := vf, vused_idx := vu, vinfos := vi,
     vops := vo, bnext := nx, bprev := pv\<rparr> \<and> length ts = NPROC \<and> (\<forall>j<NPROC. cur s = Some j \<longrightarrow> ts ! j = procs s ! j))"

lemma bc_onlyI:
  assumes "t = s\<lparr>procs := procs t, sleeplocks := sleeplocks t, bufs := bufs t, image := image t,
     desc := desc t, avail_ring := avail_ring t, avail_idx := avail_idx t, used_ring := used_ring t, used_idx_dev := used_idx_dev t,
     vfree := vfree t, vused_idx := vused_idx t, vinfos := vinfos t, vops := vops t, bnext := bnext t, bprev := bprev t\<rparr>"
    and "length (procs t) = NPROC" and "\<forall>j<NPROC. cur s = Some j \<longrightarrow> procs t ! j = procs s ! j"
  shows "bc_only s t"
  using assms unfolding bc_only_def by blast

lemma bc_only_trans:
  assumes "bc_only s t" and "bc_only t u"
  shows "bc_only s u"
proof (rule bc_onlyI)
  obtain ts sl bs im ds ar ai ur ui vf vu vi vo nx pv where t: "t = s\<lparr>procs := ts, sleeplocks := sl, bufs := bs, image := im,
     desc := ds, avail_ring := ar, avail_idx := ai, used_ring := ur, used_idx_dev := ui, vfree := vf, vused_idx := vu, vinfos := vi,
     vops := vo, bnext := nx, bprev := pv\<rparr>" "\<forall>j<NPROC. cur s = Some j \<longrightarrow> ts ! j = procs s ! j"
    using assms(1) unfolding bc_only_def by blast
  obtain ts2 sl2 bs2 im2 ds2 ar2 ai2 ur2 ui2 vf2 vu2 vi2 vo2 nx2 pv2 where u: "u = t\<lparr>procs := ts2, sleeplocks := sl2, bufs := bs2, image := im2,
     desc := ds2, avail_ring := ar2, avail_idx := ai2, used_ring := ur2, used_idx_dev := ui2, vfree := vf2, vused_idx := vu2, vinfos := vi2,
     vops := vo2, bnext := nx2, bprev := pv2\<rparr>" "length ts2 = NPROC" "\<forall>j<NPROC. cur t = Some j \<longrightarrow> ts2 ! j = procs t ! j"
    using assms(2) unfolding bc_only_def by blast
  show "u = s\<lparr>procs := procs u, sleeplocks := sleeplocks u, bufs := bufs u, image := image u,
     desc := desc u, avail_ring := avail_ring u, avail_idx := avail_idx u, used_ring := used_ring u, used_idx_dev := used_idx_dev u,
     vfree := vfree u, vused_idx := vused_idx u, vinfos := vinfos u, vops := vops u, bnext := bnext u, bprev := bprev u\<rparr>"
    by (simp add: u(1) t(1))
  show "length (procs u) = NPROC" "\<forall>j<NPROC. cur s = Some j \<longrightarrow> procs u ! j = procs s ! j"
    using t(2) u(2,3) by (simp_all add: u(1) t(1))
qed

lemma bc_only_busy:
  assumes "bc_only s t" and "busy s"
  shows "busy t" and "my_pid t = my_pid s"
  using assms by (auto simp: bc_only_def busy_def table_ok_def my_pid_def)

lemma bc_only_vq: "vq_only s t \<Longrightarrow> bc_only s t"
  unfolding vq_only_def by (elim exE conjE) (rule bc_onlyI; simp)

lemma bc_okD:
  assumes "bc_ok dev s"
  shows "length (bufs s) = NBUF" and "b < NBUF \<Longrightarrow> length (b_data (bufs s ! b)) = BSIZE"
    and "b < NBUF \<Longrightarrow> c < NBUF \<Longrightarrow> holds_block dev n (bufs s ! b) \<Longrightarrow> holds_block dev n (bufs s ! c) \<Longrightarrow> b = c"
    and "b < NBUF \<Longrightarrow> b_refcnt (bufs s ! b) \<noteq> 0 \<Longrightarrow> b_dev (bufs s ! b) = dev"
    and "b < NBUF \<Longrightarrow> sl_free s (SlBuf b) \<or> sl_mine s (SlBuf b) \<and> b_refcnt (bufs s ! b) \<noteq> 0"
    and "b < NBUF \<Longrightarrow> b_refcnt (bufs s ! b) = 0 \<Longrightarrow> b_valid (bufs s ! b) \<noteq> 0 \<Longrightarrow> b_data (bufs s ! b) = disk s (b_blockno (bufs s ! b))"
    and "b < NBUF \<Longrightarrow> b_valid (bufs s ! b) \<noteq> 0 \<Longrightarrow> b_dev (bufs s ! b) = dev \<and> b_blockno (bufs s ! b) < 2 ^ 31"
proof -
  note bc = assms [unfolded bc_ok_def]
  show "length (bufs s) = NBUF" "b < NBUF \<Longrightarrow> length (b_data (bufs s ! b)) = BSIZE"
    "b < NBUF \<Longrightarrow> b_refcnt (bufs s ! b) \<noteq> 0 \<Longrightarrow> b_dev (bufs s ! b) = dev"
    "b < NBUF \<Longrightarrow> sl_free s (SlBuf b) \<or> sl_mine s (SlBuf b) \<and> b_refcnt (bufs s ! b) \<noteq> 0"
    "b < NBUF \<Longrightarrow> b_refcnt (bufs s ! b) = 0 \<Longrightarrow> b_valid (bufs s ! b) \<noteq> 0 \<Longrightarrow> b_data (bufs s ! b) = disk s (b_blockno (bufs s ! b))"
    "b < NBUF \<Longrightarrow> b_valid (bufs s ! b) \<noteq> 0 \<Longrightarrow> b_dev (bufs s ! b) = dev \<and> b_blockno (bufs s ! b) < 2 ^ 31"
    using bc by blast+
  show "b < NBUF \<Longrightarrow> c < NBUF \<Longrightarrow> holds_block dev n (bufs s ! b) \<Longrightarrow> holds_block dev n (bufs s ! c) \<Longrightarrow> b = c"
    using bc unfolding holds_block_def by blast
qed

lemma find_some: "find P xs = Some b \<Longrightarrow> b \<in> set xs \<and> P b"
  by (induction xs) (auto split: if_splits)

lemma find_unique:
  assumes "b \<in> set xs" and "P b" and u: "\<And>c. c \<in> set xs \<Longrightarrow> P c \<Longrightarrow> c = b"
  shows "find P xs = Some b"
proof (cases "find P xs")
  case None
  then show ?thesis using assms(1,2) by (simp add: find_None_iff)
next
  case (Some c)
  then show ?thesis using u find_some [OF Some] by simp
qed

lemma held_Nil: "held s = [] \<Longrightarrow> s\<lparr>held := []\<rparr> = s"
  by (cases s) simp

lemma holder_iff:
  assumes "bc_ok dev s"
  shows "holder dev s n = Some b \<longleftrightarrow> b < NBUF \<and> holds_block dev n (bufs s ! b)"
proof
  assume "holder dev s n = Some b"
  then show "b < NBUF \<and> holds_block dev n (bufs s ! b)" by (auto simp: holder_def find_Some_iff)
next
  assume b: "b < NBUF \<and> holds_block dev n (bufs s ! b)"
  show "holder dev s n = Some b" unfolding holder_def
  proof (rule find_unique)
    fix c assume "c \<in> set [0..<NBUF]" "holds_block dev n (bufs s ! c)"
    with b bc_okD(3) [OF assms] show "c = b" by (metis atLeastLessThan_iff set_upt)
  qed (use b in auto)
qed

lemma holder_less: "holder dev s n = Some b \<Longrightarrow> b < NBUF"
  using find_some [of _ "[0..<NBUF]" b] by (fastforce simp: holder_def)

lemma holder_None: "holder dev s n = None \<longleftrightarrow> (\<forall>b<NBUF. \<not> holds_block dev n (bufs s ! b))"
  by (auto simp: holder_def find_None_iff)

lemma find_holder:
  assumes "bc_ok dev s" and "lru s xs"
  shows "find (\<lambda>b. b_dev (bufs s ! b) = dev \<and> b_blockno (bufs s ! b) = n) xs = holder dev s n"
proof (cases "holder dev s n")
  case None
  then have "find (\<lambda>b. b_dev (bufs s ! b) = dev \<and> b_blockno (bufs s ! b) = n) xs = None"
    using assms(2) by (auto simp: holder_None find_None_iff lru_def holds_block_def)
  then show ?thesis using None by simp
next
  case (Some b)
  then have b: "b < NBUF" "holds_block dev n (bufs s ! b)" using holder_iff [OF assms(1)] by auto
  have "find (\<lambda>b. b_dev (bufs s ! b) = dev \<and> b_blockno (bufs s ! b) = n) xs = Some b"
  proof (rule find_unique)
    fix c assume "c \<in> set xs" "b_dev (bufs s ! c) = dev \<and> b_blockno (bufs s ! c) = n"
    then have "holder dev s n = Some c" using assms holder_iff [OF assms(1), of n c] by (auto simp: lru_def holds_block_def)
    with Some show "c = b" by simp
  qed (use b assms(2) in \<open>auto simp: lru_def holds_block_def\<close>)
  then show ?thesis using Some by simp
qed

lemma bget_hit:
  assumes "busy s" and "bc_ok dev s" and "holder dev s n = Some b" and "sl_free s (SlBuf b)"
  shows "bget dev n s = Ret b (s\<lparr>bufs := (bufs s)[b := (bufs s ! b)\<lparr>b_refcnt := b_refcnt (bufs s ! b) + 1\<rparr>],
    sleeplocks := (sleeplocks s)(SlBuf b := \<lparr>sl_locked = 1, sl_pid = my_pid s\<rparr>)\<rparr>)"
proof -
  obtain xs where xs: "lru s xs" using assms(2) unfolding bc_ok_def by blast
  have h: "held s = []" using assms(1) by (simp add: busy_def)
  let ?t = "s\<lparr>bufs := (bufs s)[b := (bufs s ! b)\<lparr>b_refcnt := b_refcnt (bufs s ! b) + 1\<rparr>]\<rparr>"
  have "at_work ?t" "sl_free ?t (SlBuf b)" "my_pid ?t = my_pid s"
    using assms(1,4) by (auto simp: busy_def at_work_def table_ok_def sl_free_def my_pid_def)
  then have a: "acquiresleep (SlBuf b) ?t = Ret () (?t\<lparr>sleeplocks := (sleeplocks s)(SlBuf b := \<lparr>sl_locked = 1, sl_pid = my_pid s\<rparr>)\<rparr>)"
    using acquiresleep_run [of ?t "SlBuf b"] by simp
  have "lru (s\<lparr>held := [BcacheLock]\<rparr>) xs" using xs by (simp add: lru_def)
  from searches_run(1) [OF this, of dev n]
  have g: "bget_find (Suc NBUF) dev n (bnext s bhead) (s\<lparr>held := [BcacheLock]\<rparr>) = Ret (Some b) (s\<lparr>held := [BcacheLock]\<rparr>)"
    using find_holder [OF assms(2) xs] assms(3) by simp
  show ?thesis using a g h by (simp add: bget_def monad_simps set_buf_def held_Nil del: bget_find.simps)
qed

text \<open>A miss takes the unused buffer that was released longest ago.\<close>

definition victim :: "'z bstate_scheme \<Rightarrow> nat list \<Rightarrow> nat option" where
  "victim s xs = find (\<lambda>b. b_refcnt (bufs s ! b) = 0) (rev xs)"

lemma bget_miss:
  assumes "busy s" and "bc_ok dev s" and "holder dev s n = None" and "\<exists>b<NBUF. b_refcnt (bufs s ! b) = 0" and xs: "lru s xs"
  shows "\<exists>b<NBUF. b_refcnt (bufs s ! b) = 0 \<and> victim s xs = Some b \<and>
    bget dev n s = Ret b (s\<lparr>bufs := (bufs s)[b := (bufs s ! b)\<lparr>b_dev := dev, b_blockno := n, b_valid := 0, b_refcnt := 1\<rparr>],
      sleeplocks := (sleeplocks s)(SlBuf b := \<lparr>sl_locked = 1, sl_pid = my_pid s\<rparr>)\<rparr>)"
proof -
  have h: "held s = []" using assms(1) by (simp add: busy_def)
  have "find (\<lambda>b. b_refcnt (bufs s ! b) = 0) (rev xs) \<noteq> None" using assms(4) xs by (auto simp: find_None_iff lru_def)
  then obtain b where f: "find (\<lambda>b. b_refcnt (bufs s ! b) = 0) (rev xs) = Some b" by blast
  then have b: "b < NBUF" "b_refcnt (bufs s ! b) = 0" using xs find_some [OF f] by (auto simp: lru_def)
  let ?t = "s\<lparr>bufs := (bufs s)[b := (bufs s ! b)\<lparr>b_dev := dev, b_blockno := n, b_valid := 0, b_refcnt := 1\<rparr>]\<rparr>"
  have "sl_free s (SlBuf b)" using assms(2) b unfolding bc_ok_def by blast
  then have "at_work ?t" "sl_free ?t (SlBuf b)" "my_pid ?t = my_pid s"
    using assms(1) by (auto simp: busy_def at_work_def table_ok_def sl_free_def my_pid_def)
  then have a: "acquiresleep (SlBuf b) ?t = Ret () (?t\<lparr>sleeplocks := (sleeplocks s)(SlBuf b := \<lparr>sl_locked = 1, sl_pid = my_pid s\<rparr>)\<rparr>)"
    using acquiresleep_run [of ?t "SlBuf b"] by simp
  have l: "lru (s\<lparr>held := [BcacheLock]\<rparr>) xs" using xs by (simp add: lru_def)
  have "bget_find (Suc NBUF) dev n (bnext s bhead) (s\<lparr>held := [BcacheLock]\<rparr>) = Ret None (s\<lparr>held := [BcacheLock]\<rparr>)"
    using searches_run(1) [OF l, of dev n] find_holder [OF assms(2) xs] assms(3) by simp
  moreover have "bget_unused (Suc NBUF) (bprev s bhead) (s\<lparr>held := [BcacheLock]\<rparr>) = Ret (Some b) (s\<lparr>held := [BcacheLock]\<rparr>)"
    using searches_run(2) [OF l] f by simp
  ultimately show ?thesis using a h b f
    by (intro exI [of _ b]) (simp add: victim_def bget_def monad_simps set_buf_def held_Nil del: bget_find.simps bget_unused.simps)
qed

text \<open>One buffer is changed.\<close>

lemma bc_ok_update:
  assumes s: "bc_ok dev s" and b: "b < NBUF" and t: "bufs t = (bufs s)[b := y]" "lru t xs" "my_pid t = my_pid s"
    and sl: "\<And>c. c \<noteq> b \<Longrightarrow> sleeplocks t (SlBuf c) = sleeplocks s (SlBuf c)"
    and disk: "\<And>c. c < NBUF \<Longrightarrow> c \<noteq> b \<Longrightarrow> b_valid (bufs s ! c) \<noteq> 0 \<Longrightarrow> disk t (b_blockno (bufs s ! c)) = disk s (b_blockno (bufs s ! c))"
    and y: "length (b_data y) = BSIZE" "b_dev y = dev" "b_blockno y < 2 ^ 31"
    and new: "holder dev s (b_blockno y) = Some b \<or> holder dev s (b_blockno y) = None"
    and own: "sl_free t (SlBuf b) \<or> sl_mine t (SlBuf b) \<and> b_refcnt y \<noteq> 0"
    and clean: "b_refcnt y = 0 \<Longrightarrow> b_valid y \<noteq> 0 \<Longrightarrow> b_data y = disk t (b_blockno y)"
  shows "bc_ok dev t"
proof -
  note ok = bc_okD [OF s]
  have nth: "bufs t ! c = (if c = b then y else bufs s ! c)" if "c < NBUF" for c
    using that b by (simp add: t(1) ok(1))
  have uniq: "\<not> holds_block dev (b_blockno y) (bufs s ! c)" if "c < NBUF" "c \<noteq> b" for c
    using new that holder_iff [OF s, of "b_blockno y" c] by auto
  have "\<exists>xs. lru t xs" using t(2) by blast
  moreover have "length (bufs t) = NBUF" by (simp add: t(1) ok(1))
  moreover have "\<forall>a<NBUF. \<forall>c<NBUF. b_dev (bufs t ! a) = dev \<and> holds_block dev (b_blockno (bufs t ! a)) (bufs t ! c) \<longrightarrow> a = c"
    using uniq ok(3) y(2) by (simp add: nth holds_block_def) metis
  moreover have "\<forall>a<NBUF. length (b_data (bufs t ! a)) = BSIZE" using ok(2) y(1) by (simp add: nth)
  moreover have "\<forall>a<NBUF. b_valid (bufs t ! a) \<noteq> 0 \<longrightarrow> b_dev (bufs t ! a) = dev \<and> b_blockno (bufs t ! a) < 2 ^ 31"
    using ok(7) y by (simp add: nth)
  moreover have "\<forall>a<NBUF. b_refcnt (bufs t ! a) \<noteq> 0 \<longrightarrow> b_dev (bufs t ! a) = dev" using ok(4) y(2) by (simp add: nth)
  moreover have "\<forall>a<NBUF. sl_free t (SlBuf a) \<or> sl_mine t (SlBuf a) \<and> b_refcnt (bufs t ! a) \<noteq> 0"
    using ok(5) own sl t(3) by (auto simp: nth sl_free_def sl_mine_def)
  moreover have "\<forall>a<NBUF. b_refcnt (bufs t ! a) = 0 \<and> b_valid (bufs t ! a) \<noteq> 0 \<longrightarrow> b_data (bufs t ! a) = disk t (b_blockno (bufs t ! a))"
    using ok(6) clean disk by (simp add: nth)
  ultimately show ?thesis unfolding bc_ok_def by blast
qed

lemma block_update:
  assumes s: "bc_ok dev s" and ok: "bc_ok dev t" and b: "b < NBUF" and t: "bufs t = (bufs s)[b := y]" "holds_block dev n y"
    and new: "holder dev s n = Some b \<or> holder dev s n = None \<and> b_refcnt (bufs s ! b) = 0"
    and sl: "\<And>c. c \<noteq> b \<Longrightarrow> sleeplocks t (SlBuf c) = sleeplocks s (SlBuf c)"
  shows "holder dev t n = Some b" and "content dev t n = (if b_valid y = 0 then disk t n else b_data y)"
    and "refs dev t = (refs dev s)(n := unat (b_refcnt y))" and "locked dev t = (locked dev s)(n := \<not> sl_free t (SlBuf b))"
    and "m \<noteq> n \<Longrightarrow> disk t m = disk s m \<Longrightarrow> content dev t m = content dev s m"
proof -
  have nth: "bufs t ! c = (if c = b then y else bufs s ! c)" if "c < NBUF" for c
    using that b bc_okD(1) [OF s] by (simp add: t(1))
  show h: "holder dev t n = Some b" using b t(2) by (simp add: holder_iff [OF ok] nth)
  then show "content dev t n = (if b_valid y = 0 then disk t n else b_data y)" using b by (simp add: content_def nth)
  have other: "holder dev t m = (if holder dev s m = Some b then None else holder dev s m)" if "m \<noteq> n" for m
  proof (cases "holder dev s m")
    case None
    then have "holder dev t m = None" using that t(2) by (auto simp: holder_None nth holds_block_def)
    then show ?thesis using None by simp
  next
    case (Some c)
    then have c: "c < NBUF" "holds_block dev m (bufs s ! c)" by (simp_all add: holder_iff [OF s])
    have "\<not> holds_block dev m (bufs t ! a)" if "c = b" "a < NBUF" for a
      using that c(2) \<open>m \<noteq> n\<close> t(2) bc_okD(3) [OF s that(2) c(1)] by (auto simp: nth holds_block_def)
    then have "holder dev t m = None" if "c = b" using that unfolding holder_None by blast
    moreover have "holder dev t m = Some c" if "c \<noteq> b" using that c by (simp add: holder_iff [OF ok] nth)
    ultimately show ?thesis using Some by auto
  qed
  have gone: "b_refcnt (bufs s ! b) = 0" "sl_free s (SlBuf b)" "b_valid (bufs s ! b) \<noteq> 0 \<longrightarrow> b_data (bufs s ! b) = disk s m"
    if "holder dev s m = Some b" "m \<noteq> n" for m
  proof -
    have hb: "holds_block dev m (bufs s ! b)" using that(1) by (simp add: holder_iff [OF s])
    moreover have "\<not> holds_block dev n (bufs s ! b)" using hb that(2) by (simp add: holds_block_def)
    then have "holder dev s n \<noteq> Some b" by (simp add: holder_iff [OF s])
    then show r: "b_refcnt (bufs s ! b) = 0" using new by blast
    then show "sl_free s (SlBuf b)" using bc_okD(5) [OF s b] by blast
    show "b_valid (bufs s ! b) \<noteq> 0 \<longrightarrow> b_data (bufs s ! b) = disk s m" using bc_okD(6) [OF s b r] hb by (simp add: holds_block_def)
  qed
  show "content dev t m = content dev s m" if "m \<noteq> n" "disk t m = disk s m"
  proof (cases "holder dev s m = Some b")
    case True
    then show ?thesis using other [OF that(1)] gone(3) [OF True that(1)] that(2) by (auto simp: content_def)
  next
    case False
    then show ?thesis using other [OF that(1)] that(2) by (cases "holder dev s m") (auto simp: content_def nth dest: holder_less)
  qed
  show "refs dev t = (refs dev s)(n := unat (b_refcnt y))"
  proof (rule ext)
    fix m show "refs dev t m = ((refs dev s)(n := unat (b_refcnt y))) m"
      using h b other [of m] gone(1) [of m] by (cases "holder dev s m") (auto simp: refs_def nth dest: holder_less)
  qed
  show "locked dev t = (locked dev s)(n := \<not> sl_free t (SlBuf b))"
  proof (rule ext)
    fix m show "locked dev t m = ((locked dev s)(n := \<not> sl_free t (SlBuf b))) m"
      using h b other [of m] gone(2) [of m] sl by (auto simp: locked_def nth sl_free_def split: option.splits)
  qed
qed

end
