(* ===== verification/BioOps.thy ===== *)
theory BioOps
  imports BioRun
begin

text \<open>
  The operations of the buffer cache as changes of the blocks: \<open>content\<close>, \<open>disk\<close>, \<open>refs\<close> and \<open>locked\<close>.  A state is
  \<open>good\<close> when a process runs, the queue of the disk is at rest and the cache is in order.
\<close>

definition good :: "uint32 \<Rightarrow> 'z bstate_scheme \<Rightarrow> bool" where
  "good dev s \<longleftrightarrow> busy s \<and> vq_ok s \<and> bc_ok dev s"

text \<open>\<open>handle dev s n b\<close>: a pointer to the valid buffer of block \<open>n\<close>.  It stays good as long as the block is in use.\<close>

definition handle :: "uint32 \<Rightarrow> 'z bstate_scheme \<Rightarrow> uint32 \<Rightarrow> nat \<Rightarrow> bool" where
  "handle dev s n b \<longleftrightarrow> holder dev s n = Some b \<and> b_valid (bufs s ! b) \<noteq> 0"

definition keeps_handles :: "uint32 \<Rightarrow> 'z bstate_scheme \<Rightarrow> 'z bstate_scheme \<Rightarrow> bool" where
  "keeps_handles dev s t \<longleftrightarrow> (\<forall>m b. refs dev s m \<noteq> 0 \<and> handle dev s m b \<longrightarrow> handle dev t m b)"

text \<open>A step of the cache.\<close>

definition bstep :: "uint32 \<Rightarrow> 'z bstate_scheme \<Rightarrow> 'z bstate_scheme \<Rightarrow> bool" where
  "bstep dev s t \<longleftrightarrow> bc_only s t \<and> good dev t \<and> keeps_handles dev s t"

lemma handles_update:
  assumes s: "bc_ok dev s" and ok: "bc_ok dev t" and b: "b < NBUF" and t: "bufs t = (bufs s)[b := y]" "holds_block dev n y" "b_valid y \<noteq> 0"
    and new: "holder dev s n = Some b \<or> holder dev s n = None \<and> b_refcnt (bufs s ! b) = 0"
  shows "keeps_handles dev s t"
  unfolding keeps_handles_def
proof (intro allI impI)
  fix m c assume h: "refs dev s m \<noteq> 0 \<and> handle dev s m c"
  then have c: "c < NBUF" "holds_block dev m (bufs s ! c)" "b_valid (bufs s ! c) \<noteq> 0"
    by (simp_all add: handle_def holder_iff [OF s])
  have c4: "b_refcnt (bufs s ! c) \<noteq> 0" using h by (auto simp: handle_def refs_def)
  have nth: "bufs t ! c = (if c = b then y else bufs s ! c)" using c(1) b bc_okD(1) [OF s] by (simp add: t(1))
  have "m = n" if "c = b" using new c(2) c4 that by (auto simp: holder_iff [OF s] holds_block_def)
  then show "handle dev t m c" using c t(2,3) nth by (cases "c = b") (auto simp: handle_def holder_iff [OF ok])
qed

lemma vq_only_fields:
  assumes "vq_only s t"
  shows "bufs t = bufs s" and "image t = image s" and "sleeplocks t = sleeplocks s" and "bnext t = bnext s" and "bprev t = bprev s"
  using assms by (auto simp: vq_only_def)

lemma vq_only_refl: "length (procs s) = NPROC \<Longrightarrow> vq_only s s"
  unfolding vq_only_def
  by (rule exI [of _ "procs s"], rule exI [of _ "desc s"], rule exI [of _ "avail_ring s"], rule exI [of _ "avail_idx s"],
      rule exI [of _ "used_ring s"], rule exI [of _ "used_idx_dev s"], rule exI [of _ "vfree s"], rule exI [of _ "vused_idx s"],
      rule exI [of _ "vinfos s"], rule exI [of _ "vops s"]) simp

lemma vq_onlyI:
  assumes "t = s\<lparr>procs := procs t, desc := desc t, avail_ring := avail_ring t, avail_idx := avail_idx t, used_ring := used_ring t,
     used_idx_dev := used_idx_dev t, vfree := vfree t, vused_idx := vused_idx t, vinfos := vinfos t, vops := vops t\<rparr>"
    and "length (procs t) = NPROC" and "\<forall>j<NPROC. cur s = Some j \<longrightarrow> procs t ! j = procs s ! j"
  shows "vq_only s t"
  using assms unfolding vq_only_def by blast

lemma vq_only_bufs: "vq_only (s\<lparr>bufs := as\<rparr>) t \<Longrightarrow> vq_only (s\<lparr>bufs := bs\<rparr>) (t\<lparr>bufs := bs\<rparr>)"
  unfolding vq_only_def [of "s\<lparr>bufs := as\<rparr>"] by (elim exE conjE) (rule vq_onlyI; simp)

lemma bread_fill_run:
  assumes "busy s" and "vq_ok s" and "b < length (bufs s)" and n: "b_blockno (bufs s ! b) < 2 ^ 31"
  shows "\<exists>t. bread_fill b s = Ret b t \<and> vq_ok t \<and>
    vq_only (s\<lparr>bufs := (bufs s)[b := (if b_valid (bufs s ! b) \<noteq> 0 then bufs s ! b
      else (bufs s ! b)\<lparr>b_disk := 0, b_data := disk s (b_blockno (bufs s ! b)), b_valid := 1\<rparr>)]\<rparr>) t"
proof (cases "b_valid (bufs s ! b) = 0")
  case False
  have "s\<lparr>bufs := bufs s\<rparr> = s" by simp
  moreover have "length (procs s) = NPROC" using assms(1) by (simp add: busy_def table_ok_def)
  ultimately show ?thesis using False assms(2) vq_only_refl [of s] by (simp add: bread_fill_def get_buf_def monad_simps)
next
  case True
  let ?y = "(bufs s ! b)\<lparr>b_disk := 0, b_data := disk s (b_blockno (bufs s ! b))\<rparr>"
  obtain t where t: "virtio_disk_rw b False s = Ret () t" "vq_ok t" "vq_only (s\<lparr>bufs := (bufs s)[b := ?y]\<rparr>) t"
    using virtio_disk_rw_run [OF _ _ assms(2,3) refl, of False] assms(1) n by (auto simp: busy_def disk_def)
  have "bread_fill b s = Ret b (t\<lparr>bufs := (bufs t)[b := (bufs t ! b)\<lparr>b_valid := 1\<rparr>]\<rparr>)"
    using True t(1) by (simp add: bread_fill_def get_buf_def set_buf_def monad_simps)
  moreover have "vq_ok (t\<lparr>bufs := (bufs t)[b := (bufs t ! b)\<lparr>b_valid := 1\<rparr>]\<rparr>)" using t(2) by (simp add: vq_ok_def)
  moreover have "(bufs t)[b := (bufs t ! b)\<lparr>b_valid := 1\<rparr>] = (bufs s)[b := ?y\<lparr>b_valid := 1\<rparr>]"
    using vq_only_fields(1) [OF t(3)] assms(3) by simp
  moreover have "vq_only (s\<lparr>bufs := bs\<rparr>) (t\<lparr>bufs := bs\<rparr>)" for bs
    by (rule vq_only_bufs [OF t(3)])
  ultimately show ?thesis using True by auto
qed

lemma goodD:
  assumes "good dev s"
  shows "busy s" and "vq_ok s" and "bc_ok dev s" and "length (procs s) = NPROC" and "length (bufs s) = NBUF" and "\<exists>xs. lru s xs"
  using assms by (auto simp: good_def busy_def table_ok_def bc_ok_def)

text \<open>A change of buffers and locks, then of the queue.\<close>

lemma bc_only_step:
  assumes "good dev s" and "vq_only (s\<lparr>bufs := bs, sleeplocks := sl\<rparr>) t"
  shows "bc_only s t"
proof (rule bc_only_trans)
  show "bc_only (s\<lparr>bufs := bs, sleeplocks := sl\<rparr>) t" by (rule bc_only_vq [OF assms(2)])
  show "bc_only s (s\<lparr>bufs := bs, sleeplocks := sl\<rparr>)" by (rule bc_onlyI) (simp_all add: goodD(4) [OF assms(1)])
qed

lemma disk_cong: "image t = image s \<Longrightarrow> disk t = disk s"
  by (rule ext) (simp add: disk_def)

lemma lru_cong: "lru s xs \<Longrightarrow> bnext t = bnext s \<Longrightarrow> bprev t = bprev s \<Longrightarrow> lru t xs"
  by (simp add: lru_def)

lemma taken_mine: "sleeplocks t l = \<lparr>sl_locked = 1, sl_pid = my_pid t\<rparr> \<Longrightarrow> sl_mine t l \<and> \<not> sl_free t l"
  by (simp add: sl_mine_def sl_free_def)

lemma bread_filled:
  assumes s: "good dev s" and xs: "lru s xs" and b: "b < NBUF" and x: "holds_block dev n x" "b_refcnt x \<noteq> 0" "length (b_data x) = BSIZE"
    and new: "holder dev s n = Some b \<or> holder dev s n = None \<and> b_refcnt (bufs s ! b) = 0"
    and n: "n < 2 ^ 31" and data: "content dev s n = (if b_valid x = 0 then disk s n else b_data x)"
  shows "\<exists>t. bread_fill b (s\<lparr>bufs := (bufs s)[b := x], sleeplocks := (sleeplocks s)(SlBuf b := \<lparr>sl_locked = 1, sl_pid = my_pid s\<rparr>)\<rparr>) = Ret b t \<and>
    bstep dev s t \<and> handle dev t n b \<and> content dev t = content dev s \<and>
    disk t = disk s \<and> refs dev t = (refs dev s)(n := unat (b_refcnt x)) \<and> locked dev t = (locked dev s)(n := True) \<and> lru t xs"
proof -
  note g = goodD [OF s]
  let ?l = "(sleeplocks s)(SlBuf b := \<lparr>sl_locked = 1, sl_pid = my_pid s\<rparr>)"
  let ?s = "s\<lparr>bufs := (bufs s)[b := x], sleeplocks := ?l\<rparr>"
  define y where "y = (if b_valid x \<noteq> 0 then x else x\<lparr>b_disk := 0, b_data := disk s n, b_valid := 1\<rparr>)"
  have p: "busy ?s" "vq_ok ?s" "b < length (bufs ?s)" "b_blockno (bufs ?s ! b) < 2 ^ 31"
    using g(1,2,5) b n x(1) by (simp_all add: busy_def table_ok_def vq_ok_def holds_block_def)
  have w: "(if b_valid (bufs ?s ! b) \<noteq> 0 then bufs ?s ! b
      else (bufs ?s ! b)\<lparr>b_disk := 0, b_data := disk ?s (b_blockno (bufs ?s ! b)), b_valid := 1\<rparr>) = y"
    using b x(1) g(5) by (simp add: y_def disk_def holds_block_def)
  obtain t where t: "bread_fill b ?s = Ret b t" "vq_ok t" "vq_only (?s\<lparr>bufs := (bufs ?s)[b := y]\<rparr>) t"
    using bread_fill_run [OF p, unfolded w] by blast
  have "?s\<lparr>bufs := (bufs ?s)[b := y]\<rparr> = s\<lparr>bufs := (bufs s)[b := y], sleeplocks := ?l\<rparr>" by simp
  with t(3) have t3: "vq_only (s\<lparr>bufs := (bufs s)[b := y], sleeplocks := ?l\<rparr>) t" by (simp only:)
  note f = vq_only_fields [OF t3, simplified]
  have only: "bc_only s t" by (rule bc_only_step [OF s t3])
  note busy = bc_only_busy [OF only g(1)]
  have y: "length (b_data y) = BSIZE" "b_dev y = dev" "b_blockno y = n" "b_valid y \<noteq> 0" "b_refcnt y = b_refcnt x"
    using x n by (simp_all add: y_def holds_block_def disk_def read_image_def)
  have own: "sl_mine t (SlBuf b) \<and> \<not> sl_free t (SlBuf b)" by (rule taken_mine) (simp add: f(3) busy(2))
  have ok: "bc_ok dev t"
    by (rule bc_ok_update [OF g(3) b f(1) lru_cong [OF xs f(4,5)] busy(2)])
      (use f x(2) y n new own disk_cong [OF f(2)] in auto)
  have hold: "holds_block dev n y" using y(2,3) by (simp add: holds_block_def)
  note u = block_update [OF g(3) ok b f(1) hold new]
  have o: "sleeplocks t (SlBuf c) = sleeplocks s (SlBuf c)" if "c \<noteq> b" for c using f(3) that by simp
  have "content dev t m = content dev s m" for m
    using u(2) [OF o] u(5) [OF o, of m] disk_cong [OF f(2)] data y(4) by (cases "m = n") (auto simp: y_def split: if_splits)
  moreover have "bufs t ! b = y" using b g(5) by (simp add: f(1))
  moreover have "keeps_handles dev s t" by (rule handles_update [OF g(3) ok b f(1) hold y(4) new])
  ultimately show ?thesis using t(1,2) only busy(1) ok u(1,3,4) [OF o] own y(4,5) disk_cong [OF f(2)] lru_cong [OF xs f(4,5)]
    by (intro exI [of _ t]) (auto simp: good_def bstep_def handle_def)
qed

text \<open>\<open>bread\<close> gives the buffer of the block, locked and with its content; nothing else changes.\<close>

lemma bread_run:
  assumes s: "good dev s" and n: "n < 2 ^ 31" and free: "\<not> locked dev s n" and room: "refs dev s n < 2 ^ 32 - 1"
    and unused: "holder dev s n \<noteq> None \<or> (\<exists>b<NBUF. b_refcnt (bufs s ! b) = 0)" and xs: "lru s xs"
  shows "\<exists>b t. bread dev n s = Ret b t \<and> bstep dev s t \<and> handle dev t n b \<and> lru t xs \<and>
    (if holder dev s n = None then victim s xs else holder dev s n) = Some b \<and>
    content dev t = content dev s \<and> disk t = disk s \<and> refs dev t = (refs dev s)(n := refs dev s n + 1) \<and>
    locked dev t = (locked dev s)(n := True)"
proof (cases "holder dev s n")
  case None
  note g = goodD [OF s]
  obtain b where b: "b < NBUF" "b_refcnt (bufs s ! b) = 0" and vic: "victim s xs = Some b"
      and b3: "bget dev n s = Ret b (s\<lparr>bufs := (bufs s)[b := (bufs s ! b)\<lparr>b_dev := dev, b_blockno := n, b_valid := 0, b_refcnt := 1\<rparr>],
      sleeplocks := (sleeplocks s)(SlBuf b := \<lparr>sl_locked = 1, sl_pid = my_pid s\<rparr>)\<rparr>)"
    using bget_miss [OF g(1,3) None _ xs] unused None by blast
  let ?x = "(bufs s ! b)\<lparr>b_dev := dev, b_blockno := n, b_valid := 0, b_refcnt := 1\<rparr>"
  have x: "holds_block dev n ?x" "b_refcnt ?x \<noteq> 0" "length (b_data ?x) = BSIZE" "b_valid ?x = 0" "unat (b_refcnt ?x) = 1"
    using bc_okD(2) [OF g(3) b(1)] by (simp_all add: holds_block_def)
  have r: "refs dev s n + 1 = 1" "content dev s n = disk s n" using None by (simp_all add: refs_def content_def)
  have h: "holder dev s n = Some b \<or> holder dev s n = None \<and> b_refcnt (bufs s ! b) = 0" using None b(2) by simp
  have c: "content dev s n = (if b_valid ?x = 0 then disk s n else b_data ?x)" using r(2) by simp
  have e: "bread dev n s = bread_fill b (s\<lparr>bufs := (bufs s)[b := ?x], sleeplocks := (sleeplocks s)(SlBuf b := \<lparr>sl_locked = 1, sl_pid = my_pid s\<rparr>)\<rparr>)"
    using b3 by (simp add: bread_def run_bnd)
  show ?thesis using bread_filled [OF s xs b(1) x(1-3) h n c] None vic unfolding e r(1) x(5) by auto
next
  case (Some b)
  note g = goodD [OF s]
  have b: "b < NBUF" "holds_block dev n (bufs s ! b)" using Some by (simp_all add: holder_iff [OF g(3)])
  have b3: "sl_free s (SlBuf b)" using Some free by (simp add: locked_def)
  let ?x = "(bufs s ! b)\<lparr>b_refcnt := b_refcnt (bufs s ! b) + 1\<rparr>"
  have "unat (b_refcnt (bufs s ! b) + 1) = unat (b_refcnt (bufs s ! b)) + 1"
    using room Some by (simp add: refs_def unat_word_ariths)
  then have x: "holds_block dev n ?x" "b_refcnt ?x \<noteq> 0" "length (b_data ?x) = BSIZE" "unat (b_refcnt ?x) = refs dev s n + 1"
    using b(2) bc_okD(2) [OF g(3) b(1)] Some by (auto simp: holds_block_def refs_def)
  have c: "content dev s n = (if b_valid ?x = 0 then disk s n else b_data ?x)" using Some by (simp add: content_def)
  have h: "holder dev s n = Some b \<or> holder dev s n = None \<and> b_refcnt (bufs s ! b) = 0" using Some by simp
  have e: "bread dev n s = bread_fill b (s\<lparr>bufs := (bufs s)[b := ?x], sleeplocks := (sleeplocks s)(SlBuf b := \<lparr>sl_locked = 1, sl_pid = my_pid s\<rparr>)\<rparr>)"
    using bget_hit [OF g(1,3) Some b3] by (simp add: bread_def run_bnd)
  show ?thesis using bread_filled [OF s xs b(1) x(1-3) h n c] Some unfolding e x(4) by auto
qed

text \<open>A locked buffer of a block.\<close>

definition locks_block :: "uint32 \<Rightarrow> 'z bstate_scheme \<Rightarrow> uint32 \<Rightarrow> nat \<Rightarrow> bool" where
  "locks_block dev s n b \<longleftrightarrow> handle dev s n b \<and> locked dev s n"

lemma locks_blockI: "handle dev s n b \<Longrightarrow> locked dev s n \<Longrightarrow> locks_block dev s n b"
  by (simp add: locks_block_def)

lemma locks_blockD:
  assumes "good dev s" and "locks_block dev s n b"
  shows "b < NBUF" and "holds_block dev n (bufs s ! b)" and "sl_mine s (SlBuf b)" and "b_refcnt (bufs s ! b) \<noteq> 0"
    and "b_data (bufs s ! b) = content dev s n" and "n < 2 ^ 31" and "refs dev s n = unat (b_refcnt (bufs s ! b))"
proof -
  note g = goodD [OF assms(1)]
  show b: "b < NBUF" and h: "holds_block dev n (bufs s ! b)" using assms(2) by (simp_all add: locks_block_def handle_def holder_iff [OF g(3)])
  have "\<not> sl_free s (SlBuf b)" using assms(2) by (auto simp: locks_block_def handle_def locked_def)
  then show "sl_mine s (SlBuf b)" "b_refcnt (bufs s ! b) \<noteq> 0" using bc_okD(5) [OF g(3) b] by blast+
  show "b_data (bufs s ! b) = content dev s n" using assms(2) by (simp add: locks_block_def handle_def content_def)
  show "n < 2 ^ 31" using bc_okD(7) [OF g(3) b] h assms(2) by (auto simp: locks_block_def handle_def holds_block_def)
  show "refs dev s n = unat (b_refcnt (bufs s ! b))" using assms(2) by (simp add: refs_def locks_block_def handle_def)
qed

lemma disk_write:
  assumes "n < 2 ^ 31" and "length bs = BSIZE" and "image t = write_image (image s) (unat (n * 2) * 512) bs"
  shows "disk t = (disk s)(n := bs)"
proof (rule ext)
  fix m
  have u: "unat (k * 2) = 2 * unat k" if "k < 2 ^ 31" for k :: uint32
    using that by (simp add: unat_word_ariths word_less_nat_alt)
  show "disk t m = ((disk s)(n := bs)) m"
  proof (cases "m = n \<or> \<not> m < 2 ^ 31")
    case True
    then show ?thesis using assms by (auto simp: disk_def read_image_def write_image_def intro!: nth_equalityI)
  next
    case False
    then have "unat m < unat n \<or> unat n < unat m" by (metis linorder_neqE_nat word_unat_eq_iff)
    then show ?thesis using assms False u [OF assms(1)] u [of m]
      by (auto simp: disk_def read_image_def write_image_def BSIZE_def)
  qed
qed

text \<open>\<open>bwrite\<close> puts the content of the block on the disk.\<close>

lemma bwrite_run:
  assumes s: "good dev s" and lk: "locks_block dev s n b"
  shows "\<exists>t. bwrite b s = Ret () t \<and> bstep dev s t \<and>
    content dev t = content dev s \<and> disk t = (disk s)(n := content dev s n) \<and> refs dev t = refs dev s \<and> locked dev t = locked dev s"
proof -
  note g = goodD [OF s] and l = locks_blockD [OF s lk]
  obtain xs where xs: "lru s xs" using g(6) by blast
  let ?y = "(bufs s ! b)\<lparr>b_disk := 0, b_data := content dev s n\<rparr>" and ?im = "write_image (image s) (unat (n * 2) * 512) (content dev s n)"
  have "b < length (bufs s)" using l(1) g(5) by simp
  then obtain t where t: "virtio_disk_rw b True s = Ret () t" "vq_ok t" "vq_only (s\<lparr>bufs := (bufs s)[b := ?y], image := ?im\<rparr>) t"
    using virtio_disk_rw_run [OF _ _ g(2) _ refl, of b True] g(1) l(2,5) by (auto simp: busy_def holds_block_def)
  note f = vq_only_fields [OF t(3), simplified]
  have only: "bc_only s t"
    by (rule bc_only_trans [OF _ bc_only_vq [OF t(3)]]) (rule bc_onlyI, simp_all add: g(4))
  note busy = bc_only_busy [OF only g(1)]
  have len: "length (content dev s n) = BSIZE" using bc_okD(2) [OF g(3) l(1)] l(5) by simp
  have d: "disk t = (disk s)(n := content dev s n)" by (rule disk_write [OF l(6) len f(2)])
  have nb: "b_blockno (bufs s ! c) \<noteq> n" if "c < NBUF" "c \<noteq> b" "b_valid (bufs s ! c) \<noteq> 0" for c
    using bc_okD(3) [OF g(3) that(1) l(1)] bc_okD(7) [OF g(3) that(1,3)] l(2) that(2) by (auto simp: holds_block_def)
  have y: "b_blockno ?y = n" "b_dev ?y = dev" "holds_block dev n ?y" using l(2) by (simp_all add: holds_block_def)
  have h: "holder dev s n = Some b" "b_valid (bufs s ! b) \<noteq> 0" "locked dev s n" using lk by (simp_all add: locks_block_def handle_def)
  have own: "sl_mine t (SlBuf b)" "\<not> sl_free t (SlBuf b)" using l(3) busy(2) f(3) by (auto simp: sl_mine_def sl_free_def)
  have ok: "bc_ok dev t"
    by (rule bc_ok_update [OF g(3) l(1) f(1) lru_cong [OF xs f(4,5)] busy(2)])
      (use f nb y l(4,6) own h(1) d len in auto)
  have o: "sleeplocks t (SlBuf c) = sleeplocks s (SlBuf c)" for c using f(3) by simp
  note u = block_update [OF g(3) ok l(1) f(1) y(3) disjI1 [OF h(1)] o]
  have "content dev t m = content dev s m" for m using u(2) u(5) [of m] h(2) d by (cases "m = n") auto
  moreover have "refs dev t = refs dev s" using u(3) l(7) by (simp add: fun_upd_idem)
  moreover have "locked dev t = locked dev s" using u(4) own(2) h(3) by (simp add: fun_upd_idem)
  moreover have "keeps_handles dev s t" by (rule handles_update [OF g(3) ok l(1) f(1) y(3) _ disjI1 [OF h(1)]]) (simp add: h(2))
  moreover have "bwrite b s = Ret () t"
    using holdingsleep_run [OF busy_at_work [OF g(1)]] l(3) t(1) by (simp add: bwrite_def monad_simps)
  ultimately show ?thesis using only busy(1) t(2) ok d unfolding good_def bstep_def by blast
qed

text \<open>\<open>brelse\<close> gives the lock back; a buffer that is no longer used becomes the most recently used one.\<close>

lemma releasesleep_run:
  assumes "busy s"
  shows "\<exists>ts. releasesleep l s = Ret () (s\<lparr>sleeplocks := (sleeplocks s)(l := \<lparr>sl_locked = 0, sl_pid = 0\<rparr>), procs := ts\<rparr>) \<and>
    length ts = NPROC \<and> (\<forall>j<NPROC. cur s = Some j \<longrightarrow> ts ! j = procs s ! j)"
proof -
  let ?s = "s\<lparr>held := [sl_lk l], sleeplocks := (sleeplocks s)(l := \<lparr>sl_locked = 0, sl_pid = 0\<rparr>)\<rparr>"
  have h: "held s = []" "length (procs s) = NPROC" using assms by (simp_all add: busy_def table_ok_def)
  have "table_ok ?s" using h(2) by (cases l) (simp_all add: table_ok_def)
  then obtain ts where "wakeup (sl_chan l) ?s = Ret () (?s\<lparr>procs := ts\<rparr>)" "length ts = NPROC"
      "\<forall>j<NPROC. cur s = Some j \<longrightarrow> ts ! j = procs s ! j"
    using wakes [of ?s "sl_chan l"] by auto
  then show ?thesis using h(1) by (intro exI [of _ ts]) (simp add: releasesleep_def set_sl_def monad_simps held_Nil)
qed

lemma brelse_list_run:
  assumes "lru s xs" and "b < NBUF"
  shows "\<exists>nx pv. (if r = 0 then b_to_front b else ret ()) s = Ret () (s\<lparr>bnext := nx, bprev := pv\<rparr>) \<and>
    lru (s\<lparr>bnext := nx, bprev := pv\<rparr>) (if r = (0::uint32) then b # remove1 b xs else xs)"
proof (cases "r = 0")
  case True
  then show ?thesis using b_to_front_run [OF assms(1), of b] assms by (simp add: lru_def)
next
  case False
  then show ?thesis using assms(1)
    by - (rule exI [of _ "bnext s"], rule exI [of _ "bprev s"], simp add: monad_simps)
qed

lemma brelse_run:
  assumes s: "good dev s" and lk: "locks_block dev s n b" and clean: "refs dev s n = 1 \<Longrightarrow> content dev s n = disk s n" and xs: "lru s xs"
  shows "\<exists>t. brelse b s = Ret () t \<and> bstep dev s t \<and> content dev t = content dev s \<and> disk t = disk s \<and>
    refs dev t = (refs dev s)(n := refs dev s n - 1) \<and> locked dev t = (locked dev s)(n := False) \<and>
    lru t (if refs dev s n = 1 then b # remove1 b xs else xs)"
proof -
  note g = goodD [OF s] and l = locks_blockD [OF s lk]
  let ?y = "(bufs s ! b)\<lparr>b_refcnt := b_refcnt (bufs s ! b) - 1\<rparr>" and ?sl = "(sleeplocks s)(SlBuf b := \<lparr>sl_locked = 0, sl_pid = 0\<rparr>)"
  obtain ts where ts: "releasesleep (SlBuf b) s = Ret () (s\<lparr>sleeplocks := ?sl, procs := ts\<rparr>)" "length ts = NPROC"
      "\<forall>j<NPROC. cur s = Some j \<longrightarrow> ts ! j = procs s ! j"
    using releasesleep_run [OF g(1)] by blast
  let ?u = "s\<lparr>sleeplocks := ?sl, procs := ts, held := [BcacheLock], bufs := (bufs s)[b := ?y]\<rparr>"
  have "lru ?u xs" using xs by (simp add: lru_def)
  then obtain nx pv where p: "(if b_refcnt ?y = 0 then b_to_front b else ret ()) ?u = Ret () (?u\<lparr>bnext := nx, bprev := pv\<rparr>)"
      "lru (?u\<lparr>bnext := nx, bprev := pv\<rparr>) (if b_refcnt ?y = 0 then b # remove1 b xs else xs)"
    using brelse_list_run [OF _ l(1), of ?u xs "b_refcnt ?y"] by blast
  define t where "t = s\<lparr>sleeplocks := ?sl, procs := ts, bufs := (bufs s)[b := ?y], bnext := nx, bprev := pv\<rparr>"
  have h: "held s = []" using g(1) by (simp add: busy_def)
  have hs: "holdingsleep (SlBuf b) s = Ret True s" using holdingsleep_run [OF busy_at_work [OF g(1)], of "SlBuf b"] l(3) by simp
  have run: "brelse b s = Ret () t"
    using hs ts(1) p(1) h l(1) g(5) by (simp add: brelse_def monad_simps set_buf_def get_buf_def t_def held_Nil)
  have r: "unat (b_refcnt ?y) = refs dev s n - 1" "b_refcnt ?y = 0 \<longleftrightarrow> refs dev s n = 1"
  proof -
    show u: "unat (b_refcnt ?y) = refs dev s n - 1" using l(4,7) by (simp add: unat_minus_one)
    have "refs dev s n \<noteq> 0" using l(4,7) by (simp add: unat_eq_zero)
    then show "b_refcnt ?y = 0 \<longleftrightarrow> refs dev s n = 1" using u unat_eq_zero [of "b_refcnt ?y"] by arith
  qed
  have lru: "lru t (if refs dev s n = 1 then b # remove1 b xs else xs)" using p(2) unfolding r(2) by (simp add: lru_def t_def)
  have only: "bc_only s t" by (rule bc_onlyI) (use ts in \<open>simp_all add: t_def\<close>)
  note busy = bc_only_busy [OF only g(1)]
  have f: "bufs t = (bufs s)[b := ?y]" "image t = image s" "sl_free t (SlBuf b)" by (simp_all add: t_def sl_free_def)
  have o: "sleeplocks t (SlBuf c) = sleeplocks s (SlBuf c)" if "c \<noteq> b" for c using that by (simp add: t_def)
  have hn: "holder dev s n = Some b" using lk by (simp add: locks_block_def handle_def)
  have y: "b_blockno ?y = n" "holds_block dev n ?y" "b_dev ?y = dev" "length (b_data ?y) = BSIZE"
    using l(2) bc_okD(2) [OF g(3) l(1)] by (simp_all add: holds_block_def)
  have ok: "bc_ok dev t"
    by (rule bc_ok_update [OF g(3) l(1) f(1) lru busy(2) o]) (use hn y l(5,6) f(3) clean r(2) disk_cong [OF f(2)] in auto)
  note u = block_update [OF g(3) ok l(1) f(1) y(2) disjI1 [OF hn] o]
  have "content dev t m = content dev s m" for m
    using u(2) u(5) [of m] lk l(5) disk_cong [OF f(2)] by (cases "m = n") (auto simp: locks_block_def handle_def)
  moreover have "vq_ok t" using g(2) by (simp add: vq_ok_def t_def)
  moreover have "keeps_handles dev s t"
    by (rule handles_update [OF g(3) ok l(1) f(1) y(2) _ disjI1 [OF hn]]) (use lk in \<open>simp add: locks_block_def handle_def\<close>)
  ultimately show ?thesis using run only busy(1) ok u(3,4) r(1) disk_cong [OF f(2)] f(3) lru by (auto simp: good_def bstep_def)
qed

text \<open>A change of the data or of the count of a buffer in use.\<close>

lemma edit_run:
  assumes s: "good dev s" and hn: "holder dev s n = Some b" and v: "b_valid (bufs s ! b) \<noteq> 0"
    and y: "holds_block dev n y" "b_refcnt y \<noteq> 0" "length (b_data y) = BSIZE" "b_valid y \<noteq> 0"
    and t: "t = s\<lparr>bufs := (bufs s)[b := y]\<rparr>"
  shows "bstep dev s t" and "content dev t = (content dev s)(n := b_data y)" and "disk t = disk s"
    and "refs dev t = (refs dev s)(n := unat (b_refcnt y))" and "locked dev t = locked dev s"
proof -
  note g = goodD [OF s]
  obtain xs where xs: "lru s xs" using g(6) by blast
  have b: "b < NBUF" "holds_block dev n (bufs s ! b)" using hn by (simp_all add: holder_iff [OF g(3)])
  have n: "b_blockno y = n" "b_dev y = dev" "n < 2 ^ 31" using y(1) b(2) bc_okD(7) [OF g(3) b(1) v] by (auto simp: holds_block_def)
  have only: "bc_only s t" by (rule bc_onlyI) (simp_all add: t g(4))
  note busy = bc_only_busy [OF only g(1)]
  have f: "bufs t = (bufs s)[b := y]" "image t = image s" "sleeplocks t = sleeplocks s" "lru t xs" using xs by (simp_all add: t lru_def)
  have sl: "sl_free t l = sl_free s l" "sl_mine t l = sl_mine s l" for l using busy(2) by (simp_all add: sl_free_def sl_mine_def f(3))
  have ok: "bc_ok dev t"
    by (rule bc_ok_update [OF g(3) b(1) f(1,4) busy(2)]) (use f hn y n bc_okD(5) [OF g(3) b(1)] sl disk_cong [OF f(2)] in auto)
  note u = block_update [OF g(3) ok b(1) f(1) y(1) disjI1 [OF hn], unfolded f(3), OF refl]
  show "refs dev t = (refs dev s)(n := unat (b_refcnt y))" by (fact u)
  show "disk t = disk s" by (rule disk_cong [OF f(2)])
  have "good dev t" using busy(1) ok g(2) by (simp add: good_def t vq_ok_def)
  moreover have "keeps_handles dev s t" by (rule handles_update [OF g(3) ok b(1) f(1) y(1,4) disjI1 [OF hn]])
  ultimately show "bstep dev s t" using only by (simp add: bstep_def)
  show "content dev t = (content dev s)(n := b_data y)"
    using u(2) u(5) y(4) disk_cong [OF f(2)] by (intro ext) simp
  show "locked dev t = locked dev s" using u(4) hn sl by (simp add: fun_upd_idem locked_def)
qed

lemma set_data_run:
  assumes "good dev s" and "locks_block dev s n b" and "length bs = BSIZE"
  shows "\<exists>t. set_buf b (\<lambda>x. x\<lparr>b_data := bs\<rparr>) s = Ret () t \<and> bstep dev s t \<and>
    content dev t = (content dev s)(n := bs) \<and> disk t = disk s \<and> refs dev t = refs dev s \<and> locked dev t = locked dev s"
proof -
  note l = locks_blockD [OF assms(1,2)]
  let ?y = "(bufs s ! b)\<lparr>b_data := bs\<rparr>"
  have h: "holder dev s n = Some b" "b_valid (bufs s ! b) \<noteq> 0" "locked dev s n" using assms(2) by (simp_all add: locks_block_def handle_def)
  have y: "holds_block dev n ?y" "b_refcnt ?y \<noteq> 0" "length (b_data ?y) = BSIZE" "b_valid ?y \<noteq> 0"
    using l(2,4) assms(3) h(2) by (simp_all add: holds_block_def)
  note e = edit_run [OF assms(1) h(1,2) y refl]
  show ?thesis
    by (intro exI [of _ "s\<lparr>bufs := (bufs s)[b := ?y]\<rparr>"]) (use e h l(7) in \<open>simp add: set_buf_def monad_simps locks_block_def handle_def fun_upd_idem\<close>)
qed

lemma pin_run:
  assumes s: "good dev s" and hd: "handle dev s n b" and c: "c \<noteq> 0" "unat c = k"
    and op: "op = thn (acquire BcacheLock) (thn (set_buf b (\<lambda>x. x\<lparr>b_refcnt := f (b_refcnt x)\<rparr>)) (release BcacheLock))" "c = f (b_refcnt (bufs s ! b))"
  shows "\<exists>t. op s = Ret () t \<and> bstep dev s t \<and>
    content dev t = content dev s \<and> disk t = disk s \<and> refs dev t = (refs dev s)(n := k) \<and> locked dev t = locked dev s"
proof -
  note g = goodD [OF s] and hn = hd [unfolded handle_def, THEN conjunct1] hd [unfolded handle_def, THEN conjunct2]
  let ?y = "(bufs s ! b)\<lparr>b_refcnt := c\<rparr>"
  have b: "b < NBUF" "holds_block dev n (bufs s ! b)" using hn by (simp_all add: holder_iff [OF g(3)])
  have y: "holds_block dev n ?y" "b_refcnt ?y \<noteq> 0" "length (b_data ?y) = BSIZE" "b_valid ?y \<noteq> 0"
    using b c hn(2) bc_okD(2) [OF g(3) b(1)] by (simp_all add: holds_block_def)
  note e = edit_run [OF s hn y refl]
  have "held s = []" using g(1) by (simp add: busy_def)
  then have "op s = Ret () (s\<lparr>bufs := (bufs s)[b := ?y]\<rparr>)" by (simp add: op set_buf_def monad_simps held_Nil)
  moreover have "(content dev s)(n := b_data ?y) = content dev s" using hn by (intro ext) (simp add: content_def)
  ultimately show ?thesis using e c(2) by auto
qed

lemma bpin_run:
  assumes "good dev s" and "handle dev s n b" and "refs dev s n < 2 ^ 32 - 1"
  shows "\<exists>t. bpin b s = Ret () t \<and> bstep dev s t \<and>
    content dev t = content dev s \<and> disk t = disk s \<and> refs dev t = (refs dev s)(n := refs dev s n + 1) \<and> locked dev t = locked dev s"
proof -
  have u: "unat (b_refcnt (bufs s ! b) + 1) = refs dev s n + 1"
    using assms(2,3) by (simp add: handle_def refs_def unat_word_ariths)
  then have "b_refcnt (bufs s ! b) + 1 \<noteq> 0" by (metis add_is_0 unat_0 one_neq_zero)
  then show ?thesis by (rule pin_run [OF assms(1,2) _ u bpin_def refl])
qed

lemma bunpin_run:
  assumes "good dev s" and "handle dev s n b" and "refs dev s n > 1"
  shows "\<exists>t. bunpin b s = Ret () t \<and> bstep dev s t \<and>
    content dev t = content dev s \<and> disk t = disk s \<and> refs dev t = (refs dev s)(n := refs dev s n - 1) \<and> locked dev t = locked dev s"
proof -
  have "b_refcnt (bufs s ! b) \<noteq> 0" using assms(2,3) by (auto simp: handle_def refs_def)
  then have u: "unat (b_refcnt (bufs s ! b) - 1) = refs dev s n - 1"
    using assms(2) by (simp add: handle_def refs_def unat_minus_one)
  then have "b_refcnt (bufs s ! b) - 1 \<noteq> 0" using assms(3) by (metis diff_is_0_eq not_le unat_0)
  then show ?thesis by (rule pin_run [OF assms(1,2) _ u bunpin_def refl])
qed

end
