(* ===== verification/BlockView.thy ===== *)
theory BlockView
  imports BioOps
begin

text \<open>
  The buffer cache as its users see it: a view has, for every block, its content, what the disk has, the number of
  references and whether it is locked, and each operation of \<open>kernel/bio.c\<close> is a change of the view.  \<open>runs f s P\<close>:
  \<open>f\<close> returns from \<open>s\<close>, with a value and a state that satisfy \<open>P\<close>.
\<close>

section \<open>Runs\<close>

definition runs :: "('s, 'a) kfun \<Rightarrow> 's \<Rightarrow> ('a \<Rightarrow> 's \<Rightarrow> bool) \<Rightarrow> bool" where
  "runs f s P \<longleftrightarrow> (\<exists>a t. f s = Ret a t \<and> P a t)"

lemma runs_bnd: "runs f s (\<lambda>a t. runs (g a) t P) \<Longrightarrow> runs (bnd f g) s P"
  unfolding runs_def by (auto simp: bnd_Ret_iff)

lemma runs_thn: "runs f s (\<lambda>_ t. runs g t P) \<Longrightarrow> runs (thn f g) s P"
  unfolding runs_def by (auto simp: thn_Ret_iff)

lemma runs_simps [simp]:
  "runs (ret a) s P \<longleftrightarrow> P a s" "runs (gets f) s P \<longleftrightarrow> P (f s) s" "runs (modify h) s P \<longleftrightarrow> P () (h s)"
  by (simp_all add: runs_def monad_simps)

lemma runs_mono: "runs f s P \<Longrightarrow> (\<And>a t. P a t \<Longrightarrow> Q a t) \<Longrightarrow> runs f s Q"
  unfolding runs_def by blast

lemma runs_for_each:
  assumes "I 0 s" and "\<And>i s. i < n \<Longrightarrow> I i s \<Longrightarrow> runs (f i) s (\<lambda>_. I (Suc i))"
  shows "runs (for_each [0..<n] f) s (\<lambda>_. I n)"
  using assms(2)
proof (induction n)
  case 0
  then show ?case using assms(1) by simp
next
  case (Suc n)
  have "runs (for_each [0..<n] f) s (\<lambda>_. I n)" by (rule Suc.IH) (use Suc.prems in simp)
  then have "runs (for_each [0..<n] f) s (\<lambda>_ t. runs (thn (f n) (ret ())) t (\<lambda>_. I (Suc n)))"
  proof (rule runs_mono)
    fix a t assume "I n t"
    then show "runs (thn (f n) (ret ())) t (\<lambda>_. I (Suc n))" by (intro runs_thn runs_mono [OF Suc.prems [of n t]]) simp_all
  qed
  then show ?case by (simp add: for_each_append runs_thn)
qed

section \<open>Views\<close>

record bview =
  v_content :: "uint32 \<Rightarrow> uchar list"
  v_disk :: "uint32 \<Rightarrow> uchar list"
  v_refs :: "uint32 \<Rightarrow> nat"
  v_locked :: "uint32 \<Rightarrow> bool"

definition sees :: "uint32 \<Rightarrow> 'z bstate_scheme \<Rightarrow> bview \<Rightarrow> bool" where
  "sees dev s v \<longleftrightarrow> good dev s \<and> content dev s = v_content v \<and> disk s = v_disk v \<and> refs dev s = v_refs v \<and> locked dev s = v_locked v"

definition v_used :: "bview \<Rightarrow> nat" where
  "v_used v = card {n. v_refs v n \<noteq> 0}"

lemma unused_buffer:
  assumes "bc_ok dev s" and "card {n. refs dev s n \<noteq> 0} < NBUF"
  shows "\<exists>b<NBUF. b_refcnt (bufs s ! b) = 0"
proof (rule ccontr)
  assume "\<not> ?thesis"
  then have r: "b_refcnt (bufs s ! b) \<noteq> 0" if "b < NBUF" for b using that by blast
  let ?f = "\<lambda>b. b_blockno (bufs s ! b)"
  have h: "holds_block dev (?f b) (bufs s ! b)" if "b < NBUF" for b
    using bc_okD(4) [OF assms(1) that r [OF that]] by (simp add: holds_block_def)
  have "inj_on ?f {..<NBUF}"
  proof (rule inj_onI)
    fix b c assume bc: "b \<in> {..<NBUF}" "c \<in> {..<NBUF}" "?f b = ?f c"
    then show "b = c" using h [of b] h [of c] bc_okD(3) [OF assms(1), of b c "?f b"] by simp
  qed
  moreover have "?f b \<in> {n. refs dev s n \<noteq> 0}" if "b < NBUF" for b
  proof -
    have "holder dev s (?f b) = Some b" using that h [OF that] by (simp add: holder_iff [OF assms(1)])
    then show ?thesis using r [OF that] by (simp add: refs_def unat_gt_0)
  qed
  then have "?f ` {..<NBUF} \<subseteq> {n. refs dev s n \<noteq> 0}" by auto
  ultimately have "NBUF \<le> card {n. refs dev s n \<noteq> 0}" by (metis card_image card_lessThan card_mono finite)
  with assms(2) show False by simp
qed

lemma bread_view:
  assumes "sees dev s v" and "n < 2 ^ 31" and "\<not> v_locked v n" and "v_refs v n < 2 ^ 32 - 1" and "v_refs v n \<noteq> 0 \<or> v_used v < NBUF"
  shows "runs (bread dev n) s (\<lambda>b t. bc_only s t \<and> keeps_handles dev s t \<and> handle dev t n b \<and>
    sees dev t (v\<lparr>v_refs := (v_refs v)(n := v_refs v n + 1), v_locked := (v_locked v)(n := True)\<rparr>))"
proof -
  have v: "good dev s" "refs dev s = v_refs v" "locked dev s = v_locked v" using assms(1) by (simp_all add: sees_def)
  have "holder dev s n \<noteq> None \<or> (\<exists>b<NBUF. b_refcnt (bufs s ! b) = 0)"
  proof (cases "v_used v < NBUF")
    case True
    then show ?thesis using unused_buffer [OF goodD(3) [OF v(1)]] v(2) by (simp add: v_used_def)
  next
    case False
    then have "refs dev s n \<noteq> 0" using assms(5) v(2) by simp
    then show ?thesis by (auto simp: refs_def)
  qed
  moreover obtain xs where "lru s xs" using goodD(6) [OF v(1)] by blast
  ultimately obtain b t where "bread dev n s = Ret b t" "bstep dev s t" "handle dev t n b"
      "content dev t = content dev s" "disk t = disk s" "refs dev t = (refs dev s)(n := refs dev s n + 1)"
      "locked dev t = (locked dev s)(n := True)"
    using bread_run [OF v(1) assms(2)] assms(3,4) v by (metis (no_types, lifting))
  then show ?thesis using assms(1) by (auto simp: runs_def bstep_def sees_def)
qed

lemma bwrite_view:
  assumes "sees dev s v" and "handle dev s n b" and "v_locked v n"
  shows "runs (bwrite b) s (\<lambda>_ t. bc_only s t \<and> keeps_handles dev s t \<and> sees dev t (v\<lparr>v_disk := (v_disk v)(n := v_content v n)\<rparr>))"
  using bwrite_run [of dev s n b] assms by (auto simp: runs_def bstep_def sees_def locks_block_def)

lemma brelse_view:
  assumes "sees dev s v" and "handle dev s n b" and "v_locked v n" and "v_refs v n = 1 \<Longrightarrow> v_content v n = v_disk v n"
  shows "runs (brelse b) s (\<lambda>_ t. bc_only s t \<and> keeps_handles dev s t \<and>
    sees dev t (v\<lparr>v_refs := (v_refs v)(n := v_refs v n - 1), v_locked := (v_locked v)(n := False)\<rparr>))"
proof -
  have v: "good dev s" "refs dev s = v_refs v" "locked dev s = v_locked v" "content dev s = v_content v" "disk s = v_disk v"
    using assms(1) by (simp_all add: sees_def)
  obtain xs where "lru s xs" using goodD(6) [OF v(1)] by blast
  from brelse_run [OF v(1) _ _ this, of n b] show ?thesis
    using assms v by (auto simp: runs_def bstep_def sees_def locks_block_def)
qed

lemma set_data_view:
  assumes "sees dev s v" and "handle dev s n b" and "v_locked v n" and "length bs = BSIZE"
  shows "runs (set_buf b (\<lambda>x. x\<lparr>b_data := bs\<rparr>)) s (\<lambda>_ t. bc_only s t \<and> keeps_handles dev s t \<and>
    sees dev t (v\<lparr>v_content := (v_content v)(n := bs)\<rparr>))"
  using set_data_run [of dev s n b bs] assms by (auto simp: runs_def bstep_def sees_def locks_block_def)

lemma bunpin_view:
  assumes "sees dev s v" and "handle dev s n b" and "v_refs v n > 1"
  shows "runs (bunpin b) s (\<lambda>_ t. bc_only s t \<and> keeps_handles dev s t \<and> sees dev t (v\<lparr>v_refs := (v_refs v)(n := v_refs v n - 1)\<rparr>))"
  using bunpin_run [of dev s n b] assms by (auto simp: runs_def bstep_def sees_def)

lemma bpin_view:
  assumes "sees dev s v" and "handle dev s n b" and "v_refs v n < 2 ^ 32 - 1"
  shows "runs (bpin b) s (\<lambda>_ t. bc_only s t \<and> keeps_handles dev s t \<and> sees dev t (v\<lparr>v_refs := (v_refs v)(n := v_refs v n + 1)\<rparr>))"
  using bpin_run [of dev s n b] assms by (auto simp: runs_def bstep_def sees_def)

end
