(* ===== verification/LogRun.thy ===== *)
theory LogRun
  imports BlockView Log
begin

text \<open>
  What the log does, \<open>kernel/log.c\<close>: the steps of \<open>commit\<close> and of recovery as changes of the blocks, and what recovery
  finds after a crash between any two writes to the disk.
\<close>

unbundle bit_operations_syntax

section \<open>The header block\<close>

lemma length_put32 [simp]: "length (put32 bs i v) = length bs"
  by (simp add: put32_def)

lemma get32_put32:
  assumes "i + 3 < length bs"
  shows "get32 (put32 bs i v) i = v"
proof -
  have "put32 bs i v ! i = ucast v" "put32 bs i v ! (i + 1) = ucast (drop_bit 8 v)" "put32 bs i v ! (i + 2) = ucast (drop_bit 16 v)"
    "put32 bs i v ! (i + 3) = ucast (drop_bit 24 v)"
    using assms by (simp_all add: put32_def nth_list_update)
  then have g: "get32 (put32 bs i v) i = ucast (ucast v :: uchar) OR push_bit 8 (ucast (ucast (drop_bit 8 v) :: uchar)) OR
      push_bit 16 (ucast (ucast (drop_bit 16 v) :: uchar)) OR push_bit 24 (ucast (ucast (drop_bit 24 v) :: uchar))"
    by (simp only: get32_def)
  show ?thesis unfolding g
  proof (rule bit_word_eqI)
    fix k assume "k < LENGTH(32)"
    then consider "k < 8" | "8 \<le> k" "k < 16" | "16 \<le> k" "k < 24" | "24 \<le> k" "k < 32" by fastforce
    then show "bit (ucast (ucast v :: uchar) OR push_bit 8 (ucast (ucast (drop_bit 8 v) :: uchar)) OR
      push_bit 16 (ucast (ucast (drop_bit 16 v) :: uchar)) OR push_bit 24 (ucast (ucast (drop_bit 24 v) :: uchar)) :: uint32) k = bit v k"
      by cases (simp_all add: bit_simps less_diff_conv2)
  qed
qed

lemma get32_put32_other: "i + 3 < j \<or> j + 3 < i \<Longrightarrow> get32 (put32 bs j v) i = get32 bs i"
proof -
  assume a: "i + 3 < j \<or> j + 3 < i"
  then have "put32 bs j v ! k = bs ! k" if "i \<le> k" "k \<le> i + 3" for k using that by (auto simp: put32_def nth_list_update)
  then show ?thesis by (simp add: get32_def)
qed

definition head_n :: "uchar list \<Rightarrow> int" where
  "head_n bs = sint (get32 bs 0)"

definition head_block :: "uchar list \<Rightarrow> nat \<Rightarrow> int" where
  "head_block bs i = sint (get32 bs (4 + 4 * i))"

primrec put_blocks :: "nat \<Rightarrow> int list \<Rightarrow> uchar list \<Rightarrow> uchar list" where
  "put_blocks 0 bl bs = bs"
| "put_blocks (Suc k) bl bs = put32 (put_blocks k bl bs) (4 + 4 * k) (of_int (bl ! k))"

definition put_head :: "int \<Rightarrow> int list \<Rightarrow> uchar list \<Rightarrow> uchar list" where
  "put_head n bl bs = put_blocks (nat n) bl (put32 bs 0 (of_int n))"

lemma length_put_blocks [simp]: "length (put_blocks k bl bs) = length bs"
  by (induction k) simp_all

lemma length_put_head [simp]: "length (put_head n bl bs) = length bs"
  by (simp add: put_head_def)

lemma sint_of_int32: "- (2 ^ 31) \<le> x \<Longrightarrow> x < 2 ^ 31 \<Longrightarrow> sint (of_int x :: uint32) = x"
  by (simp add: sint_sbintrunc' signed_take_bit_int_eq_self)

lemma put_blocks_low: "get32 (put_blocks k bl bs) 0 = get32 bs 0"
  by (induction k) (simp_all add: get32_put32_other)

lemma put_blocks_get:
  "4 + 4 * k \<le> length bs \<Longrightarrow> i < k \<Longrightarrow> get32 (put_blocks k bl bs) (4 + 4 * i) = of_int (bl ! i)"
proof (induction k)
  case (Suc k)
  show ?case
  proof (cases "i = k")
    case True
    then show ?thesis using Suc.prems by (simp add: get32_put32)
  next
    case False
    then have "4 + 4 * i + 3 < 4 + 4 * k" using Suc.prems by simp
    then show ?thesis using Suc False by (simp add: get32_put32_other)
  qed
qed simp

lemma head_put_head:
  assumes "0 \<le> n" and "n < 2 ^ 31" and "4 + 4 * nat n \<le> length bs"
  shows "head_n (put_head n bl bs) = n"
    and "i < nat n \<Longrightarrow> 0 \<le> bl ! i \<Longrightarrow> bl ! i < 2 ^ 31 \<Longrightarrow> head_block (put_head n bl bs) i = bl ! i"
  using assms by (simp_all add: head_n_def head_block_def put_head_def put_blocks_low get32_put32 put_blocks_get sint_of_int32)

section \<open>Where the blocks are\<close>

definition ldev :: "'z lstate_scheme \<Rightarrow> uint32" where "ldev s = of_int (log_dev s)"
definition hdr :: "'z lstate_scheme \<Rightarrow> uint32" where "hdr s = of_int (log_start s)"
definition lblk :: "'z lstate_scheme \<Rightarrow> nat \<Rightarrow> uint32" where "lblk s i = of_int (log_start s + int i + 1)"
definition hblk :: "'z lstate_scheme \<Rightarrow> nat \<Rightarrow> uint32" where "hblk s i = of_int (lh_block s ! i)"

text \<open>The first \<open>n\<close> blocks of the log, their homes and the header are different blocks of the disk.\<close>

definition geom :: "'z lstate_scheme \<Rightarrow> nat \<Rightarrow> bool" where
  "geom s n \<longleftrightarrow> 0 \<le> log_start s \<and> log_start s + int n + 1 < 2 ^ 31 \<and> n \<le> LOGSIZE \<and> n \<le> length (lh_block s) \<and>
     (\<forall>i<n. 0 \<le> lh_block s ! i \<and> lh_block s ! i < 2 ^ 31) \<and> inj_on (hblk s) {..<n} \<and>
     (\<forall>i<n. hblk s i \<noteq> hdr s \<and> (\<forall>j<n. hblk s i \<noteq> lblk s j))"

lemma of_int_less31: "0 \<le> x \<Longrightarrow> x < 2 ^ 31 \<Longrightarrow> (of_int x :: uint32) < 2 ^ 31"
  by (simp add: word_less_def uint_word_of_int)

lemma of_int_inj31:
  assumes "0 \<le> x" and "x < 2 ^ 31" and "0 \<le> y" and "y < 2 ^ 31" and "(of_int x :: uint32) = of_int y"
  shows "x = y"
proof -
  have "x = sint (of_int x :: uint32)" using assms(1,2) by (intro sint_of_int32 [symmetric]) simp_all
  also have "\<dots> = sint (of_int y :: uint32)" by (rule arg_cong [OF assms(5)])
  also have "\<dots> = y" using assms(3,4) by (intro sint_of_int32) simp_all
  finally show ?thesis .
qed

lemma geomD:
  assumes "geom s n"
  shows "hdr s < 2 ^ 31" and "i < n \<Longrightarrow> lblk s i < 2 ^ 31" and "i < n \<Longrightarrow> hblk s i < 2 ^ 31"
    and "i < n \<Longrightarrow> lblk s i \<noteq> hdr s" and "i < n \<Longrightarrow> j < n \<Longrightarrow> lblk s i = lblk s j \<longleftrightarrow> i = j"
    and "i < n \<Longrightarrow> j < n \<Longrightarrow> hblk s i = hblk s j \<longleftrightarrow> i = j" and "i < n \<Longrightarrow> hblk s i \<noteq> hdr s" and "i < n \<Longrightarrow> j < n \<Longrightarrow> hblk s i \<noteq> lblk s j"
    and "i < n \<Longrightarrow> log_block i s = Ret (lh_block s ! i) s"
proof -
  note g = assms [unfolded geom_def]
  have st: "0 \<le> log_start s" "log_start s + int n + 1 < 2 ^ 31" using g by blast+
  show "hdr s < 2 ^ 31" unfolding hdr_def by (rule of_int_less31) (use st in auto)
  show "lblk s i < 2 ^ 31" if "i < n" unfolding lblk_def by (rule of_int_less31) (use st that in auto)
  show "hblk s i < 2 ^ 31" if "i < n" unfolding hblk_def by (rule of_int_less31) (use g that in blast)+
  show "lblk s i \<noteq> hdr s" if "i < n"
    unfolding lblk_def hdr_def using of_int_inj31 [of "log_start s + int i + 1" "log_start s"] st that by linarith
  show "lblk s i = lblk s j \<longleftrightarrow> i = j" if "i < n" "j < n"
    unfolding lblk_def using of_int_inj31 [of "log_start s + int i + 1" "log_start s + int j + 1"] st that by fastforce
  show "hblk s i = hblk s j \<longleftrightarrow> i = j" if "i < n" "j < n" using g that by (auto dest: inj_onD)
  show "hblk s i \<noteq> hdr s" if "i < n" using g that by blast
  show "hblk s i \<noteq> lblk s j" if "i < n" "j < n" using g that by blast
  show "log_block i s = Ret (lh_block s ! i) s" if "i < n" using g that by (simp add: log_block_def monad_simps)
qed

lemma bc_only_log:
  assumes "bc_only s t"
  shows "log_start t = log_start s" and "log_dev t = log_dev s" and "lh_n t = lh_n s" and "lh_block t = lh_block s"
    and "log_size t = log_size s" and "log_outstanding t = log_outstanding s" and "log_committing t = log_committing s"
  using assms by (auto simp: bc_only_def)

lemma bc_only_blocks:
  assumes "bc_only s t"
  shows "ldev t = ldev s" and "hdr t = hdr s" and "lblk t = lblk s" and "hblk t = hblk s" and "geom t n = geom s n"
proof -
  show "ldev t = ldev s" "hdr t = hdr s" and l: "lblk t = lblk s" and h: "hblk t = hblk s"
    by (auto simp: ldev_def hdr_def lblk_def hblk_def bc_only_log [OF assms])
  then show "geom t n = geom s n" by (simp add: geom_def bc_only_log [OF assms])
qed

lemma bc_only_refl: "good dev s \<Longrightarrow> bc_only s s"
  by (rule bc_onlyI) (simp_all add: goodD)

section \<open>Steps\<close>

lemma runsE: "runs f s P \<Longrightarrow> (\<And>a t. f s = Ret a t \<Longrightarrow> P a t \<Longrightarrow> thesis) \<Longrightarrow> thesis"
  unfolding runs_def by blast

lemma handle_data:
  assumes "sees dev s v" and "handle dev s n b"
  shows "b_data (bufs s ! b) = v_content v n" and "length (v_content v n) = BSIZE"
proof -
  have g: "good dev s" using assms(1) by (simp add: sees_def)
  have "b < NBUF" using assms(2) holder_less by (auto simp: handle_def)
  moreover show d: "b_data (bufs s ! b) = v_content v n" 
  proof -
    have "v_content v n = content dev s n" using assms(1) by (simp add: sees_def)
    then show ?thesis using assms(2) by (simp add: handle_def content_def)
  qed
  ultimately show "length (v_content v n) = BSIZE" using bc_okD(2) [OF goodD(3) [OF g], of b] by simp
qed

lemma copy_view:
  assumes "sees dev s v" and "handle dev s x b" and "handle dev s y c" and "v_locked v y"
  shows "runs (copy_block c b) s (\<lambda>_ t. bc_only s t \<and> keeps_handles dev s t \<and> sees dev t (v\<lparr>v_content := (v_content v)(y := v_content v x)\<rparr>))"
  using set_data_view [OF assms(1,3,4), of "v_content v x"] handle_data [OF assms(1,2)]
  by (auto simp: copy_block_def runs_def run_bnd get_buf_def run_gets)

lemma keepsD: "keeps_handles dev s t \<Longrightarrow> handle dev s n b \<Longrightarrow> sees dev s v \<Longrightarrow> v_refs v n \<noteq> 0 \<Longrightarrow> handle dev t n b"
  unfolding keeps_handles_def sees_def by auto

lemma used_step: "v_used (v\<lparr>v_refs := (v_refs v)(n := k)\<rparr>) \<le> Suc (v_used v)"
proof -
  have "{m. v_refs (v\<lparr>v_refs := (v_refs v)(n := k)\<rparr>) m \<noteq> 0} \<subseteq> insert n {m. v_refs v m \<noteq> 0}" by auto
  then have "v_used (v\<lparr>v_refs := (v_refs v)(n := k)\<rparr>) \<le> card (insert n {m. v_refs v m \<noteq> 0})" unfolding v_used_def by (intro card_mono) auto
  also have "\<dots> \<le> Suc (v_used v)" unfolding v_used_def by (rule card_insert_le_m1) auto
  finally show ?thesis .
qed

text \<open>Two blocks are read, the second after the first, both unlocked and with room for another reference.\<close>

lemma bread2_view:
  assumes s: "sees dev s v" and xy: "x \<noteq> y" "x < 2 ^ 31" "y < 2 ^ 31" "\<not> v_locked v x" "\<not> v_locked v y"
    and r: "v_refs v x < 2 ^ 32 - 1" "v_refs v y < 2 ^ 32 - 1"
    and room: "v_used v < NBUF" "v_refs v y \<noteq> 0 \<or> v_used v + 1 < NBUF"
  shows "runs (bread dev x) s (\<lambda>b t. bc_only s t \<and> runs (bread dev y) t (\<lambda>c u. bc_only s u \<and> handle dev u x b \<and> handle dev u y c \<and>
    sees dev u (v\<lparr>v_refs := (v_refs v)(x := v_refs v x + 1, y := v_refs v y + 1), v_locked := (v_locked v)(x := True, y := True)\<rparr>)))"
proof (rule runs_mono [OF bread_view [OF s xy(2,4) r(1) disjI2 [OF room(1)]]])
  fix b t
  let ?v = "v\<lparr>v_refs := (v_refs v)(x := v_refs v x + 1), v_locked := (v_locked v)(x := True)\<rparr>"
  assume t: "bc_only s t \<and> keeps_handles dev s t \<and> handle dev t x b \<and> sees dev t ?v"
  have "v_used ?v = v_used (v\<lparr>v_refs := (v_refs v)(x := v_refs v x + 1)\<rparr>)" by (simp add: v_used_def)
  then have "v_used ?v \<le> Suc (v_used v)" using used_step [of v x "v_refs v x + 1"] by simp
  then have room2: "v_refs ?v y \<noteq> 0 \<or> v_used ?v < NBUF" using room(2) xy(1) by auto
  have y: "\<not> v_locked ?v y" "v_refs ?v y < 2 ^ 32 - 1" using xy r(2) by simp_all
  have "runs (bread dev y) t (\<lambda>c u. bc_only s u \<and> handle dev u x b \<and> handle dev u y c \<and>
    sees dev u (v\<lparr>v_refs := (v_refs v)(x := v_refs v x + 1, y := v_refs v y + 1), v_locked := (v_locked v)(x := True, y := True)\<rparr>))"
  proof (rule runs_mono [OF bread_view [OF _ xy(3) y room2]])
    fix c u
    assume u: "bc_only t u \<and> keeps_handles dev t u \<and> handle dev u y c \<and>
      sees dev u (?v\<lparr>v_refs := (v_refs ?v)(y := v_refs ?v y + 1), v_locked := (v_locked ?v)(y := True)\<rparr>)"
    have "bc_only s u" using t u bc_only_trans by blast
    moreover have "handle dev u x b" using t u keepsD [of dev t u x b ?v] by simp
    ultimately show "bc_only s u \<and> handle dev u x b \<and> handle dev u y c \<and>
      sees dev u (v\<lparr>v_refs := (v_refs v)(x := v_refs v x + 1, y := v_refs v y + 1), v_locked := (v_locked v)(x := True, y := True)\<rparr>)"
      using u xy(1) by simp
  qed (use t in blast)
  then show "bc_only s t \<and> runs (bread dev y) t (\<lambda>c u. bc_only s u \<and> handle dev u x b \<and> handle dev u y c \<and>
    sees dev u (v\<lparr>v_refs := (v_refs v)(x := v_refs v x + 1, y := v_refs v y + 1), v_locked := (v_locked v)(x := True, y := True)\<rparr>))"
    using t by blast
qed

text \<open>The source \<open>x\<close> is copied to \<open>y\<close> and \<open>y\<close> written.\<close>

lemma copy_write_view:
  assumes s: "sees dev s v" and h: "handle dev s x b" "handle dev s y c" "v_locked v y" "v_refs v x \<noteq> 0" "v_refs v y \<noteq> 0"
  shows "runs (thn (copy_block c b) (bwrite c)) s (\<lambda>_ t. bc_only s t \<and> handle dev t x b \<and> handle dev t y c \<and>
    sees dev t (v\<lparr>v_content := (v_content v)(y := v_content v x), v_disk := (v_disk v)(y := v_content v x)\<rparr>))"
proof (rule runs_thn, rule runs_mono [OF copy_view [OF s h(1-3)]])
  fix a t
  let ?v = "v\<lparr>v_content := (v_content v)(y := v_content v x)\<rparr>"
  assume t: "bc_only s t \<and> keeps_handles dev s t \<and> sees dev t ?v"
  have ht: "handle dev t x b" "handle dev t y c" using t h s by (auto intro: keepsD)
  show "runs (bwrite c) t (\<lambda>_ t. bc_only s t \<and> handle dev t x b \<and> handle dev t y c \<and>
    sees dev t (v\<lparr>v_content := (v_content v)(y := v_content v x), v_disk := (v_disk v)(y := v_content v x)\<rparr>))"
  proof (rule runs_mono [OF bwrite_view [of dev t ?v, OF _ ht(2)]])
    fix a u
    assume u: "bc_only t u \<and> keeps_handles dev t u \<and> sees dev u (?v\<lparr>v_disk := (v_disk ?v)(y := v_content ?v y)\<rparr>)"
    have "handle dev u x b" "handle dev u y c" using t u ht h(4,5) keepsD [of dev t u _ _ ?v] by auto
    then show "bc_only s u \<and> handle dev u x b \<and> handle dev u y c \<and>
      sees dev u (v\<lparr>v_content := (v_content v)(y := v_content v x), v_disk := (v_disk v)(y := v_content v x)\<rparr>)"
      using u t bc_only_trans by auto
  qed (use t h(3) in auto)
qed

text \<open>Two locked blocks are released.\<close>

lemma brelse2_view:
  assumes s: "sees dev s v" and h: "handle dev s x b" "handle dev s y c" "v_locked v x" "v_locked v y" "x \<noteq> y" "v_refs v x \<noteq> 0" "v_refs v y \<noteq> 0"
    and clean: "v_refs v x = 1 \<Longrightarrow> v_content v x = v_disk v x" "v_refs v y = 1 \<Longrightarrow> v_content v y = v_disk v y"
  shows "runs (thn (brelse b) (brelse c)) s (\<lambda>_ t. bc_only s t \<and>
    sees dev t (v\<lparr>v_refs := (v_refs v)(x := v_refs v x - 1, y := v_refs v y - 1), v_locked := (v_locked v)(x := False, y := False)\<rparr>))"
proof (rule runs_thn, rule runs_mono [OF brelse_view [OF s h(1,3) clean(1)]])
  fix a t
  let ?v = "v\<lparr>v_refs := (v_refs v)(x := v_refs v x - 1), v_locked := (v_locked v)(x := False)\<rparr>"
  assume t: "bc_only s t \<and> keeps_handles dev s t \<and> sees dev t ?v"
  have ht: "handle dev t y c" using t h s by (auto intro: keepsD)
  show "runs (brelse c) t (\<lambda>_ t. bc_only s t \<and>
    sees dev t (v\<lparr>v_refs := (v_refs v)(x := v_refs v x - 1, y := v_refs v y - 1), v_locked := (v_locked v)(x := False, y := False)\<rparr>))"
    by (rule runs_mono [OF brelse_view [of dev t ?v, OF _ ht]]) (use t h clean(2) bc_only_trans in auto)
qed simp

lemma runs_assoc: "runs (thn f g) s (\<lambda>_ t. runs h t P) \<Longrightarrow> runs (thn f (thn g h)) s P"
  unfolding runs_def by (auto simp: thn_Ret_iff)

lemma runs_eq: "f s = g s \<Longrightarrow> runs g s P \<Longrightarrow> runs f s P"
  by (simp add: runs_def)

lemma bread_log_eq: "bread_log i s = bread (ldev s) (lblk s i) s"
  by (simp add: bread_log_def monad_simps ldev_def lblk_def)

lemma bread_home_eq: "geom s n \<Longrightarrow> i < n \<Longrightarrow> bread_home i s = bread (ldev s) (hblk s i) s"
  by (simp add: bread_home_def monad_simps geomD(9) ldev_def hblk_def)

lemma bread_head_eq: "bread_head s = bread (ldev s) (hdr s) s"
  by (simp add: bread_head_def monad_simps ldev_def hdr_def)

text \<open>Log block and home of entry \<open>i\<close>, both unlocked, with buffers to read them into.\<close>

definition entry_ready :: "'z lstate_scheme \<Rightarrow> bview \<Rightarrow> nat \<Rightarrow> bool" where
  "entry_ready s v i \<longleftrightarrow> \<not> v_locked v (lblk s i) \<and> \<not> v_locked v (hblk s i) \<and> v_refs v (lblk s i) < 2 ^ 32 - 1 \<and>
     v_refs v (hblk s i) < 2 ^ 32 - 1 \<and> v_used v < NBUF \<and> (v_refs v (hblk s i) \<noteq> 0 \<or> v_used v + 1 < NBUF)"

lemma bread_entry_view:
  assumes s: "sees (ldev s) s v" and g: "geom s n" "i < n" and r: "entry_ready s v i"
    and rest: "\<And>b c u. bc_only s u \<Longrightarrow> handle (ldev s) u (lblk s i) b \<Longrightarrow> handle (ldev s) u (hblk s i) c \<Longrightarrow>
      sees (ldev s) u (v\<lparr>v_refs := (v_refs v)(lblk s i := v_refs v (lblk s i) + 1, hblk s i := v_refs v (hblk s i) + 1),
        v_locked := (v_locked v)(lblk s i := True, hblk s i := True)\<rparr>) \<Longrightarrow> runs (f b c) u P"
  shows "runs (bnd (bread_log i) (\<lambda>b. bnd (bread_home i) (f b))) s P"
proof -
  note d = geomD [OF g(1)] and r = r [unfolded entry_ready_def]
  have "lblk s i \<noteq> hblk s i" using d(8) g(2) by metis
  from bread2_view [OF s this d(2,3)] have b: "runs (bread (ldev s) (lblk s i)) s (\<lambda>b t. bc_only s t \<and> runs (bread (ldev s) (hblk s i)) t
      (\<lambda>c u. bc_only s u \<and> handle (ldev s) u (lblk s i) b \<and> handle (ldev s) u (hblk s i) c \<and>
      sees (ldev s) u (v\<lparr>v_refs := (v_refs v)(lblk s i := v_refs v (lblk s i) + 1, hblk s i := v_refs v (hblk s i) + 1),
        v_locked := (v_locked v)(lblk s i := True, hblk s i := True)\<rparr>)))"
    using g(2) r by blast
  show ?thesis
  proof (rule runs_bnd, rule runs_eq [where g = "bread (ldev s) (lblk s i)"], rule bread_log_eq, rule runs_mono [OF b])
    fix b t
    assume t: "bc_only s t \<and> runs (bread (ldev s) (hblk s i)) t
      (\<lambda>c u. bc_only s u \<and> handle (ldev s) u (lblk s i) b \<and> handle (ldev s) u (hblk s i) c \<and>
      sees (ldev s) u (v\<lparr>v_refs := (v_refs v)(lblk s i := v_refs v (lblk s i) + 1, hblk s i := v_refs v (hblk s i) + 1),
        v_locked := (v_locked v)(lblk s i := True, hblk s i := True)\<rparr>))"
    then have e: "bread_home i t = bread (ldev s) (hblk s i) t"
      using bread_home_eq [of t n i] g bc_only_blocks(1,4) [of s t] bc_only_blocks(5) [of s t n] by simp
    show "runs (bnd (bread_home i) (f b)) t P"
      by (rule runs_bnd, rule runs_eq [of _ _ "bread (ldev s) (hblk s i)"], rule e, rule runs_mono [OF t [THEN conjunct2]]) (use rest in blast)
  qed
qed

lemma install_one_view:
  assumes s: "sees (ldev s) s v" and g: "geom s n" "i < n" and r: "entry_ready s v i"
    and pin: "rec \<or> v_refs v (hblk s i) \<noteq> 0" and clean: "v_content v (lblk s i) = v_disk v (lblk s i)"
  shows "runs (install_one rec i) s (\<lambda>_ t. bc_only s t \<and> sees (ldev s) t
    (v\<lparr>v_content := (v_content v)(hblk s i := v_content v (lblk s i)), v_disk := (v_disk v)(hblk s i := v_content v (lblk s i)),
       v_refs := (if rec then v_refs v else (v_refs v)(hblk s i := v_refs v (hblk s i) - 1))\<rparr>))"
  unfolding install_one_def
proof (rule bread_entry_view [OF s g r])
  fix b c u
  let ?x = "lblk s i" and ?y = "hblk s i" and ?d = "ldev s"
  let ?v = "v\<lparr>v_refs := (v_refs v)(?x := v_refs v ?x + 1, ?y := v_refs v ?y + 1), v_locked := (v_locked v)(?x := True, ?y := True)\<rparr>"
  assume u: "bc_only s u" "handle ?d u ?x b" "handle ?d u ?y c" "sees ?d u ?v"
  have ne: "?x \<noteq> ?y" using geomD(8) [OF g(1), of i i] g(2) by metis
  show "runs (thn (copy_block c b) (thn (bwrite c) (thn (if \<not> rec then bunpin c else ret ()) (thn (brelse b) (brelse c))))) u
    (\<lambda>_ t. bc_only s t \<and> sees ?d t (v\<lparr>v_content := (v_content v)(?y := v_content v ?x), v_disk := (v_disk v)(?y := v_content v ?x),
       v_refs := (if rec then v_refs v else (v_refs v)(?y := v_refs v ?y - 1))\<rparr>))"
  proof (rule runs_assoc, rule runs_mono [OF copy_write_view [OF u(4,2,3)]])
    fix a t
    let ?w = "?v\<lparr>v_content := (v_content ?v)(?y := v_content ?v ?x), v_disk := (v_disk ?v)(?y := v_content ?v ?x)\<rparr>"
    assume t: "bc_only u t \<and> handle ?d t ?x b \<and> handle ?d t ?y c \<and> sees ?d t ?w"
    let ?z = "?w\<lparr>v_refs := (if rec then v_refs ?w else (v_refs ?w)(?y := v_refs v ?y))\<rparr>"
    have p: "runs (if \<not> rec then bunpin c else ret ()) t (\<lambda>_ t'. bc_only t t' \<and> handle ?d t' ?x b \<and> handle ?d t' ?y c \<and> sees ?d t' ?z)"
    proof (cases rec)
      case True
      then show ?thesis using t bc_only_refl [of ?d t] by (simp add: sees_def)
    next
      case False
      then have "runs (bunpin c) t (\<lambda>_ t'. bc_only t t' \<and> keeps_handles ?d t t' \<and> sees ?d t' (?w\<lparr>v_refs := (v_refs ?w)(?y := v_refs ?w ?y - 1)\<rparr>))"
        using t pin by (intro bunpin_view) auto
      then show ?thesis using False t keepsD [of ?d t _ _ _ ?w] by (auto elim!: runs_mono)
    qed
    show "runs (thn (if \<not> rec then bunpin c else ret ()) (thn (brelse b) (brelse c))) t (\<lambda>_ t. bc_only s t \<and> sees ?d t
       (v\<lparr>v_content := (v_content v)(?y := v_content v ?x), v_disk := (v_disk v)(?y := v_content v ?x),
       v_refs := (if rec then v_refs v else (v_refs v)(?y := v_refs v ?y - 1))\<rparr>))"
    proof (rule runs_thn, rule runs_mono [OF p])
      fix a t' assume t': "bc_only t t' \<and> handle ?d t' ?x b \<and> handle ?d t' ?y c \<and> sees ?d t' ?z"
      let ?r = "v\<lparr>v_content := (v_content v)(?y := v_content v ?x), v_disk := (v_disk v)(?y := v_content v ?x),
         v_refs := (if rec then v_refs v else (v_refs v)(?y := v_refs v ?y - 1))\<rparr>"
      have e: "?z\<lparr>v_refs := (v_refs ?z)(?x := v_refs ?z ?x - 1, ?y := v_refs ?z ?y - 1), v_locked := (v_locked ?z)(?x := False, ?y := False)\<rparr> = ?r"
        by (rule bview.equality) (use ne r in \<open>auto simp: fun_eq_iff entry_ready_def\<close>)
      have "runs (thn (brelse b) (brelse c)) t' (\<lambda>_ w. bc_only t' w \<and>
          sees ?d w (?z\<lparr>v_refs := (v_refs ?z)(?x := v_refs ?z ?x - 1, ?y := v_refs ?z ?y - 1), v_locked := (v_locked ?z)(?x := False, ?y := False)\<rparr>))"
        by (rule brelse2_view) (use t' ne pin clean in auto)
      then show "runs (thn (brelse b) (brelse c)) t' (\<lambda>_ t. bc_only s t \<and> sees ?d t ?r)"
        unfolding e using u(1) t t' bc_only_trans by (elim runs_mono) blast
    qed
  qed (use ne in auto)
qed

lemma write_log_one_view:
  assumes s: "sees (ldev s) s v" and g: "geom s n" "i < n" and r: "entry_ready s v i" and pin: "v_refs v (hblk s i) \<noteq> 0"
  shows "runs (write_log_one i) s (\<lambda>_ t. bc_only s t \<and> sees (ldev s) t
    (v\<lparr>v_content := (v_content v)(lblk s i := v_content v (hblk s i)), v_disk := (v_disk v)(lblk s i := v_content v (hblk s i))\<rparr>))"
  unfolding write_log_one_def
proof (rule bread_entry_view [OF s g r])
  fix b c u
  let ?x = "lblk s i" and ?y = "hblk s i" and ?d = "ldev s"
  let ?v = "v\<lparr>v_refs := (v_refs v)(?x := v_refs v ?x + 1, ?y := v_refs v ?y + 1), v_locked := (v_locked v)(?x := True, ?y := True)\<rparr>"
  let ?r = "v\<lparr>v_content := (v_content v)(?x := v_content v ?y), v_disk := (v_disk v)(?x := v_content v ?y)\<rparr>"
  assume u: "bc_only s u" "handle ?d u ?x b" "handle ?d u ?y c" "sees ?d u ?v"
  have ne: "?x \<noteq> ?y" using geomD(8) [OF g(1), of i i] g(2) by metis
  show "runs (thn (copy_block b c) (thn (bwrite b) (thn (brelse c) (brelse b)))) u (\<lambda>_ t. bc_only s t \<and> sees ?d t ?r)"
  proof (rule runs_assoc, rule runs_mono [OF copy_write_view [OF u(4,3,2)]])
    fix a t
    let ?w = "?v\<lparr>v_content := (v_content ?v)(?x := v_content ?v ?y), v_disk := (v_disk ?v)(?x := v_content ?v ?y)\<rparr>"
    assume t: "bc_only u t \<and> handle ?d t ?y c \<and> handle ?d t ?x b \<and> sees ?d t ?w"
    have e: "?w\<lparr>v_refs := (v_refs ?w)(?y := v_refs ?w ?y - 1, ?x := v_refs ?w ?x - 1), v_locked := (v_locked ?w)(?y := False, ?x := False)\<rparr> = ?r"
      by (rule bview.equality) (use ne r in \<open>auto simp: fun_eq_iff entry_ready_def\<close>)
    have "runs (thn (brelse c) (brelse b)) t (\<lambda>_ w. bc_only t w \<and>
        sees ?d w (?w\<lparr>v_refs := (v_refs ?w)(?y := v_refs ?w ?y - 1, ?x := v_refs ?w ?x - 1), v_locked := (v_locked ?w)(?y := False, ?x := False)\<rparr>))"
      by (rule brelse2_view) (use t ne pin in auto)
    then show "runs (thn (brelse c) (brelse b)) t (\<lambda>_ t. bc_only s t \<and> sees ?d t ?r)"
      unfolding e using u(1) t bc_only_trans by (elim runs_mono) blast
  qed (use ne in auto)
qed

text \<open>The header.\<close>

lemma edit_data_view:
  assumes s: "sees dev s v" and h: "handle dev s n b" "v_locked v n" and len: "length (g (v_content v n)) = BSIZE"
  shows "runs (set_buf b (\<lambda>x. x\<lparr>b_data := g (b_data x)\<rparr>)) s (\<lambda>_ t. bc_only s t \<and> keeps_handles dev s t \<and>
    sees dev t (v\<lparr>v_content := (v_content v)(n := g (v_content v n))\<rparr>))"
  by (rule runs_eq [of _ _ "set_buf b (\<lambda>x. x\<lparr>b_data := g (v_content v n)\<rparr>)"])
    (use set_data_view [OF s h len] handle_data(1) [OF s h(1)] in \<open>simp_all add: set_buf_def monad_simps\<close>)

lemma put_blocks_view:
  assumes s: "sees dev s v" and h: "handle dev s h b" "v_locked v h" "v_refs v h \<noteq> 0" and g: "geom s n" "k \<le> n"
  shows "runs (for_each [0..<k] (\<lambda>i. bnd (log_block i) (\<lambda>bn. set_buf b (\<lambda>x. x\<lparr>b_data := put32 (b_data x) (4 + 4 * i) (of_int bn)\<rparr>)))) s
    (\<lambda>_ t. bc_only s t \<and> handle dev t h b \<and> sees dev t (v\<lparr>v_content := (v_content v)(h := put_blocks k (lh_block s) (v_content v h))\<rparr>))"
proof (rule runs_for_each)
  have "v\<lparr>v_content := (v_content v)(h := v_content v h)\<rparr> = v" by simp
  then show "bc_only s s \<and> handle dev s h b \<and> sees dev s (v\<lparr>v_content := (v_content v)(h := put_blocks 0 (lh_block s) (v_content v h))\<rparr>)"
    using s h(1) bc_only_refl [of dev s] by (simp add: sees_def)
next
  fix i t
  let ?v = "\<lambda>i. v\<lparr>v_content := (v_content v)(h := put_blocks i (lh_block s) (v_content v h))\<rparr>"
  assume i: "i < k" and t: "bc_only s t \<and> handle dev t h b \<and> sees dev t (?v i)"
  have gt: "geom t n" "i < n" "lh_block t = lh_block s" using g i bc_only_blocks(5) [of s t n] bc_only_log(4) [of s t] t by auto
  have len: "length (put32 (v_content (?v i) h) (4 + 4 * i) (of_int (lh_block s ! i))) = BSIZE"
    using handle_data(2) [OF s h(1)] by simp
  have "runs (set_buf b (\<lambda>x. x\<lparr>b_data := put32 (b_data x) (4 + 4 * i) (of_int (lh_block s ! i))\<rparr>)) t
      (\<lambda>_ u. bc_only t u \<and> keeps_handles dev t u \<and>
        sees dev u ((?v i)\<lparr>v_content := (v_content (?v i))(h := put32 (v_content (?v i) h) (4 + 4 * i) (of_int (lh_block s ! i)))\<rparr>))"
    by (rule edit_data_view [where g = "\<lambda>d. put32 d (4 + 4 * i) (of_int (lh_block s ! i))", OF _ _ _ len]) (use t h in auto)
  then have "runs (set_buf b (\<lambda>x. x\<lparr>b_data := put32 (b_data x) (4 + 4 * i) (of_int (lh_block s ! i))\<rparr>)) t
      (\<lambda>_ u. bc_only s u \<and> handle dev u h b \<and> sees dev u (?v (Suc i)))"
    using t h(3) bc_only_trans keepsD [of dev t _ h b "?v i"] by (elim runs_mono) auto
  then show "runs (bnd (log_block i) (\<lambda>bn. set_buf b (\<lambda>x. x\<lparr>b_data := put32 (b_data x) (4 + 4 * i) (of_int bn)\<rparr>))) t
      (\<lambda>_ u. bc_only s u \<and> handle dev u h b \<and> sees dev u (?v (Suc i)))"
    using geomD(9) [OF gt(1,2)] gt(3) by (simp add: runs_def run_bnd)
qed

lemma write_head_view:
  assumes s: "sees (ldev s) s v" and g: "geom s (nat (lh_n s))"
    and r: "\<not> v_locked v (hdr s)" "v_refs v (hdr s) < 2 ^ 32 - 1" "v_used v < NBUF"
  shows "runs write_head s (\<lambda>_ t. bc_only s t \<and> sees (ldev s) t
    (v\<lparr>v_content := (v_content v)(hdr s := put_head (lh_n s) (lh_block s) (v_content v (hdr s))),
       v_disk := (v_disk v)(hdr s := put_head (lh_n s) (lh_block s) (v_content v (hdr s)))\<rparr>))"
  unfolding write_head_def
proof (rule runs_bnd, rule runs_eq [where g = "bread (ldev s) (hdr s)"], rule bread_head_eq,
    rule runs_mono [OF bread_view [OF s geomD(1) [OF g] r(1,2) disjI2 [OF r(3)]]])
  fix b t
  let ?h = "hdr s" and ?d = "ldev s" and ?n = "lh_n s" and ?bl = "lh_block s"
  let ?v = "v\<lparr>v_refs := (v_refs v)(?h := v_refs v ?h + 1), v_locked := (v_locked v)(?h := True)\<rparr>"
  let ?c = "put_head ?n ?bl (v_content v ?h)"
  let ?r = "v\<lparr>v_content := (v_content v)(?h := ?c), v_disk := (v_disk v)(?h := ?c)\<rparr>"
  assume t: "bc_only s t \<and> keeps_handles ?d s t \<and> handle ?d t ?h b \<and> sees ?d t ?v"
  let ?l = "for_each [0..<nat ?n] (\<lambda>i. bnd (log_block i) (\<lambda>bn. set_buf b (\<lambda>x. x\<lparr>b_data := put32 (b_data x) (4 + 4 * i) (of_int bn)\<rparr>)))"
  have len: "length (put32 (v_content ?v ?h) 0 (of_int ?n)) = BSIZE" using handle_data(2) [of ?d t ?v ?h b] t by simp
  have "runs (set_buf b (\<lambda>x. x\<lparr>b_data := put32 (b_data x) 0 (of_int ?n)\<rparr>)) t (\<lambda>_ u. bc_only t u \<and> keeps_handles ?d t u \<and>
      sees ?d u (?v\<lparr>v_content := (v_content ?v)(?h := put32 (v_content ?v ?h) 0 (of_int ?n))\<rparr>))" (is "runs _ _ (\<lambda>_ u. _ \<and> _ \<and> sees _ u ?v1)")
    by (rule edit_data_view [where g = "\<lambda>d. put32 d 0 (of_int ?n)", OF _ _ _ len]) (use t in auto)
  then have 1: "runs (set_buf b (\<lambda>x. x\<lparr>b_data := put32 (b_data x) 0 (of_int ?n)\<rparr>)) t (\<lambda>_ u. bc_only s u \<and> handle ?d u ?h b \<and> sees ?d u ?v1)"
    using t bc_only_trans keepsD [of ?d t _ ?h b ?v] by (elim runs_mono) auto
  let ?v2 = "?v1\<lparr>v_content := (v_content v)(?h := ?c)\<rparr>"
  have 2: "runs ?l u (\<lambda>_ w. bc_only s w \<and> handle ?d w ?h b \<and> sees ?d w ?v2)"
    if u: "bc_only s u \<and> handle ?d u ?h b \<and> sees ?d u ?v1" for u
  proof -
    have "geom u (nat ?n)" "lh_block u = ?bl" using g u bc_only_blocks(5) [of s u] bc_only_log(4) [of s u] by auto
    then have "runs ?l u (\<lambda>_ w. bc_only u w \<and> handle ?d w ?h b \<and>
        sees ?d w (?v1\<lparr>v_content := (v_content ?v1)(?h := put_blocks (nat ?n) ?bl (v_content ?v1 ?h))\<rparr>))"
      using put_blocks_view [of ?d u ?v1 ?h b "nat ?n" "nat ?n"] u by simp
    then show ?thesis using u bc_only_trans by (elim runs_mono) (auto simp: put_head_def)
  qed
  have 3: "runs (bwrite b) w (\<lambda>_ x. bc_only s x \<and> handle ?d x ?h b \<and> sees ?d x (?v2\<lparr>v_disk := (v_disk v)(?h := ?c)\<rparr>))"
    if w: "bc_only s w \<and> handle ?d w ?h b \<and> sees ?d w ?v2" for w
    by (rule runs_mono [OF bwrite_view [of ?d w ?v2 ?h b]]) (use w bc_only_trans keepsD [of ?d w _ ?h b ?v2] in auto)
  have e: "?v2\<lparr>v_disk := (v_disk v)(?h := ?c), v_refs := (v_refs ?v2)(?h := v_refs ?v2 ?h - 1), v_locked := (v_locked ?v2)(?h := False)\<rparr> = ?r"
    by (rule bview.equality) (use r in \<open>auto simp: fun_eq_iff\<close>)
  have 4: "runs (brelse b) x (\<lambda>_ y. bc_only s y \<and> sees ?d y ?r)"
    if x: "bc_only s x \<and> handle ?d x ?h b \<and> sees ?d x (?v2\<lparr>v_disk := (v_disk v)(?h := ?c)\<rparr>)" for x
    by (rule runs_mono [OF brelse_view [of ?d x "?v2\<lparr>v_disk := (v_disk v)(?h := ?c)\<rparr>" ?h b]]) (use x e bc_only_trans in auto)
  have "runs (thn (set_buf b (\<lambda>x. x\<lparr>b_data := put32 (b_data x) 0 (of_int ?n)\<rparr>)) (thn ?l (thn (bwrite b) (brelse b)))) t (\<lambda>_ y. bc_only s y \<and> sees ?d y ?r)"
    by (rule runs_thn, rule runs_mono [OF 1], rule runs_thn, rule runs_mono [OF 2], assumption,
        rule runs_thn, rule runs_mono [OF 3], assumption, rule 4, assumption)
  then show "runs (bnd (gets lh_n) (\<lambda>n. thn (set_buf b (\<lambda>x. x\<lparr>b_data := put32 (b_data x) 0 (of_int n)\<rparr>))
      (thn (for_each [0..<nat n] (\<lambda>i. bnd (log_block i) (\<lambda>bn. set_buf b (\<lambda>x. x\<lparr>b_data := put32 (b_data x) (4 + 4 * i) (of_int bn)\<rparr>))))
      (thn (bwrite b) (brelse b))))) t (\<lambda>_ y. bc_only s y \<and> sees ?d y ?r)"
    using t bc_only_log(3) [of s t] by (simp add: runs_def run_bnd run_gets)
qed

end
