(* ===== verification/BioCache.thy ===== *)
theory BioCache
  imports BlockView
begin

text \<open>
  The cache as its clients see it: a read and a release together, with the order in which buffers are recycled, and an
  example cache in which the properties are evaluated.
\<close>

section \<open>An empty cache\<close>

definition zero_buf :: buf where
  "zero_buf = \<lparr>b_valid = 0, b_disk = 0, b_dev = 0, b_blockno = 0, b_refcnt = 0, b_data = replicate BSIZE 0\<rparr>"

definition boot_next :: "nat \<Rightarrow> nat" where "boot_next b = (if b = 0 then bhead else b - 1)"
definition boot_prev :: "nat \<Rightarrow> nat" where "boot_prev b = (if b = bhead then 0 else b + 1)"

lemma linked_boot: "linked boot_next boot_prev bhead (rev [0..<NBUF])"
  by (simp add: linked_def boot_next_def boot_prev_def bhead_def NBUF_def MAXOPBLOCKS_def upt_rec)

text \<open>The cache and the queue that the system boots with.\<close>

definition empty_cache :: "'z bstate_scheme \<Rightarrow> bool" where
  "empty_cache s \<longleftrightarrow> bufs s = replicate NBUF zero_buf \<and> bnext s = boot_next \<and> bprev s = boot_prev \<and>
     (\<forall>b. sl_free s (SlBuf b))"

lemma empty_cache_lru: "empty_cache s \<Longrightarrow> lru s (rev [0..<NBUF])"
  using linked_boot by (auto simp: lru_def empty_cache_def)

lemma empty_cache_good:
  assumes "empty_cache s" and "busy s" and "vq_ok s" and "dev \<noteq> 0"
  shows "good dev s" and "holder dev s n = None"
proof -
  have nth: "bufs s ! b = zero_buf" if "b < NBUF" for b using that assms(1) by (simp add: empty_cache_def)
  have "\<exists>xs. lru s xs" using empty_cache_lru [OF assms(1)] by blast
  moreover have "length (bufs s) = NBUF" using assms(1) by (simp add: empty_cache_def)
  ultimately have "bc_ok dev s"
    using assms(1,4) unfolding bc_ok_def by (simp add: nth zero_buf_def empty_cache_def)
  then show "good dev s" using assms(2,3) by (simp add: good_def)
  show "holder dev s n = None" using assms(4) by (simp add: holder_None nth holds_block_def zero_buf_def)
qed

text \<open>One process runs, and the disk is all zero.\<close>

definition cache0 :: bstate where
  "cache0 = vdstate.extend (slstate.extend (constate.extend console0 (slstate.fields (\<lambda>_. \<lparr>sl_locked = 0, sl_pid = 0\<rparr>)))
     (vdstate.fields (replicate NBUF zero_buf) (\<lambda>_. 0)
       (replicate NUM \<lparr>d_addr = DmaNull, d_len = 0, d_flags = 0, d_next = 0\<rparr>) (replicate NUM 0) 0 (replicate NUM 0) 0 (replicate NUM 1) 0
       (replicate NUM \<lparr>i_b = None, i_status = 0\<rparr>) (replicate NUM \<lparr>rq_type = 0, rq_reserved = 0, rq_sector = 0\<rparr>)))
     (bstate.fields boot_next boot_prev)"

lemma cache0_fields:
  "bufs cache0 = replicate NBUF zero_buf" "bnext cache0 = boot_next" "bprev cache0 = boot_prev" "image cache0 = (\<lambda>_. 0)"
  "sleeplocks cache0 = (\<lambda>_. \<lparr>sl_locked = 0, sl_pid = 0\<rparr>)" "held cache0 = []" "cur cache0 = Some 0" "length (procs cache0) = NPROC"
  "vq_ok cache0"
  by (simp_all add: cache0_def bstate.defs vdstate.defs slstate.defs constate.defs console0_def uartstate.defs pistate.defs small_pipes_def
      rstate.defs no_rings_def pstate.defs small_table_def vq_ok_def)

lemma cache0_ready: "empty_cache cache0" "busy cache0"
  by (simp_all add: cache0_fields empty_cache_def sl_free_def busy_def table_ok_def NPROC_def)

lemmas cache0_good = empty_cache_good [OF cache0_ready cache0_fields(9)]

section \<open>Reading and releasing\<close>

lemma unused_clean:
  assumes "good dev s" and "refs dev s n = 0"
  shows "content dev s n = disk s n"
proof (cases "holder dev s n")
  case (Some b)
  have ok: "bc_ok dev s" using assms(1) by (rule goodD(3))
  have b: "b < NBUF" "holds_block dev n (bufs s ! b)" using Some by (simp_all add: holder_iff [OF ok])
  moreover have "b_refcnt (bufs s ! b) = 0" using assms(2) Some by (simp add: refs_def unat_eq_zero)
  ultimately show ?thesis using bc_okD(6) [OF ok b(1)] Some by (simp add: content_def holds_block_def)
qed (simp add: content_def)

text \<open>C40: \<open>bread\<close> and \<open>brelse\<close> implement a cache with least-recently-used replacement.  The order of the buffers is the list that
  the links of \<open>bcache.head\<close> make.  Reading a block that is not locked returns a buffer with the block's content: the buffer
  that holds the block, or else the unused one that was released longest ago.  Releasing it moves the buffer to the front
  exactly when nobody else uses it.  Afterwards the content of every block, the disk, the counts and the locks are as before.\<close>

theorem bread_brelse_lru:
  assumes "good dev s" and "lru s xs" and "n < 2 ^ 31" and "\<not> locked dev s n" and "refs dev s n < 2 ^ 32 - 1"
    and "holder dev s n \<noteq> None \<or> (\<exists>b<NBUF. b_refcnt (bufs s ! b) = 0)"
  shows "\<exists>b t u. bread dev n s = Ret b t \<and> b_data (bufs t ! b) = content dev s n \<and>
    (if holder dev s n = None then victim s xs else holder dev s n) = Some b \<and>
    brelse b t = Ret () u \<and> lru u (if refs dev s n = 0 then b # remove1 b xs else xs) \<and> good dev u \<and>
    content dev u = content dev s \<and> disk u = disk s \<and> refs dev u = refs dev s \<and> locked dev u = locked dev s"
proof -
  obtain b t where t: "bread dev n s = Ret b t" "bstep dev s t" "handle dev t n b" "lru t xs"
      "(if holder dev s n = None then victim s xs else holder dev s n) = Some b"
      "content dev t = content dev s" "disk t = disk s" "refs dev t = (refs dev s)(n := refs dev s n + 1)"
      "locked dev t = (locked dev s)(n := True)"
    using bread_run [OF assms(1,3-6,2)] by blast
  have g: "good dev t" using t(2) by (simp add: bstep_def)
  have lk: "locks_block dev t n b" using t(3,9) by (simp add: locks_block_def)
  have "refs dev t n = 1 \<Longrightarrow> content dev t n = disk t n" using unused_clean [OF assms(1), of n] t(6-8) by simp
  from brelse_run [OF g lk this t(4)] obtain u where u: "brelse b t = Ret () u" "bstep dev t u" "content dev u = content dev t"
      "disk u = disk t" "refs dev u = (refs dev t)(n := refs dev t n - 1)" "locked dev u = (locked dev t)(n := False)"
      "lru u (if refs dev t n = 1 then b # remove1 b xs else xs)" by blast
  have "refs dev u = refs dev s" "locked dev u = locked dev s" using u(5,6) t(8,9) assms(4) by (auto simp: fun_eq_iff)
  moreover have "good dev u" using u(2) by (simp add: bstep_def)
  moreover have "lru u (if refs dev s n = 0 then b # remove1 b xs else xs)" using u(7) t(8) by simp
  ultimately show ?thesis using t(1,5-7) u(1,3,4) locks_blockD(5) [OF g lk] by auto
qed

theorem bread_brelse_lru_witness:
  "good 1 cache0 \<and> (\<exists>t u. bread 1 7 cache0 = Ret 0 t \<and> b_data (bufs t ! 0) = replicate BSIZE 0 \<and>
     brelse 0 t = Ret () u \<and> lru u (0 # rev [1..<NBUF]))"
proof -
  note g = cache0_good [of 1]
  let ?xs = "rev [0..<NBUF]"
  have h: "holder 1 cache0 n = None" for n using g(2) by simp
  have vic: "victim cache0 ?xs = Some 0" by (simp add: victim_def cache0_fields(1) NBUF_def MAXOPBLOCKS_def upt_rec zero_buf_def)
  have rm: "0 # remove1 0 ?xs = 0 # rev [1..<NBUF]" by (simp add: NBUF_def MAXOPBLOCKS_def upt_rec)
  have c: "content 1 cache0 7 = replicate BSIZE 0"
    using h by (simp add: content_def disk_def read_image_def cache0_fields map_replicate_const)
  have "\<exists>b<NBUF. b_refcnt (bufs cache0 ! b) = 0" by (rule exI [of _ 0]) (simp add: cache0_fields(1) zero_buf_def NBUF_def MAXOPBLOCKS_def)
  then show ?thesis
    using bread_brelse_lru [OF g(1) empty_cache_lru [OF cache0_ready(1)], of 7] h [of 7] g(1) vic rm c by (auto simp: locked_def refs_def)
qed

end
