(* ===== verification/LogCrash.thy ===== *)
theory LogCrash
  imports LogRun BioCache
begin

text \<open>
  Crashes.  \<open>commit\<close> writes the blocks of the transaction to the log, then the header, then the blocks to their homes,
  then an empty header.  Each of these is one write of a block.  Whichever was the last that reached the disk, recovery
  after the reboot leaves the blocks outside the log as they were before the transaction or as the transaction made them.
\<close>

section \<open>Copying blocks\<close>

text \<open>The blocks \<open>y i\<close> of \<open>f\<close> set to the blocks \<open>x i\<close> of \<open>c\<close>, for \<open>i < k\<close>.\<close>

primrec copied :: "(nat \<Rightarrow> uint32) \<Rightarrow> (nat \<Rightarrow> uint32) \<Rightarrow> nat \<Rightarrow> (uint32 \<Rightarrow> 'a) \<Rightarrow> (uint32 \<Rightarrow> 'a) \<Rightarrow> uint32 \<Rightarrow> 'a" where
  "copied x y 0 c f = f"
| "copied x y (Suc k) c f = (copied x y k c f)(y k := c (x k))"

lemma copied_out: "\<forall>i<k. m \<noteq> y i \<Longrightarrow> copied x y k c f m = f m"
  by (induction k) auto

lemma copied_in: "inj_on y {..<k} \<Longrightarrow> i < k \<Longrightarrow> copied x y k c f (y i) = c (x i)"
proof (induction k)
  case (Suc k)
  then have "inj_on y {..<k}" by (auto intro: inj_on_subset)
  moreover have "y i \<noteq> y k" if "i \<noteq> k" using Suc.prems that by (auto dest: inj_onD)
  ultimately show ?case using Suc by (cases "i = k") auto
qed simp

lemma copied_cong: "(\<And>i. i < k \<Longrightarrow> x i = x' i \<and> y i = y' i) \<Longrightarrow> copied x y k c f = copied x' y' k c f"
  by (induction k) auto

lemma geom_inj: "geom s n \<Longrightarrow> inj_on (lblk s) {..<n}" "geom s n \<Longrightarrow> inj_on (hblk s) {..<n}"
proof -
  show "inj_on (lblk s) {..<n}" if "geom s n" using geomD(5) [OF that] by (intro inj_onI) simp
  show "inj_on (hblk s) {..<n}" if "geom s n" using that by (simp add: geom_def)
qed

lemma geom_less: "geom s n \<Longrightarrow> k \<le> n \<Longrightarrow> geom s k"
  unfolding geom_def by (auto intro: inj_on_subset)

section \<open>The loops of commit and of recovery\<close>

text \<open>No block is locked, and there is a buffer to spare.\<close>

definition calm :: "bview \<Rightarrow> bool" where
  "calm v \<longleftrightarrow> (\<forall>m. \<not> v_locked v m) \<and> (\<forall>m. v_refs v m < 2 ^ 32 - 1) \<and> v_used v < NBUF"

lemma calm_ready: "calm v \<Longrightarrow> v_refs v (hblk s i) \<noteq> 0 \<or> v_used v + 1 < NBUF \<Longrightarrow> entry_ready s v i"
  by (simp add: calm_def entry_ready_def)

lemma write_log_view:
  assumes s: "sees (ldev s) s v" and g: "geom s n" "k \<le> n" and c: "calm v" and pin: "\<forall>i<n. v_refs v (hblk s i) \<noteq> 0"
  shows "runs (for_each [0..<k] write_log_one) s (\<lambda>_ t. bc_only s t \<and> sees (ldev s) t
    (v\<lparr>v_content := copied (hblk s) (lblk s) k (v_content v) (v_content v), v_disk := copied (hblk s) (lblk s) k (v_content v) (v_disk v)\<rparr>))"
proof (rule runs_for_each)
  show "bc_only s s \<and> sees (ldev s) s (v\<lparr>v_content := copied (hblk s) (lblk s) 0 (v_content v) (v_content v),
      v_disk := copied (hblk s) (lblk s) 0 (v_content v) (v_disk v)\<rparr>)"
    using s bc_only_refl [of "ldev s" s] by (simp add: sees_def)
next
  fix i t
  let ?v = "\<lambda>k. v\<lparr>v_content := copied (hblk s) (lblk s) k (v_content v) (v_content v), v_disk := copied (hblk s) (lblk s) k (v_content v) (v_disk v)\<rparr>"
  assume i: "i < k" and t: "bc_only s t \<and> sees (ldev s) t (?v i)"
  note e = bc_only_blocks(1-4) [of s t]
  have gt: "geom t n" "i < n" using g i bc_only_blocks(5) [of s t n] t by auto
  have "entry_ready t (?v i) i" using c pin gt(2) t e by (simp add: entry_ready_def calm_def v_used_def)
  then have "runs (write_log_one i) t (\<lambda>_ u. bc_only t u \<and> sees (ldev s) u
      ((?v i)\<lparr>v_content := (v_content (?v i))(lblk s i := v_content (?v i) (hblk s i)),
        v_disk := (v_disk (?v i))(lblk s i := v_content (?v i) (hblk s i))\<rparr>))"
    using write_log_one_view [of t "?v i" n i] gt t e pin by simp
  moreover have "v_content (?v i) (hblk s i) = v_content v (hblk s i)"
    using geomD(8) [OF g(1)] gt(2) i g(2) by (simp add: copied_out)
  ultimately show "runs (write_log_one i) t (\<lambda>_ u. bc_only s u \<and> sees (ldev s) u (?v (Suc i)))"
    using t bc_only_trans by (elim runs_mono) auto
qed

text \<open>The references after the first \<open>k\<close> blocks of the transaction have been installed and unpinned.\<close>

definition unpinned :: "(nat \<Rightarrow> uint32) \<Rightarrow> nat \<Rightarrow> (uint32 \<Rightarrow> nat) \<Rightarrow> uint32 \<Rightarrow> nat" where
  "unpinned y k r m = (if \<exists>i<k. m = y i then r m - 1 else r m)"

lemma unpinned_Suc: "inj_on y {..<Suc k} \<Longrightarrow> unpinned y (Suc k) r = (unpinned y k r)(y k := unpinned y k r (y k) - 1)"
  by (rule ext) (auto simp: unpinned_def less_Suc_eq dest: inj_onD)

lemma install_view:
  assumes s: "sees (ldev s) s v" and g: "geom s n" "k \<le> n" and c: "calm v"
    and pin: "if rec then v_used v + 1 < NBUF else \<forall>i<n. v_refs v (hblk s i) \<noteq> 0"
    and clean: "\<forall>i<n. v_content v (lblk s i) = v_disk v (lblk s i)"
  shows "runs (for_each [0..<k] (install_one rec)) s (\<lambda>_ t. bc_only s t \<and> sees (ldev s) t
    (v\<lparr>v_content := copied (lblk s) (hblk s) k (v_content v) (v_content v), v_disk := copied (lblk s) (hblk s) k (v_content v) (v_disk v),
       v_refs := (if rec then v_refs v else unpinned (hblk s) k (v_refs v))\<rparr>))"
proof (rule runs_for_each)
  have "unpinned (hblk s) 0 (v_refs v) = v_refs v" by (rule ext) (simp add: unpinned_def)
  then show "bc_only s s \<and> sees (ldev s) s (v\<lparr>v_content := copied (lblk s) (hblk s) 0 (v_content v) (v_content v),
      v_disk := copied (lblk s) (hblk s) 0 (v_content v) (v_disk v), v_refs := (if rec then v_refs v else unpinned (hblk s) 0 (v_refs v))\<rparr>)"
    using s bc_only_refl [of "ldev s" s] by (simp add: sees_def)
next
  fix i t
  let ?r = "\<lambda>k. if rec then v_refs v else unpinned (hblk s) k (v_refs v)"
  let ?v = "\<lambda>k. v\<lparr>v_content := copied (lblk s) (hblk s) k (v_content v) (v_content v),
    v_disk := copied (lblk s) (hblk s) k (v_content v) (v_disk v), v_refs := ?r k\<rparr>"
  assume i: "i < k" and t: "bc_only s t \<and> sees (ldev s) t (?v i)"
  note e' = bc_only_blocks(1-4) [OF t [THEN conjunct1]]
  have gt: "geom t n" "i < n" using g i bc_only_blocks(5) [of s t n] t by auto
  have le: "?r i m \<le> v_refs v m" for m by (simp add: unpinned_def)
  have "{m. ?r i m \<noteq> 0} \<subseteq> {m. v_refs v m \<noteq> 0}" 
  proof (intro Collect_mono impI)
    fix m assume "?r i m \<noteq> 0"
    then show "v_refs v m \<noteq> 0" using le [of m] by linarith
  qed
  then have used: "v_used (?v i) \<le> v_used v" unfolding v_used_def by (simp add: card_mono)
  have small: "?r i m < 2 ^ 32 - 1" for m using le [of m] c le_less_trans unfolding calm_def by blast
  have hi: "\<forall>j<i. hblk s i \<noteq> hblk s j" using geomD(6) [OF g(1)] gt(2) i g(2) by auto
  have lh: "\<forall>j<i. lblk s i \<noteq> hblk s j" 
  proof (intro allI impI)
    fix j assume "j < i"
    then show "lblk s i \<noteq> hblk s j" using geomD(8) [OF g(1), of j i] gt(2) by auto
  qed
  have p: "rec \<or> ?r i (hblk s i) \<noteq> 0" using pin hi gt(2) by (auto simp: unpinned_def)
  define w where "w = ?v i"
  have w: "sees (ldev t) t w" using t e' by (simp add: w_def)
  have q: "v_refs w = ?r i" "v_locked w = v_locked v" "v_used w \<le> v_used v" using used by (simp_all add: w_def)
  have ready: "entry_ready t w i" using c p pin q small e' by (auto simp: entry_ready_def calm_def split: if_splits)
  have l: "v_content w (lblk s i) = v_content v (lblk s i)" "v_disk w (lblk s i) = v_disk v (lblk s i)"
    using lh by (simp_all add: w_def copied_out)
  have cl: "v_content w (lblk t i) = v_disk w (lblk t i)" using l clean gt(2) by (simp add: e')
  have pw: "rec \<or> v_refs w (hblk t i) \<noteq> 0" using p by (simp add: w_def e')
  have "unpinned (hblk s) (Suc i) (v_refs v) = (unpinned (hblk s) i (v_refs v))(hblk s i := unpinned (hblk s) i (v_refs v) (hblk s i) - 1)"
    by (rule unpinned_Suc) (rule inj_on_subset [OF geom_inj(2) [OF g(1)]], use gt(2) in auto)
  then have eq: "w\<lparr>v_content := (v_content w)(hblk t i := v_content w (lblk t i)), v_disk := (v_disk w)(hblk t i := v_content w (lblk t i)),
      v_refs := (if rec then v_refs w else (v_refs w)(hblk t i := v_refs w (hblk t i) - 1))\<rparr> = ?v (Suc i)"
    by (intro bview.equality) (simp_all add: l e', simp_all add: w_def)
  have "runs (install_one rec i) t (\<lambda>_ u. bc_only t u \<and> sees (ldev t) u (?v (Suc i)))"
    using install_one_view [OF w gt ready pw cl] unfolding eq .
  then show "runs (install_one rec i) t (\<lambda>_ u. bc_only s u \<and> sees (ldev s) u (?v (Suc i)))"
    unfolding e'(1) using t bc_only_trans by (elim runs_mono) blast
qed

section \<open>Recovery\<close>

lemma lh_blocks [simp]:
  "holder dev (s\<lparr>lh_n := x\<rparr>) = holder dev s" "holder dev (s\<lparr>lh_block := bl\<rparr>) = holder dev s"
  "disk (s\<lparr>lh_n := x\<rparr>) = disk s" "disk (s\<lparr>lh_block := bl\<rparr>) = disk s"
  by (rule ext, simp add: holder_def disk_def)+

lemma lh_views [simp]:
  "content dev (s\<lparr>lh_n := x\<rparr>) = content dev s" "content dev (s\<lparr>lh_block := bl\<rparr>) = content dev s"
  "refs dev (s\<lparr>lh_n := x\<rparr>) = refs dev s" "refs dev (s\<lparr>lh_block := bl\<rparr>) = refs dev s"
  "locked dev (s\<lparr>lh_n := x\<rparr>) = locked dev s" "locked dev (s\<lparr>lh_block := bl\<rparr>) = locked dev s"
  by (rule ext, simp add: content_def refs_def locked_def sl_free_def split: option.split)+

lemma lh_good [simp]: "good dev (s\<lparr>lh_n := x\<rparr>) = good dev s" "good dev (s\<lparr>lh_block := bl\<rparr>) = good dev s"
  by (simp_all add: good_def busy_def table_ok_def vq_ok_def bc_ok_def lru_def sl_free_def sl_mine_def my_pid_def)

lemma sees_lh [simp]: "sees dev (s\<lparr>lh_n := x\<rparr>) v = sees dev s v" "sees dev (s\<lparr>lh_block := bl\<rparr>) v = sees dev s v"
  by (simp_all add: sees_def)

lemma handle_lh [simp]: "handle dev (s\<lparr>lh_n := x\<rparr>) n b = handle dev s n b" "handle dev (s\<lparr>lh_block := bl\<rparr>) n b = handle dev s n b"
  by (simp_all add: handle_def holder_def)

text \<open>\<open>t\<close> sees the view that \<open>s\<close> sees, and the log is where it was.\<close>

definition same_log :: "'z lstate_scheme \<Rightarrow> 'z lstate_scheme \<Rightarrow> bool" where
  "same_log s t \<longleftrightarrow> log_start t = log_start s \<and> log_dev t = log_dev s"

lemma same_log_blocks: "same_log s t \<Longrightarrow> ldev t = ldev s \<and> hdr t = hdr s \<and> lblk t = lblk s"
  by (auto simp: same_log_def ldev_def hdr_def lblk_def)

lemma bc_only_same_log: "bc_only s t \<Longrightarrow> same_log s t"
  by (simp add: same_log_def bc_only_log)

text \<open>The loop of \<open>read_head\<close>.\<close>

lemma read_blocks_run:
  "k \<le> length (lh_block s) \<Longrightarrow> for_each [0..<k] (\<lambda>i. set_log_block i (f i)) s =
    Ret () (s\<lparr>lh_block := map f [0..<k] @ drop k (lh_block s)\<rparr>)"
proof (induction k)
  case 0
  then show ?case by (simp add: monad_simps)
next
  case (Suc k)
  have "(map f [0..<k] @ drop k (lh_block s))[k := f k] = map f [0..<Suc k] @ drop (Suc k) (lh_block s)"
    using Suc.prems by (simp add: list_update_append Cons_nth_drop_Suc [symmetric])
  then show ?case using Suc by (simp add: for_each_append monad_simps set_log_block_def)
qed

lemma read_head_view:
  assumes s: "sees (ldev s) s v" and h: "hdr s < 2 ^ 31" and c: "calm v" and clean: "v_content v (hdr s) = v_disk v (hdr s)"
    and n: "nat (head_n (v_content v (hdr s))) \<le> length (lh_block s)"
  shows "runs read_head s (\<lambda>_ t. same_log s t \<and> sees (ldev s) t v \<and> lh_n t = head_n (v_content v (hdr s)) \<and>
    length (lh_block t) = length (lh_block s) \<and> (\<forall>i<nat (lh_n t). lh_block t ! i = head_block (v_content v (hdr s)) i))"
  unfolding read_head_def
proof (rule runs_bnd, rule runs_eq [where g = "bread (ldev s) (hdr s)"], rule bread_head_eq, rule runs_mono [OF bread_view [OF s h]])
  fix b t
  let ?h = "hdr s" and ?d = "ldev s" and ?bs = "v_content v (hdr s)" and ?n = "head_n (v_content v (hdr s))"
  let ?v = "v\<lparr>v_refs := (v_refs v)(?h := v_refs v ?h + 1), v_locked := (v_locked v)(?h := True)\<rparr>"
  assume t: "bc_only s t \<and> keeps_handles ?d s t \<and> handle ?d t ?h b \<and> sees ?d t ?v"
  let ?u = "t\<lparr>lh_n := ?n, lh_block := map (head_block ?bs) [0..<nat ?n] @ drop (nat ?n) (lh_block t)\<rparr>"
  have lb: "lh_block t = lh_block s" using t bc_only_log by blast
  have data: "b_data (bufs t ! b) = ?bs" using handle_data(1) [of ?d t ?v ?h b] t by simp
  have e: "?v\<lparr>v_refs := (v_refs ?v)(?h := v_refs ?v ?h - 1), v_locked := (v_locked ?v)(?h := False)\<rparr> = v"
    by (rule bview.equality) (use c in \<open>auto simp: fun_eq_iff calm_def\<close>)
  have u: "sees ?d ?u ?v" "handle ?d ?u ?h b" using t by simp_all
  have "runs (brelse b) ?u (\<lambda>_ w. bc_only ?u w \<and> keeps_handles ?d ?u w \<and>
      sees ?d w (?v\<lparr>v_refs := (v_refs ?v)(?h := v_refs ?v ?h - 1), v_locked := (v_locked ?v)(?h := False)\<rparr>))"
    by (rule brelse_view [OF u]) (use clean in simp_all)
  then have r: "runs (brelse b) ?u (\<lambda>_ w. bc_only ?u w \<and> sees ?d w v)" unfolding e by (elim runs_mono) blast
  have "runs (brelse b) ?u (\<lambda>_ w. same_log s w \<and> sees ?d w v \<and> lh_n w = ?n \<and> length (lh_block w) = length (lh_block s) \<and>
      (\<forall>i<nat (lh_n w). lh_block w ! i = head_block ?bs i))"
  proof (rule runs_mono [OF r])
    fix a w assume w: "bc_only ?u w \<and> sees ?d w v"
    note l = bc_only_log [OF w [THEN conjunct1]]
    have "same_log s w" using l t bc_only_log [of s t] by (simp add: same_log_def)
    then show "same_log s w \<and> sees ?d w v \<and> lh_n w = ?n \<and> length (lh_block w) = length (lh_block s) \<and>
      (\<forall>i<nat (lh_n w). lh_block w ! i = head_block ?bs i)"
      using w l n lb by (auto simp: nth_append)
  qed
  moreover have "for_each [0..<nat ?n] (\<lambda>i. set_log_block i (sint (get32 ?bs (4 + 4 * i)))) (t\<lparr>lh_n := ?n\<rparr>) = Ret () ?u"
    using read_blocks_run [of "nat ?n" "t\<lparr>lh_n := ?n\<rparr>" "head_block ?bs"] n lb by (simp add: head_block_def)
  ultimately show "runs (bnd (get_buf b) (\<lambda>x. thn (modify (\<lambda>s. s\<lparr>lh_n := sint (get32 (b_data x) 0)\<rparr>))
      (bnd (gets lh_n) (\<lambda>n. thn (for_each [0..<nat n] (\<lambda>i. set_log_block i (sint (get32 (b_data x) (4 + 4 * i))))) (brelse b))))) t
      (\<lambda>_ w. same_log s w \<and> sees ?d w v \<and> lh_n w = ?n \<and> length (lh_block w) = length (lh_block s) \<and>
      (\<forall>i<nat (lh_n w). lh_block w ! i = head_block ?bs i))"
    using data by (simp add: runs_def monad_simps get_buf_def head_n_def)
qed (use c in \<open>auto simp: calm_def\<close>)

text \<open>A machine that has just started sees the disk through an empty cache.\<close>

definition fresh :: "(uint32 \<Rightarrow> uchar list) \<Rightarrow> bview" where
  "fresh d = \<lparr>v_content = d, v_disk = d, v_refs = (\<lambda>_. 0), v_locked = (\<lambda>_. False)\<rparr>"

lemma fresh_calm: "calm (fresh d)" "v_used (fresh d) = 0" "v_content (fresh d) = d" "v_disk (fresh d) = d" "v_refs (fresh d) = (\<lambda>_. 0)"
  by (simp_all add: calm_def fresh_def v_used_def NBUF_def MAXOPBLOCKS_def)

lemma geom_cong:
  assumes "geom s n" and "same_log s t" and "\<forall>i<n. lh_block t ! i = lh_block s ! i" and "n \<le> length (lh_block t)"
  shows "geom t n"
proof -
  have "hblk t i = hblk s i" if "i < n" for i using assms(3) that by (simp add: hblk_def)
  moreover have "inj_on (hblk t) {..<n} = inj_on (hblk s) {..<n}" by (rule inj_on_cong) (simp add: calculation)
  ultimately show ?thesis using assms same_log_blocks [OF assms(2)] unfolding geom_def same_log_def by simp
qed

lemma geom_0: "0 \<le> log_start s \<Longrightarrow> log_start s + 1 < 2 ^ 31 \<Longrightarrow> geom s 0"
  by (simp add: geom_def)

text \<open>What recovery makes of the disk \<open>d\<close>: the blocks of the log go to the homes that the header names, and the header
  becomes empty.\<close>

definition replay :: "'z lstate_scheme \<Rightarrow> (uint32 \<Rightarrow> uchar list) \<Rightarrow> uint32 \<Rightarrow> uchar list" where
  "replay s d = (copied (lblk s) (\<lambda>i. of_int (head_block (d (hdr s)) i)) (nat (head_n (d (hdr s)))) d d)(hdr s := put32 (d (hdr s)) 0 0)"

lemma recover_view:
  assumes s: "sees (ldev s) s (fresh d)" and h: "0 \<le> log_start s" "log_start s + 1 < 2 ^ 31"
    and n: "nat (head_n (d (hdr s))) \<le> length (lh_block s)"
    and g: "\<And>t. same_log s t \<Longrightarrow> length (lh_block t) = length (lh_block s) \<Longrightarrow>
      \<forall>i<nat (head_n (d (hdr s))). lh_block t ! i = head_block (d (hdr s)) i \<Longrightarrow> geom t (nat (head_n (d (hdr s))))"
  shows "runs recover_from_log s (\<lambda>_ t. disk t = replay s d)"
  unfolding recover_from_log_def
proof (rule runs_thn, rule runs_mono [OF read_head_view [OF s geomD(1) [OF geom_0 [OF h]] fresh_calm(1)]])
  fix a t
  let ?n = "nat (head_n (d (hdr s)))" and ?v = "fresh d"
  let ?c = "copied (lblk s) (\<lambda>i. of_int (head_block (d (hdr s)) i)) ?n d d"
  assume t: "same_log s t \<and> sees (ldev s) t ?v \<and> lh_n t = head_n (v_content ?v (hdr s)) \<and> length (lh_block t) = length (lh_block s) \<and>
    (\<forall>i<nat (lh_n t). lh_block t ! i = head_block (v_content ?v (hdr s)) i)"
  have sl: "ldev t = ldev s" "hdr t = hdr s" "lblk t = lblk s" using same_log_blocks [of s t] t by simp_all
  have gt: "geom t ?n" using t by (intro g) (simp_all add: fresh_calm)
  have hb: "hblk t i = of_int (head_block (d (hdr s)) i)" if "i < ?n" for i using that t by (simp add: hblk_def fresh_calm)
  then have "copied (lblk t) (hblk t) ?n d d = ?c" using sl(3) by (intro copied_cong) simp
  then have i: "runs (install_trans True) t (\<lambda>_ u. bc_only t u \<and> sees (ldev s) u (?v\<lparr>v_content := ?c, v_disk := ?c, v_refs := (\<lambda>_. 0)\<rparr>))"
    using install_view [of t ?v ?n ?n True] t gt sl fresh_calm [of d]
    by (simp add: install_trans_def runs_def run_bnd run_gets NBUF_def MAXOPBLOCKS_def)
  show "runs (thn (install_trans True) (thn (modify (\<lambda>s. s\<lparr>lh_n := 0\<rparr>)) write_head)) t (\<lambda>_ t. disk t = replay s d)"
  proof (rule runs_thn, rule runs_mono [OF i])
    fix a u
    let ?w = "?v\<lparr>v_content := ?c, v_disk := ?c, v_refs := (\<lambda>_. 0)\<rparr>"
    assume u: "bc_only t u \<and> sees (ldev s) u ?w"
    let ?u = "u\<lparr>lh_n := 0\<rparr>"
    have e: "ldev ?u = ldev s" "hdr ?u = hdr s" "geom ?u 0"
      using bc_only_log [of t u] u t h by (auto simp: ldev_def hdr_def same_log_def intro: geom_0)
    have "?c (hdr s) = d (hdr s)" using geomD(7) [OF gt] hb sl by (intro copied_out) metis
    then have "runs write_head ?u (\<lambda>_ w. sees (ldev s) w (?w\<lparr>v_content := ?c(hdr s := put32 (d (hdr s)) 0 0),
        v_disk := ?c(hdr s := put32 (d (hdr s)) 0 0)\<rparr>))"
      using write_head_view [of ?u ?w] u e fresh_calm(1,2) [of d] by (simp add: put_head_def calm_def v_used_def runs_def) blast
    then show "runs (thn (modify (\<lambda>s. s\<lparr>lh_n := 0\<rparr>)) write_head) u (\<lambda>_ t. disk t = replay s d)"
      by (auto intro!: runs_thn elim!: runs_mono simp: sees_def replay_def)
  qed
qed (use n in \<open>simp_all add: fresh_calm\<close>)

section \<open>Crashes\<close>

text \<open>After a crash the disk is all that is left.  A state after the reboot: the cache is as \<open>binit\<close> leaves it, the log
  header is not yet read, and the first process runs.\<close>

definition reboot :: "'z lstate_scheme \<Rightarrow> 'z lstate_scheme" where
  "reboot t = t\<lparr>sleeplocks := (\<lambda>_. \<lparr>sl_locked = 0, sl_pid = 0\<rparr>), bufs := replicate NBUF zero_buf,
     bnext := boot_next, bprev := boot_prev,
     lh_n := 0, lh_block := replicate LOGSIZE 0\<rparr>"

lemma reboot_sees:
  assumes "good dev t" and "dev \<noteq> 0"
  shows "sees dev (reboot t) (fresh (disk t))"
proof -
  have "empty_cache (reboot t)" "busy (reboot t)" "vq_ok (reboot t)"
    using assms(1) by (simp_all add: good_def busy_def table_ok_def vq_ok_def reboot_def empty_cache_def sl_free_def)
  note g = empty_cache_good [OF this assms(2)]
  have "disk (reboot t) = disk t" by (rule disk_cong) (simp add: reboot_def)
  then show ?thesis using g by (simp add: sees_def fresh_def fun_eq_iff content_def refs_def locked_def)
qed

lemma crash_recover:
  assumes t: "good (ldev s) t" "same_log s t" and dev: "ldev s \<noteq> 0" and n: "n \<le> LOGSIZE" and g: "geom s n"
    and hd: "head_n (disk t (hdr s)) = 0 \<or> head_n (disk t (hdr s)) = int n \<and> (\<forall>i<n. head_block (disk t (hdr s)) i = lh_block s ! i)"
  shows "runs recover_from_log (reboot t) (\<lambda>_ w. disk w = replay s (disk t))"
proof -
  have sl: "same_log s (reboot t)" using t(2) by (simp add: same_log_def reboot_def)
  note b = same_log_blocks [OF sl]
  have st: "0 \<le> log_start (reboot t)" "log_start (reboot t) + 1 < 2 ^ 31" using g sl by (auto simp: geom_def same_log_def)
  have l: "length (lh_block (reboot t)) = LOGSIZE" by (simp add: reboot_def)
  have "geom u (nat (head_n (disk t (hdr s))))" if "same_log (reboot t) u" "length (lh_block u) = LOGSIZE"
    "\<forall>i<nat (head_n (disk t (hdr s))). lh_block u ! i = head_block (disk t (hdr s)) i" for u
  proof (cases "head_n (disk t (hdr s)) = 0")
    case True
    then show ?thesis using st that(1) by (simp add: same_log_def geom_0)
  next
    case False
    then have "head_n (disk t (hdr s)) = int n" "\<forall>i<n. lh_block u ! i = lh_block s ! i" using hd that(3) by auto
    moreover have "same_log s u" using sl that(1) by (simp add: same_log_def)
    ultimately show ?thesis using geom_cong [OF g] that(2) n by simp
  qed
  then have "runs recover_from_log (reboot t) (\<lambda>_ w. disk w = replay (reboot t) (disk t))"
    using reboot_sees [OF t(1) dev] b st l hd n by (intro recover_view) auto
  moreover have "replay (reboot t) = replay s" using b by (intro ext) (simp add: replay_def)
  ultimately show ?thesis by simp
qed

text \<open>The first \<open>j\<close> writes of \<open>commit\<close>, for a transaction of \<open>n\<close> blocks.\<close>

definition commit_cut :: "nat \<Rightarrow> nat \<Rightarrow> ('z lstate_scheme, unit) kfun" where
  "commit_cut n j = (if j \<le> n then for_each [0..<j] write_log_one
     else thn write_log (thn write_head
       (if j \<le> 2 * n + 1 then for_each [0..<j - n - 1] (install_one False)
        else thn (install_trans False) (thn (modify (\<lambda>s. s\<lparr>lh_n := 0\<rparr>)) write_head))))"

lemma commit_cut_all: "lh_n s > 0 \<Longrightarrow> commit_cut (nat (lh_n s)) (2 * nat (lh_n s) + 2) s = commit s"
  by (simp add: commit_cut_def commit_def monad_simps)

text \<open>A transaction that is ready to commit: its blocks are pinned in the cache, nothing is locked, and the header on
  disk is empty.\<close>

definition tx_ready :: "'z lstate_scheme \<Rightarrow> bview \<Rightarrow> bool" where
  "tx_ready s v \<longleftrightarrow> sees (ldev s) s v \<and> ldev s \<noteq> 0 \<and> 0 < lh_n s \<and> geom s (nat (lh_n s)) \<and> calm v \<and>
     (\<forall>i<nat (lh_n s). v_refs v (hblk s i) \<noteq> 0) \<and> head_n (v_disk v (hdr s)) = 0"

definition in_log :: "'z lstate_scheme \<Rightarrow> uint32 \<Rightarrow> bool" where
  "in_log s m \<longleftrightarrow> m = hdr s \<or> (\<exists>i<nat (lh_n s). m = lblk s i)"

definition committed :: "'z lstate_scheme \<Rightarrow> bview \<Rightarrow> uint32 \<Rightarrow> uchar list" where
  "committed s v m = (if \<exists>i<nat (lh_n s). m = hblk s i then v_content v m else v_disk v m)"

lemma replay_empty: "head_n (d (hdr s)) = 0 \<Longrightarrow> m \<noteq> hdr s \<Longrightarrow> replay s d m = d m"
  by (simp add: replay_def)

text \<open>The view after \<open>write_log\<close> and \<open>write_head\<close>, and what the disk has then.\<close>

definition logged :: "'z lstate_scheme \<Rightarrow> bview \<Rightarrow> bview" where
  "logged s v = (let n = nat (lh_n s); c = copied (hblk s) (lblk s) n (v_content v) (v_content v);
     h = put_head (lh_n s) (lh_block s) (c (hdr s)) in
     v\<lparr>v_content := c(hdr s := h), v_disk := (copied (hblk s) (lblk s) n (v_content v) (v_disk v))(hdr s := h)\<rparr>)"

lemma logged_blocks:
  assumes "geom s (nat (lh_n s))" and "i < nat (lh_n s)"
  shows "v_content (logged s v) (lblk s i) = v_content v (hblk s i)" and "v_disk (logged s v) (lblk s i) = v_content v (hblk s i)"
  using geomD(4) [OF assms] geom_inj(1) [OF assms(1)] assms(2) by (simp_all add: logged_def Let_def copied_in)

lemma logged_other: "\<not> in_log s m \<Longrightarrow> v_disk (logged s v) m = v_disk v m"
  by (simp add: logged_def Let_def in_log_def copied_out)

lemma content_length: "good dev s \<Longrightarrow> n < 2 ^ 31 \<Longrightarrow> length (content dev s n) = BSIZE"
  using bc_okD(2) [of dev s] goodD(3) [of dev s]
  by (auto simp: content_def disk_def read_image_def split: option.split dest: holder_less)

lemma logged_head:
  assumes "tx_ready s v"
  shows "head_n (v_disk (logged s v) (hdr s)) = lh_n s" and "i < nat (lh_n s) \<Longrightarrow> head_block (v_disk (logged s v) (hdr s)) i = lh_block s ! i"
proof -
  have g: "geom s (nat (lh_n s))" and s: "sees (ldev s) s v" using assms by (simp_all add: tx_ready_def)
  have "length (v_content v (hdr s)) = BSIZE" using s content_length [of "ldev s" s "hdr s"] geomD(1) [OF g] by (simp add: sees_def)
  moreover have "copied (hblk s) (lblk s) (nat (lh_n s)) (v_content v) (v_content v) (hdr s) = v_content v (hdr s)"
    using geomD(4) [OF g] by (intro copied_out) metis
  ultimately have h: "v_disk (logged s v) (hdr s) = put_head (lh_n s) (lh_block s) (v_content v (hdr s))"
    and l: "4 + 4 * nat (lh_n s) \<le> length (v_content v (hdr s))"
    using g by (simp_all add: logged_def Let_def geom_def BSIZE_def LOGSIZE_def MAXOPBLOCKS_def)
  have n: "0 \<le> lh_n s" "lh_n s < 2 ^ 31" using assms g by (auto simp: tx_ready_def geom_def)
  show "head_n (v_disk (logged s v) (hdr s)) = lh_n s" unfolding h by (rule head_put_head(1) [OF n l])
  show "head_block (v_disk (logged s v) (hdr s)) i = lh_block s ! i" if "i < nat (lh_n s)"
    unfolding h using head_put_head(2) [OF n l that] g that by (simp add: geom_def)
qed

text \<open>The disk after \<open>k\<close> blocks were installed, and what recovery makes of it.\<close>

definition installed :: "'z lstate_scheme \<Rightarrow> bview \<Rightarrow> nat \<Rightarrow> uint32 \<Rightarrow> uchar list" where
  "installed s v k = copied (lblk s) (hblk s) k (v_content (logged s v)) (v_disk (logged s v))"

lemma installed_other:
  assumes "geom s (nat (lh_n s))" and "k \<le> nat (lh_n s)"
  shows "installed s v k (hdr s) = v_disk (logged s v) (hdr s)"
    and "i < nat (lh_n s) \<Longrightarrow> installed s v k (lblk s i) = v_content v (hblk s i)"
  using geomD(7) [OF assms(1)] geomD(8) [OF assms(1)] assms(2) logged_blocks(2) [OF assms(1), of i v]
  unfolding installed_def by (metis copied_out order_less_le_trans)+

lemma installed_home:
  assumes "geom s (nat (lh_n s))" and "\<not> in_log s m"
  shows "installed s v (nat (lh_n s)) m = committed s v m"
proof (cases "\<exists>i<nat (lh_n s). m = hblk s i")
  case True
  then obtain i where i: "i < nat (lh_n s)" "m = hblk s i" by blast
  have "committed s v m = v_content v m" using True unfolding committed_def by (rule if_P)
  then show ?thesis unfolding i(2) installed_def
    by (simp add: copied_in [OF geom_inj(2) [OF assms(1)] i(1)] logged_blocks(1) [OF assms(1) i(1)])
next
  case False
  then show ?thesis using logged_other [OF assms(2)] by (auto simp: installed_def committed_def copied_out)
qed

lemma replay_installed:
  assumes r: "tx_ready s v" and k: "k \<le> nat (lh_n s)" and m: "\<not> in_log s m"
  shows "replay s (installed s v k) m = committed s v m"
proof -
  let ?d = "installed s v k" and ?n = "nat (lh_n s)"
  have g: "geom s ?n" using r by (simp add: tx_ready_def)
  have "copied (lblk s) (\<lambda>i. of_int (head_block (?d (hdr s)) i)) ?n ?d ?d = copied (lblk s) (hblk s) ?n ?d ?d"
    using installed_other(1) [OF g k] logged_head(2) [OF r] by (intro copied_cong) (simp add: hblk_def)
  then have e: "replay s ?d m = copied (lblk s) (hblk s) ?n ?d ?d m"
    using m installed_other(1) [OF g k, of v] logged_head(1) [OF r] by (simp add: replay_def in_log_def)
  show ?thesis
  proof (cases "\<exists>i<?n. m = hblk s i")
    case True
    then obtain i where i: "i < ?n" "m = hblk s i" by blast
    have "committed s v m = v_content v m" using True unfolding committed_def by (rule if_P)
    then show ?thesis unfolding e unfolding i(2) by (simp add: copied_in [OF geom_inj(2) [OF g] i(1)] installed_other(2) [OF g k i(1)])
  next
    case False
    then have "?d m = v_disk (logged s v) m" unfolding installed_def using k by (intro copied_out) auto
    then show ?thesis using False logged_other [OF m] unfolding e by (auto simp: committed_def copied_out)
  qed
qed

section \<open>The writes of a commit\<close>

lemma unpinned_calm:
  assumes "calm v"
  shows "calm (v\<lparr>v_content := x, v_disk := y, v_refs := unpinned f k (v_refs v)\<rparr>)"
proof -
  have "card {m. unpinned f k (v_refs v) m \<noteq> 0} \<le> card {m. v_refs v m \<noteq> 0}"
    by (rule card_mono) (auto simp: unpinned_def split: if_splits)
  moreover have "unpinned f k (v_refs v) m \<le> v_refs v m" for m by (simp add: unpinned_def)
  ultimately show ?thesis using assms by (auto simp: calm_def v_used_def intro: le_less_trans)
qed

lemma logged_view:
  assumes "tx_ready s v"
  shows "runs (thn write_log write_head) s (\<lambda>_ t. bc_only s t \<and> sees (ldev s) t (logged s v))"
proof (rule runs_thn)
  let ?n = "nat (lh_n s)"
  let ?v = "v\<lparr>v_content := copied (hblk s) (lblk s) ?n (v_content v) (v_content v), v_disk := copied (hblk s) (lblk s) ?n (v_content v) (v_disk v)\<rparr>"
  note r = assms [unfolded tx_ready_def]
  have "runs write_log s (\<lambda>_ t. bc_only s t \<and> sees (ldev s) t ?v)"
    using write_log_view [of s v ?n ?n] r by (simp add: write_log_def runs_def run_bnd run_gets)
  then show "runs write_log s (\<lambda>_ t. runs write_head t (\<lambda>_ t. bc_only s t \<and> sees (ldev s) t (logged s v)))"
  proof (rule runs_mono)
    fix a t
    assume t: "bc_only s t \<and> sees (ldev s) t ?v"
    have g: "geom t (nat (lh_n t))" using r t bc_only_blocks(5) [of s t ?n] bc_only_log [of s t] by simp
    have "runs write_head t (\<lambda>_ u. bc_only t u \<and> sees (ldev t) u (logged s v))"
      using write_head_view [of t ?v] t g r bc_only_blocks(1-4) [of s t] bc_only_log [of s t]
      by (simp add: calm_def v_used_def logged_def Let_def)
    then show "runs write_head t (\<lambda>_ u. bc_only s u \<and> sees (ldev s) u (logged s v))"
      using t bc_only_trans [of s t] bc_only_blocks(1) [of s t] by (auto elim!: runs_mono)
  qed
qed

lemma installed_view:
  assumes "tx_ready s v" and "k \<le> nat (lh_n s)" and t: "bc_only s t" "sees (ldev s) t (logged s v)"
  shows "runs (for_each [0..<k] (install_one False)) t (\<lambda>_ u. bc_only s u \<and> (\<exists>w. sees (ldev s) u w \<and> calm w \<and> v_disk w = installed s v k \<and>
    v_content w (hdr s) = v_content (logged s v) (hdr s)))"
proof -
  let ?n = "nat (lh_n s)" and ?l = "logged s v"
  note r = assms(1) [unfolded tx_ready_def]
  have g: "geom s ?n" using r by simp
  have e: "ldev t = ldev s" "hblk t = hblk s" "lblk t = lblk s" using bc_only_blocks(1-4) [OF t(1)] by simp_all
  have q: "v_refs ?l = v_refs v" "v_locked ?l = v_locked v" by (simp_all add: logged_def Let_def)
  have c: "calm ?l" using r q by (simp add: calm_def v_used_def)
  have "runs (for_each [0..<k] (install_one False)) t (\<lambda>_ u. bc_only t u \<and> sees (ldev t) u
      (?l\<lparr>v_content := copied (lblk t) (hblk t) k (v_content ?l) (v_content ?l), v_disk := copied (lblk t) (hblk t) k (v_content ?l) (v_disk ?l),
         v_refs := unpinned (hblk t) k (v_refs ?l)\<rparr>))"
    using install_view [of t ?l ?n k False] t c r q e assms(2) bc_only_blocks(5) [OF t(1), of ?n] logged_blocks [OF g, of _ v] by simp
  moreover note unpinned_calm [OF c, where f = "hblk s" and k = k and x = "copied (lblk s) (hblk s) k (v_content ?l) (v_content ?l)"
      and y = "copied (lblk s) (hblk s) k (v_content ?l) (v_disk ?l)"]
  moreover have "copied (lblk s) (hblk s) k (v_content ?l) (v_content ?l) (hdr s) = v_content ?l (hdr s)"
    using geomD(7) [OF g] assms(2) by (intro copied_out) (metis order_less_le_trans)
  ultimately show ?thesis using t(1) bc_only_trans [of s t] unfolding e installed_def by (elim runs_mono) fastforce
qed

lemma thn_assoc: "thn (thn f g) h = thn f (thn g h)"
  by (rule ext) (simp add: thn_def bnd_def split: outcome.split)

lemma cleared_view:
  assumes "tx_ready s v" and t: "bc_only s t" "sees (ldev s) t w" "calm w"
  shows "runs (thn (modify (\<lambda>s. s\<lparr>lh_n := 0\<rparr>)) write_head) t (\<lambda>_ u. same_log s u \<and> good (ldev s) u \<and>
    disk u = (v_disk w)(hdr s := put32 (v_content w (hdr s)) 0 0))"
proof -
  let ?t = "t\<lparr>lh_n := 0\<rparr>"
  have g: "geom s (nat (lh_n s))" using assms(1) by (simp add: tx_ready_def)
  then have "0 \<le> log_start ?t" "log_start ?t + 1 < 2 ^ 31" using bc_only_log [OF t(1)] by (auto simp: geom_def split: if_splits)
  then have g0: "geom ?t 0" by (rule geom_0)
  have e: "ldev ?t = ldev s" "hdr ?t = hdr s" using bc_only_log [OF t(1)] by (simp_all add: ldev_def hdr_def)
  have "runs write_head ?t (\<lambda>_ u. bc_only ?t u \<and> sees (ldev s) u (w\<lparr>v_content := (v_content w)(hdr s := put32 (v_content w (hdr s)) 0 0),
      v_disk := (v_disk w)(hdr s := put32 (v_content w (hdr s)) 0 0)\<rparr>))"
    using write_head_view [of ?t w] t g0 e by (simp add: calm_def put_head_def)
  then have "runs write_head ?t (\<lambda>_ u. same_log s u \<and> good (ldev s) u \<and> disk u = (v_disk w)(hdr s := put32 (v_content w (hdr s)) 0 0))"
    using bc_only_log [OF t(1)] by (elim runs_mono) (auto simp: sees_def same_log_def bc_only_log)
  then show ?thesis by (intro runs_thn) simp
qed

text \<open>The disk that a crash after the first \<open>j\<close> writes leaves.\<close>

definition crash_disk :: "'z lstate_scheme \<Rightarrow> bview \<Rightarrow> nat \<Rightarrow> uint32 \<Rightarrow> uchar list" where
  "crash_disk s v j = (let n = nat (lh_n s) in
     if j \<le> n then copied (hblk s) (lblk s) j (v_content v) (v_disk v)
     else if j \<le> 2 * n + 1 then installed s v (j - n - 1)
     else (installed s v n)(hdr s := put32 (v_content (logged s v) (hdr s)) 0 0))"

lemma commit_cut_disk:
  assumes "tx_ready s v"
  shows "runs (commit_cut (nat (lh_n s)) j) s (\<lambda>_ t. same_log s t \<and> good (ldev s) t \<and> disk t = crash_disk s v j)"
proof -
  let ?n = "nat (lh_n s)"
  note r = assms [unfolded tx_ready_def]
  consider "j \<le> ?n" | "?n < j" "j \<le> 2 * ?n + 1" | "2 * ?n + 1 < j" by linarith
  then show ?thesis
  proof cases
    case 1
    then show ?thesis using write_log_view [of s v ?n j] r
      by (auto simp: commit_cut_def crash_disk_def sees_def bc_only_same_log elim!: runs_mono)
  next
    case 2
    then have "runs (thn (thn write_log write_head) (for_each [0..<j - ?n - 1] (install_one False))) s
        (\<lambda>_ t. same_log s t \<and> good (ldev s) t \<and> disk t = installed s v (j - ?n - 1))"
      by (intro runs_thn runs_mono [OF logged_view [OF assms]] runs_mono [OF installed_view [OF assms]])
        (auto simp: sees_def bc_only_same_log)
    then show ?thesis using 2 by (simp add: commit_cut_def crash_disk_def thn_assoc)
  next
    case 3
    have "runs (thn (thn write_log write_head) (thn (install_trans False) (thn (modify (\<lambda>s. s\<lparr>lh_n := 0\<rparr>)) write_head))) s
        (\<lambda>_ t. same_log s t \<and> good (ldev s) t \<and> disk t = (installed s v ?n)(hdr s := put32 (v_content (logged s v) (hdr s)) 0 0))"
    proof (rule runs_thn, rule runs_mono [OF logged_view [OF assms]], rule runs_thn)
      fix a t
      assume t: "bc_only s t \<and> sees (ldev s) t (logged s v)"
      let ?P = "\<lambda>_ t. runs (thn (modify (\<lambda>s. s\<lparr>lh_n := 0\<rparr>)) write_head) t (\<lambda>_ t. same_log s t \<and> good (ldev s) t \<and>
        disk t = (installed s v ?n)(hdr s := put32 (v_content (logged s v) (hdr s)) 0 0))"
      have "runs (for_each [0..<?n] (install_one False)) t ?P"
        by (rule runs_mono [OF installed_view [OF assms order_refl, of t]]) (use t in \<open>auto dest: cleared_view [OF assms]\<close>)
      then show "runs (install_trans False) t ?P" using t bc_only_log [of s t] by (simp add: install_trans_def runs_def run_bnd run_gets)
    qed
    then show ?thesis using 3 by (simp add: commit_cut_def crash_disk_def thn_assoc)
  qed
qed

lemma crash_disk_empty:
  assumes "tx_ready s v" and "j \<le> nat (lh_n s) \<or> 2 * nat (lh_n s) + 1 < j"
  shows "head_n (crash_disk s v j (hdr s)) = 0"
proof -
  let ?n = "nat (lh_n s)"
  note r = assms(1) [unfolded tx_ready_def]
  have g: "geom s ?n" using r by simp
  have "copied (hblk s) (lblk s) k c f (hdr s) = f (hdr s)" if "k \<le> ?n" for k and c f :: "uint32 \<Rightarrow> uchar list"
    using that geomD(4) [OF g] by (intro copied_out) (metis order_less_le_trans)
  then show ?thesis using assms(2) content_length [of "ldev s" s "hdr s"] geomD(1) [OF g] r
    by (auto simp: crash_disk_def head_n_def sees_def get32_put32 BSIZE_def logged_def Let_def put_head_def)
qed

lemma crash_disk_full:
  assumes "tx_ready s v" and "nat (lh_n s) < j" and "j \<le> 2 * nat (lh_n s) + 1"
  shows "crash_disk s v j = installed s v (j - nat (lh_n s) - 1)" and "crash_disk s v j (hdr s) = v_disk (logged s v) (hdr s)"
  using assms installed_other(1) [of s "j - nat (lh_n s) - 1" v] by (simp_all add: crash_disk_def Let_def tx_ready_def)

lemma replay_crash_disk:
  assumes "tx_ready s v" and "\<not> in_log s m"
  shows "replay s (crash_disk s v j) m = (if j \<le> nat (lh_n s) then v_disk v m else committed s v m)"
proof -
  let ?n = "nat (lh_n s)"
  have g: "geom s ?n" and m: "m \<noteq> hdr s" "\<forall>i<?n. m \<noteq> lblk s i" using assms by (auto simp: in_log_def tx_ready_def)
  consider "?n < j" "j \<le> 2 * ?n + 1" | "j \<le> ?n \<or> 2 * ?n + 1 < j" by linarith
  then show ?thesis
  proof cases
    case 1
    then show ?thesis using replay_installed [OF assms(1) _ assms(2), of "j - ?n - 1"] crash_disk_full(1) [OF assms(1) 1] by simp
  next
    case 2
    then have "replay s (crash_disk s v j) m = crash_disk s v j m" using crash_disk_empty [OF assms(1)] m(1) replay_empty by blast
    then show ?thesis using 2 m installed_home [OF g assms(2), of v] by (auto simp: crash_disk_def Let_def copied_out)
  qed
qed

text \<open>C6: \<open>commit\<close> is atomic across crashes.  A transaction of \<open>n\<close> blocks makes \<open>2 n + 2\<close> writes to the disk: the blocks go to the
  log, the header names them, they go to their homes and the header is cleared.  When the machine stops after any number
  \<open>j\<close> of those writes, and the system boots with nothing left but the disk, then \<open>recover_from_log\<close> returns; every block
  outside the log has its old content when the header was not written yet (\<open>j \<le> n\<close>), and every block has the content that
  the transaction gave it from the header's write on.  With all \<open>2 n + 2\<close> writes the run is \<open>commit\<close>.\<close>

theorem commit_crash_safe:
  assumes "tx_ready s v"
  shows "runs (commit_cut (nat (lh_n s)) j) s (\<lambda>_ t. runs recover_from_log (reboot t) (\<lambda>_ w. \<forall>m. \<not> in_log s m \<longrightarrow>
      disk w m = (if j \<le> nat (lh_n s) then v_disk v m else committed s v m))) \<and>
    commit_cut (nat (lh_n s)) (2 * nat (lh_n s) + 2) s = commit s"
proof
  have r: "ldev s \<noteq> 0" "geom s (nat (lh_n s))" "nat (lh_n s) \<le> LOGSIZE" "0 < lh_n s" using assms by (auto simp: tx_ready_def geom_def)
  show "commit_cut (nat (lh_n s)) (2 * nat (lh_n s) + 2) s = commit s" using r(4) by (rule commit_cut_all)
  show "runs (commit_cut (nat (lh_n s)) j) s (\<lambda>_ t. runs recover_from_log (reboot t) (\<lambda>_ w. \<forall>m. \<not> in_log s m \<longrightarrow>
      disk w m = (if j \<le> nat (lh_n s) then v_disk v m else committed s v m)))"
  proof (rule runs_mono [OF commit_cut_disk [OF assms]])
    fix a t
    assume t: "same_log s t \<and> good (ldev s) t \<and> disk t = crash_disk s v j"
    have "head_n (disk t (hdr s)) = 0 \<or> head_n (disk t (hdr s)) = int (nat (lh_n s)) \<and> (\<forall>i<nat (lh_n s). head_block (disk t (hdr s)) i = lh_block s ! i)"
      using crash_disk_empty [OF assms, of j] crash_disk_full(2) [OF assms, of j] logged_head [OF assms] t r(4) by (metis int_nat_eq less_imp_le not_less)
    then have "runs recover_from_log (reboot t) (\<lambda>_ w. disk w = replay s (disk t))" using t r by (intro crash_recover) auto
    then show "runs recover_from_log (reboot t) (\<lambda>_ w. \<forall>m. \<not> in_log s m \<longrightarrow>
        disk w m = (if j \<le> nat (lh_n s) then v_disk v m else committed s v m))"
      using t replay_crash_disk [OF assms] by (elim runs_mono) simp
  qed
qed

text \<open>A transaction of one block: block 50 of device 1 is all sevens in the cache, and zero on the disk.\<close>

definition tx0 :: lstate where
  "tx0 = (bstate.extend cache0 (lstate.fields 2 30 0 0 1 1 (50 # replicate 29 0)))
     \<lparr>bufs := (replicate NBUF zero_buf)[0 := \<lparr>b_valid = 1, b_disk = 0, b_dev = 1, b_blockno = 50, b_refcnt = 1, b_data = replicate BSIZE 7\<rparr>]\<rparr>"

definition view_of :: "'z lstate_scheme \<Rightarrow> bview" where
  "view_of s = \<lparr>v_content = content (ldev s) s, v_disk = disk s, v_refs = refs (ldev s) s, v_locked = locked (ldev s) s\<rparr>"

lemma tx0_fields:
  "log_start tx0 = 2" "log_dev tx0 = 1" "lh_n tx0 = 1" "lh_block tx0 = 50 # replicate 29 0" "bnext tx0 = boot_next" "bprev tx0 = boot_prev"
  "sleeplocks tx0 = (\<lambda>_. \<lparr>sl_locked = 0, sl_pid = 0\<rparr>)" "image tx0 = (\<lambda>_. 0)" "busy tx0" "vq_ok tx0"
  using cache0_ready(2) cache0_fields
  by (simp_all add: tx0_def lstate.defs bstate.defs busy_def table_ok_def vq_ok_def)

lemma tx0_bufs: "b < NBUF \<Longrightarrow> bufs tx0 ! b =
    (if b = 0 then \<lparr>b_valid = 1, b_disk = 0, b_dev = 1, b_blockno = 50, b_refcnt = 1, b_data = replicate BSIZE 7\<rparr> else zero_buf)"
  "length (bufs tx0) = NBUF"
  by (simp_all add: tx0_def nth_list_update)

lemma tx0_holder: "holder 1 tx0 n = (if n = 50 then Some 0 else None)"
proof (cases "n = 50")
  case True
  then show ?thesis by (simp add: holder_def holds_block_def tx0_bufs upt_conv_Cons NBUF_def MAXOPBLOCKS_def)
next
  case False
  then show ?thesis by (auto simp: holder_None tx0_bufs holds_block_def zero_buf_def)
qed

lemma tx0_good: "good 1 tx0"
proof -
  have "lru tx0 (rev [0..<NBUF])" using linked_boot by (auto simp: lru_def tx0_fields)
  then have "\<exists>xs. lru tx0 xs" by blast
  then have "bc_ok 1 tx0"
    unfolding bc_ok_def by (auto simp: tx0_bufs zero_buf_def holds_block_def tx0_fields sl_free_def split: if_splits)
  then show ?thesis using tx0_fields by (simp add: good_def)
qed

lemma tx0_blocks: "ldev tx0 = 1" "hdr tx0 = 2" "hblk tx0 0 = 50" "lblk tx0 0 = 3"
  by (simp_all add: tx0_fields ldev_def hdr_def hblk_def lblk_def)

lemma tx0_view:
  "content 1 tx0 50 = replicate BSIZE 7" "disk tx0 n = (if n < 2 ^ 31 then replicate BSIZE 0 else [])"
  "refs 1 tx0 n = (if n = 50 then 1 else 0)" "\<not> locked 1 tx0 n"
  by (simp_all add: content_def refs_def locked_def tx0_holder tx0_bufs disk_def read_image_def tx0_fields map_replicate_const sl_free_def
      NBUF_def MAXOPBLOCKS_def)

lemma tx0_ready: "tx_ready tx0 (view_of tx0)"
proof -
  have "geom tx0 1" unfolding geom_def by (simp add: tx0_fields tx0_blocks LOGSIZE_def MAXOPBLOCKS_def inj_on_def)
  moreover have "sees 1 tx0 (view_of tx0)" using tx0_good by (simp add: sees_def view_of_def tx0_blocks)
  moreover have "{n. refs 1 tx0 n \<noteq> 0} = {50}" by (auto simp: tx0_view)
  then have "calm (view_of tx0)" by (simp add: calm_def view_of_def v_used_def tx0_blocks tx0_view NBUF_def MAXOPBLOCKS_def)
  moreover have "head_n (disk tx0 2) = 0" by (simp add: head_n_def tx0_view get32_def BSIZE_def)
  ultimately show ?thesis by (simp add: tx_ready_def tx0_fields tx0_blocks view_of_def tx0_view)
qed

theorem commit_crash_safe_witness:
  "tx_ready tx0 (view_of tx0) \<and>
   runs (commit_cut 1 1) tx0 (\<lambda>_ t. runs recover_from_log (reboot t) (\<lambda>_ w. disk w 50 = replicate BSIZE 0)) \<and>
   runs (commit_cut 1 2) tx0 (\<lambda>_ t. runs recover_from_log (reboot t) (\<lambda>_ w. disk w 50 = replicate BSIZE 7))"
proof -
  have m: "\<not> in_log tx0 50" by (simp add: in_log_def tx0_fields tx0_blocks)
  have c: "committed tx0 (view_of tx0) 50 = replicate BSIZE 7" "v_disk (view_of tx0) 50 = replicate BSIZE 0"
    by (simp_all add: committed_def tx0_fields tx0_blocks view_of_def tx0_view)
  note r = commit_crash_safe [OF tx0_ready, THEN conjunct1]
  have "runs (commit_cut 1 1) tx0 (\<lambda>_ t. runs recover_from_log (reboot t) (\<lambda>_ w. disk w 50 = replicate BSIZE 0))"
    using r [of 1] m c by (auto simp: tx0_fields elim!: runs_mono)
  moreover have "runs (commit_cut 1 2) tx0 (\<lambda>_ t. runs recover_from_log (reboot t) (\<lambda>_ w. disk w 50 = replicate BSIZE 7))"
    using r [of 2] m c by (auto simp: tx0_fields elim!: runs_mono)
  ultimately show ?thesis using tx0_ready by blast
qed

end
