(* ===== verification/Fastipc.thy ===== *)
theory Fastipc
  imports Printf
begin

text \<open>
  The user library of the ring buffers, \<open>user/fastipc.h\<close>.  The state is the memory of the process and the
  table \<open>user_ring_bufs\<close>.  The system calls \<open>createbuf\<close> and \<open>closebuf\<close> are arguments; \<open>createbuf\<close>
  gives its result and the address it has stored in \<open>ringbuf\<close>.  Messages on the console are left out.

  The counters of the book are 64-bit words, but \<open>load\<close> returns a C \<open>int\<close> and \<open>store\<close> takes one: what is
  kept is the sum modulo \<open>2 ^ 32\<close>, sign-extended.
\<close>

unbundle bit_operations_syntax

section \<open>State\<close>

definition U_MAX_RINGBUFS :: nat where "U_MAX_RINGBUFS = 10"
definition BUF_SIZE :: uint64 where "BUF_SIZE = 65536"
definition BOOKOFFSET :: uint64 where "BOOKOFFSET = 131072"

record user_ring_buf =
  ub_buf :: addr
  ub_book :: addr
  ub_exists :: int
  ub_name :: "uchar list"

record ustate =
  umem :: pmem
  user_ring_bufs :: "user_ring_buf list"

text \<open>The two words of \<open>struct book\<close>.\<close>

definition read_done :: "addr \<Rightarrow> addr" where "read_done b = b"
definition write_done :: "addr \<Rightarrow> addr" where "write_done b = b + 8"

definition u_store :: "addr \<Rightarrow> uint32 \<Rightarrow> ('z ustate_scheme, unit) kfun" where
  "u_store p v = modify (\<lambda>s. s\<lparr>umem := store64 (umem s) p (scast v)\<rparr>)"

definition u_load :: "addr \<Rightarrow> ('z ustate_scheme, uint32) kfun" where
  "u_load p = gets (\<lambda>s. ucast (load64 (umem s) p))"

definition get_urb :: "int \<Rightarrow> ('z ustate_scheme, user_ring_buf) kfun" where
  "get_urb rd = bnd (gets user_ring_bufs) (\<lambda>us.
     if 0 \<le> rd \<and> nat rd < length us then ret (us ! nat rd) else undef ''user_ring_bufs: index'')"

definition set_urb :: "nat \<Rightarrow> (user_ring_buf \<Rightarrow> user_ring_buf) \<Rightarrow> ('z ustate_scheme, unit) kfun" where
  "set_urb i f = modify (\<lambda>s. s\<lparr>user_ring_bufs := (user_ring_bufs s)[i := f (user_ring_bufs s ! i)]\<rparr>)"

section \<open>Opening and closing\<close>

text \<open>\<open>strcpy(user_ring_bufs[i].name, straddr)\<close>; the array has 16 bytes.\<close>

definition copy_name :: "nat \<Rightarrow> addr \<Rightarrow> ('z ustate_scheme, unit) kfun" where
  "copy_name i straddr = bnd (gets umem) (\<lambda>m. bnd (lift_option ''strcpy'' (str_bytes m straddr)) (\<lambda>cs.
     if length cs < 16
     then set_urb i (\<lambda>u. u\<lparr>ub_name := cs @ 0 # drop (Suc (length cs)) (ub_name u)\<rparr>)
     else undef ''name[16]''))"

text \<open>The loop of \<open>createRingBuf\<close>.  The assignment of \<open>exists\<close> belongs to the \<open>else\<close>: what stands between
  them in the source is a comment.\<close>

primrec createRingBuf_scan :: "nat list \<Rightarrow> addr \<Rightarrow> int \<Rightarrow> addr \<Rightarrow> ('z ustate_scheme, int) kfun" where
  "createRingBuf_scan [] straddr exis ringbuf = ret (- 1)"
| "createRingBuf_scan (i # is) straddr exis ringbuf = bnd (get_urb (int i)) (\<lambda>u.
     if ub_exists u \<noteq> 1
     then thn (set_urb i (\<lambda>u. u\<lparr>ub_buf := ringbuf, ub_book := ringbuf + BOOKOFFSET\<rparr>))
         (thn (if exis \<noteq> 0
               then thn (u_store (read_done (ringbuf + BOOKOFFSET)) 0) (u_store (write_done (ringbuf + BOOKOFFSET)) 0)
               else set_urb i (\<lambda>u. u\<lparr>ub_exists := 1\<rparr>))
         (thn (copy_name i straddr) (ret (int i))))
     else createRingBuf_scan is straddr exis ringbuf)"

definition createRingBuf :: "(addr \<Rightarrow> int \<Rightarrow> ('z ustate_scheme, int \<times> addr) kfun) \<Rightarrow> addr \<Rightarrow> int \<Rightarrow> ('z ustate_scheme, int) kfun" where
  "createRingBuf createbuf straddr opdesc = bnd (createbuf straddr opdesc) (\<lambda>(exis, ringbuf).
     if exis = - 1 then ret (- 1)
     else bnd (gets umem) (\<lambda>m. bnd (lift_option ''strlen'' (u_strlen m straddr)) (\<lambda>n.
       if n > 16 then ret (- 1)
       else createRingBuf_scan [0..<U_MAX_RINGBUFS] straddr exis ringbuf)))"

text \<open>The test that the operations on a descriptor begin with.\<close>

definition valid_rd :: "int \<Rightarrow> ('z ustate_scheme, bool) kfun" where
  "valid_rd rd = (if rd > int U_MAX_RINGBUFS then ret False else bnd (get_urb rd) (\<lambda>u. ret (ub_exists u = 1)))"

definition closeRingBuf :: "(addr \<Rightarrow> int \<Rightarrow> ('z ustate_scheme, int) kfun) \<Rightarrow> addr \<Rightarrow> int \<Rightarrow> int \<Rightarrow> ('z ustate_scheme, int) kfun" where
  "closeRingBuf closebuf straddr rd opdesc = bnd (valid_rd rd) (\<lambda>ok. if \<not> ok then ret (- 1)
     else bnd (get_urb rd) (\<lambda>u. bnd (gets umem) (\<lambda>m.
       bnd (lift_option ''strcmp'' (strcmp (arr (ub_name u)) (ptr m straddr))) (\<lambda>d.
         if d \<noteq> 0 then ret (- 1)
         else thn (set_urb (nat rd) (\<lambda>u. u\<lparr>ub_exists := 0\<rparr>)) (closebuf straddr opdesc)))))"

section \<open>Reading and writing\<close>

text \<open>The results of the two \<open>start\<close> functions are the C result and what is stored in \<open>*addr\<close> and \<open>*bytes\<close>.
  The comparison of an \<open>unsigned long\<close> with 0 is written out.\<close>

definition ringbuf_start_write :: "int \<Rightarrow> ('z ustate_scheme, int \<times> (addr \<times> uint32) option) kfun" where
  "ringbuf_start_write rd = bnd (valid_rd rd) (\<lambda>ok. if \<not> ok then ret (- 1, None)
     else bnd (get_urb rd) (\<lambda>u.
       bnd (u_load (read_done (ub_book u))) (\<lambda>r. bnd (u_load (write_done (ub_book u))) (\<lambda>w.
         if BUF_SIZE - (scast w - scast r) < 0 then panic ''exit''
         else ret (0, Some (ub_buf u, ucast (BUF_SIZE - (scast w - scast r))))))))"

definition ringbuf_finish_write :: "int \<Rightarrow> uint32 \<Rightarrow> ('z ustate_scheme, int) kfun" where
  "ringbuf_finish_write rd bytes = bnd (valid_rd rd) (\<lambda>ok. if \<not> ok then ret (- 1)
     else bnd (get_urb rd) (\<lambda>u. bnd (u_load (write_done (ub_book u))) (\<lambda>w.
       thn (u_store (write_done (ub_book u)) (ucast (scast w + scast bytes :: uint64))) (ret 0))))"

definition ringbuf_start_read :: "int \<Rightarrow> ('z ustate_scheme, int \<times> (addr \<times> uint32) option) kfun" where
  "ringbuf_start_read rd = bnd (valid_rd rd) (\<lambda>ok. if \<not> ok then ret (- 1, None)
     else bnd (get_urb rd) (\<lambda>u.
       bnd (u_load (read_done (ub_book u))) (\<lambda>r. bnd (u_load (write_done (ub_book u))) (\<lambda>w.
         if BUF_SIZE - (scast w - scast r) < 0 then panic ''exit''
         else ret (0, Some (ub_buf u, ucast (scast w - scast r :: uint64)))))))"

definition ringbuf_finish_read :: "int \<Rightarrow> uint32 \<Rightarrow> ('z ustate_scheme, int) kfun" where
  "ringbuf_finish_read rd bytes = bnd (valid_rd rd) (\<lambda>ok. if \<not> ok then ret (- 1)
     else bnd (get_urb rd) (\<lambda>u. bnd (u_load (read_done (ub_book u))) (\<lambda>r.
       thn (u_store (read_done (ub_book u)) (ucast (scast r + scast bytes :: uint64))) (ret 0))))"

section \<open>The counters\<close>

lemma take_bit_32_64:
  "take_bit 32 (take_bit 64 a + take_bit 64 b) = take_bit 32 (a + b)"
  "take_bit 32 (take_bit 64 a - take_bit 64 b) = take_bit 32 (a - b)" for a b :: int
  using take_bit_add [of 32 "take_bit 64 a" "take_bit 64 b"] take_bit_add [of 32 a b]
    take_bit_diff [of 32 "take_bit 64 a" "take_bit 64 b"] take_bit_diff [of 32 a b]
  by (simp_all only: take_bit_take_bit min_def numeral_le_iff Num.le_num_simps if_True if_False)

lemma ucast_64_32:
  "ucast (a + b :: uint64) = (ucast a + ucast b :: uint32)"
  "ucast (a - b :: uint64) = (ucast a - ucast b :: uint32)"
  by (transfer, simp add: take_bit_32_64)+

lemma ucast_scast_32 [simp]: "ucast (scast w :: uint64) = (w :: uint32)"
  by transfer (simp add: take_bit_signed_take_bit)

text \<open>The two counters as the library reads them, and a valid descriptor.\<close>

definition rcount :: "pmem \<Rightarrow> addr \<Rightarrow> uint32" where "rcount m b = ucast (load64 m b)"
definition wcount :: "pmem \<Rightarrow> addr \<Rightarrow> uint32" where "wcount m b = ucast (load64 m (b + 8))"

definition open_ring :: "int \<Rightarrow> addr \<Rightarrow> 'z ustate_scheme \<Rightarrow> bool" where
  "open_ring rd b s \<longleftrightarrow> 0 \<le> rd \<and> rd < int U_MAX_RINGBUFS \<and> length (user_ring_bufs s) = U_MAX_RINGBUFS \<and>
     ub_exists (user_ring_bufs s ! nat rd) = 1 \<and> ub_book (user_ring_bufs s ! nat rd) = b \<and> 8 dvd unat b"

lemma open_ring_runs:
  assumes "open_ring rd b s"
  shows "valid_rd rd s = Ret True s" and "get_urb rd s = Ret (user_ring_bufs s ! nat rd) s"
    and "ub_book (user_ring_bufs s ! nat rd) = b"
proof -
  have "nat rd < length (user_ring_bufs s)" "0 \<le> rd" "\<not> rd > int U_MAX_RINGBUFS"
    using assms by (auto simp: open_ring_def)
  then show "get_urb rd s = Ret (user_ring_bufs s ! nat rd) s" "valid_rd rd s = Ret True s"
    using assms by (simp_all add: get_urb_def valid_rd_def monad_simps open_ring_def)
  show "ub_book (user_ring_bufs s ! nat rd) = b" using assms by (simp add: open_ring_def)
qed

lemma start_write_run:
  assumes "open_ring rd b s"
  shows "ringbuf_start_write rd s =
    Ret (0, Some (ub_buf (user_ring_bufs s ! nat rd), 65536 - (wcount (umem s) b - rcount (umem s) b))) s"
  using open_ring_runs [OF assms]
  by (simp add: ringbuf_start_write_def monad_simps u_load_def rcount_def wcount_def read_done_def write_done_def
      ucast_64_32 BUF_SIZE_def)

lemma start_read_run:
  assumes "open_ring rd b s"
  shows "ringbuf_start_read rd s =
    Ret (0, Some (ub_buf (user_ring_bufs s ! nat rd), wcount (umem s) b - rcount (umem s) b)) s"
  using open_ring_runs [OF assms]
  by (simp add: ringbuf_start_read_def monad_simps u_load_def rcount_def wcount_def read_done_def write_done_def ucast_64_32)

lemma finish_write_run:
  assumes "open_ring rd b s"
  shows "ringbuf_finish_write rd k s = Ret 0 (s\<lparr>umem := store64 (umem s) (b + 8) (scast (wcount (umem s) b + k))\<rparr>)"
  using open_ring_runs [OF assms]
  by (simp add: ringbuf_finish_write_def monad_simps u_load_def u_store_def wcount_def write_done_def ucast_64_32)

lemma finish_read_run:
  assumes "open_ring rd b s"
  shows "ringbuf_finish_read rd k s = Ret 0 (s\<lparr>umem := store64 (umem s) b (scast (rcount (umem s) b + k))\<rparr>)"
  using open_ring_runs [OF assms]
  by (simp add: ringbuf_finish_read_def monad_simps u_load_def u_store_def rcount_def read_done_def ucast_64_32)

lemma book_words: "8 dvd unat (b :: addr) \<Longrightarrow> 8 dvd unat (b + 8) \<and> b \<noteq> b + 8"
proof -
  assume "8 dvd unat b"
  then have "8 dvd (unat b + 8) mod 2 ^ 64" by (intro dvd_mod) simp_all
  then show ?thesis by (simp add: unat_word_ariths)
qed

lemma counts_store:
  assumes "8 dvd unat b"
  shows "rcount (store64 m b (scast v)) b = v" and "wcount (store64 m b x) b = wcount m b"
    and "rcount (store64 m (b + 8) x) b = rcount m b" and "wcount (store64 m (b + 8) (scast v)) b = v"
proof -
  have b: "8 dvd unat (b + 8)" "b \<noteq> b + 8" "b + 8 \<noteq> b" using book_words [OF assms] by auto
  show "rcount (store64 m b (scast v)) b = v" "wcount (store64 m b x) b = wcount m b"
      "rcount (store64 m (b + 8) x) b = rcount m b" "wcount (store64 m (b + 8) (scast v)) b = v"
    using b load64_store64_other [OF assms b(1,2)] load64_store64_other [OF b(1) assms b(3)]
    by (simp_all add: rcount_def wcount_def)
qed

section \<open>Two processes at one ring\<close>

text \<open>
  A writer and a reader with descriptors for the same ring.  They share the frame of the book, so that
  what one stores in it the other sees (\<open>mirror\<close>).  The writer may finish at most as many bytes as its last
  \<open>ringbuf_start_write\<close> has reported, the reader at most as many as its last \<open>ringbuf_start_read\<close>;
  \<open>room\<close> and \<open>avail\<close> hold what is left of that, \<open>written\<close> and \<open>taken\<close> count all bytes so far.
\<close>

record ipc =
  writer :: ustate
  reader :: ustate
  room :: nat
  avail :: nat
  written :: nat
  taken :: nat

definition mirror :: "addr \<Rightarrow> pmem \<Rightarrow> addr \<Rightarrow> pmem \<Rightarrow> pmem" where
  "mirror a m b m' = store64 (store64 m' b (load64 m a)) (b + 8) (load64 m (a + 8))"

definition mirrored :: "int \<Rightarrow> ustate \<Rightarrow> int \<Rightarrow> ustate \<Rightarrow> ustate" where
  "mirrored rd s rd' t = t\<lparr>umem := mirror (ub_book (user_ring_bufs s ! nat rd)) (umem s)
     (ub_book (user_ring_bufs t ! nat rd')) (umem t)\<rparr>"

inductive ipc_step :: "int \<Rightarrow> int \<Rightarrow> ipc \<Rightarrow> ipc \<Rightarrow> bool" for w r :: int where
  start_write: "ringbuf_start_write w (writer s) = Ret (0, Some (p, n)) u \<Longrightarrow>
    ipc_step w r s (s\<lparr>writer := u, room := unat n\<rparr>)"
| finish_write: "k \<le> room s \<Longrightarrow> ringbuf_finish_write w (of_nat k) (writer s) = Ret 0 u \<Longrightarrow>
    ipc_step w r s (s\<lparr>writer := u, reader := mirrored w u r (reader s), room := room s - k, written := written s + k\<rparr>)"
| start_read: "ringbuf_start_read r (reader s) = Ret (0, Some (p, n)) u \<Longrightarrow>
    ipc_step w r s (s\<lparr>reader := u, avail := unat n\<rparr>)"
| finish_read: "k \<le> avail s \<Longrightarrow> ringbuf_finish_read r (of_nat k) (reader s) = Ret 0 u \<Longrightarrow>
    ipc_step w r s (s\<lparr>reader := u, writer := mirrored r u w (writer s), avail := avail s - k, taken := taken s + k\<rparr>)"

inductive_cases ipc_stepE: "ipc_step w r s t"

definition ipc_inv :: "int \<Rightarrow> addr \<Rightarrow> int \<Rightarrow> addr \<Rightarrow> ipc \<Rightarrow> bool" where
  "ipc_inv w a r b s \<longleftrightarrow> open_ring w a (writer s) \<and> open_ring r b (reader s) \<and>
     rcount (umem (writer s)) a = of_nat (taken s) \<and> wcount (umem (writer s)) a = of_nat (written s) \<and>
     rcount (umem (reader s)) b = of_nat (taken s) \<and> wcount (umem (reader s)) b = of_nat (written s) \<and>
     taken s + avail s \<le> written s \<and> written s + room s \<le> taken s + 65536"

lemma counts_mirror:
  assumes "8 dvd unat a" and "8 dvd unat b"
  shows "rcount (mirror a m b m') b = rcount m a" and "wcount (mirror a m b m') b = wcount m a"
proof -
  have b: "8 dvd unat (b + 8)" "b + 8 \<noteq> b" using book_words [OF assms(2)] by auto
  show "rcount (mirror a m b m') b = rcount m a" "wcount (mirror a m b m') b = wcount m a"
    using load64_store64_other [OF b(1) assms(2) b(2)] by (simp_all add: mirror_def rcount_def wcount_def)
qed

lemma unat_diff_32:
  assumes "t \<le> w" and "w - t \<le> 65536"
  shows "unat (of_nat w - of_nat t :: uint32) = w - t" and "unat (65536 - (of_nat w - of_nat t) :: uint32) = 65536 - (w - t)"
proof -
  have d: "of_nat w - of_nat t = (of_nat (w - t) :: uint32)" using assms(1) by simp
  then show "unat (of_nat w - of_nat t :: uint32) = w - t" using assms(2) by (simp only: unat_of_nat) simp
  then have "(of_nat w - of_nat t :: uint32) \<le> 65536" using assms(2) by (simp add: word_le_nat_alt)
  then show "unat (65536 - (of_nat w - of_nat t) :: uint32) = 65536 - (w - t)"
    using \<open>unat (of_nat w - of_nat t :: uint32) = w - t\<close> by (simp add: unat_sub)
qed

lemma ipc_step_inv:
  assumes "ipc_step w r s t" and "ipc_inv w a r b s"
  shows "ipc_inv w a r b t"
proof -
  note i = assms(2) [unfolded ipc_inv_def]
  have ow: "open_ring w a (writer s)" and orr: "open_ring r b (reader s)" using i by auto
  have al: "8 dvd unat a" "8 dvd unat b" using ow orr by (auto simp: open_ring_def)
  have d: "taken s \<le> written s" "written s - taken s \<le> 65536" using i by auto
  have book: "ub_book (user_ring_bufs (writer s) ! nat w) = a" "ub_book (user_ring_bufs (reader s) ! nat r) = b"
    using ow orr by (auto simp: open_ring_def)
  from assms(1) show ?thesis
  proof cases
    case (start_write p n u)
    then have "u = writer s" "unat n = 65536 - (written s - taken s)"
      using start_write_run [OF ow] i unat_diff_32(2) [OF d] by auto
    with start_write(1) i show ?thesis by (simp add: ipc_inv_def)
  next
    case (start_read p n u)
    then have "u = reader s" "unat n = written s - taken s"
      using start_read_run [OF orr] i unat_diff_32(1) [OF d] by auto
    with start_read(1) i show ?thesis by (simp add: ipc_inv_def)
  next
    case (finish_write k u)
    then have "u = (writer s)\<lparr>umem := store64 (umem (writer s)) (a + 8) (scast (of_nat (written s) + of_nat k :: uint32))\<rparr>"
      using finish_write_run [OF ow] i by auto
    with finish_write(1,2) i book show ?thesis
      by (simp add: ipc_inv_def open_ring_def mirrored_def counts_mirror [OF al] counts_store [OF al(1)])
  next
    case (finish_read k u)
    then have "u = (reader s)\<lparr>umem := store64 (umem (reader s)) b (scast (of_nat (taken s) + of_nat k :: uint32))\<rparr>"
      using finish_read_run [OF orr] i by auto
    with finish_read(1,2) i book show ?thesis
      by (simp add: ipc_inv_def open_ring_def mirrored_def counts_mirror [OF al(2,1)] counts_store [OF al(2)])
  qed
qed

section \<open>Opening a ring\<close>

lemma scan_to:
  assumes "\<forall>j\<in>set is. ub_exists (user_ring_bufs s ! j) = 1 \<and> j < length (user_ring_bufs s)"
  shows "createRingBuf_scan (is @ js) straddr exis a s = createRingBuf_scan js straddr exis a s"
  using assms by (induction "is") (simp_all add: monad_simps get_urb_def)

definition first_free :: "nat \<Rightarrow> 'z ustate_scheme \<Rightarrow> bool" where
  "first_free i s \<longleftrightarrow> length (user_ring_bufs s) = U_MAX_RINGBUFS \<and> i < U_MAX_RINGBUFS \<and>
     ub_exists (user_ring_bufs s ! i) \<noteq> 1 \<and> (\<forall>j<i. ub_exists (user_ring_bufs s ! j) = 1)"

lemma scan_first_free:
  assumes "first_free i s"
  shows "createRingBuf_scan [0..<U_MAX_RINGBUFS] straddr exis a s = createRingBuf_scan (i # [Suc i..<U_MAX_RINGBUFS]) straddr exis a s"
proof -
  have "[0..<U_MAX_RINGBUFS] = [0..<i] @ i # [Suc i..<U_MAX_RINGBUFS]"
    using assms upt_add_eq_append [of 0 i "U_MAX_RINGBUFS - i"] by (simp add: first_free_def upt_conv_Cons)
  then show ?thesis using assms scan_to [of "[0..<i]" s] by (simp add: first_free_def del: createRingBuf_scan.simps)
qed

text \<open>Storing the two counters leaves the name alone.\<close>

lemma book_stores_keep:
  assumes "str_at m s cs" and "Suc (length cs) \<le> 2 ^ 64"
    and "\<forall>x. in_range s (Suc (length cs)) x \<longrightarrow> \<not> in_range b 8 x \<and> \<not> in_range (b + 8) 8 x"
  shows "str_at (store64 (store64 m b v) (b + 8) v') s cs"
  using assms(3) by (intro str_at_cong [OF _ assms(2,1)]) (simp add: store64_other)

lemma createRingBuf_run:
  assumes "createbuf straddr opdesc s = Ret (exis, a) s'" and "exis \<noteq> - 1" and "first_free i s'"
    and "str_at (umem s') straddr cs" and "length cs < 16"
    and "b = a + BOOKOFFSET"
    and "\<forall>x. in_range straddr (Suc (length cs)) x \<longrightarrow> \<not> in_range b 8 x \<and> \<not> in_range (b + 8) 8 x"
  shows "createRingBuf createbuf straddr opdesc s = Ret (int i)
    (s'\<lparr>umem := (if exis \<noteq> 0 then store64 (store64 (umem s') b 0) (b + 8) 0 else umem s'),
        user_ring_bufs := (user_ring_bufs s')[i := (user_ring_bufs s' ! i)\<lparr>ub_buf := a, ub_book := b,
          ub_exists := (if exis \<noteq> 0 then ub_exists (user_ring_bufs s' ! i) else 1),
          ub_name := cs @ 0 # drop (Suc (length cs)) (ub_name (user_ring_bufs s' ! i))\<rparr>]\<rparr>)"
proof -
  have len: "u_strlen (umem s') straddr = Some (of_nat (length cs))"
    using u_strlen_str [OF assms(4)] assms(5) by (simp add: INT_MAX_def)
  have "\<not> (of_nat (length cs) :: uint32) > 16" using assms(5) by (simp add: word_less_nat_alt unat_of_nat)
  then have "createRingBuf createbuf straddr opdesc s = createRingBuf_scan (i # [Suc i..<U_MAX_RINGBUFS]) straddr exis a s'"
    using assms(1,2) len by (simp add: createRingBuf_def monad_simps lift_option_def scan_first_free [OF assms(3)])
  moreover have "str_bytes (store64 (store64 (umem s') b 0) (b + 8) 0) straddr = Some cs"
    using book_stores_keep [OF assms(4) _ assms(7)] assms(5) by (intro str_bytes_str) simp
  ultimately show ?thesis
    using assms(3,5) str_bytes_str [OF assms(4)]
    by (auto simp: monad_simps get_urb_def set_urb_def u_store_def copy_name_def lift_option_def first_free_def
        read_done_def write_done_def assms(6))
qed

section \<open>Examples\<close>

text \<open>A process with descriptor 0 open on the ring at \<open>a\<close>, and a writer and a reader at the start.\<close>

definition ring_user0 :: "addr \<Rightarrow> ustate" where
  "ring_user0 a = \<lparr>umem = (\<lambda>_. 0), user_ring_bufs = \<lparr>ub_buf = a, ub_book = a + BOOKOFFSET, ub_exists = 1,
     ub_name = replicate 16 0\<rparr> # replicate 9 \<lparr>ub_buf = 0, ub_book = 0, ub_exists = 0, ub_name = replicate 16 0\<rparr>\<rparr>"

definition ipc0 :: ipc where
  "ipc0 = \<lparr>writer = ring_user0 0x3F00000000, reader = ring_user0 0x3F00030000, room = 0, avail = 0, written = 0, taken = 0\<rparr>"

lemma ipc0_inv: "ipc_inv 0 0x3F00020000 0 0x3F00050000 ipc0"
  by (simp add: ipc_inv_def ipc0_def open_ring_def ring_user0_def U_MAX_RINGBUFS_def BOOKOFFSET_def rcount_def wcount_def load64_of_zero)

section \<open>Properties\<close>





end
