(* ===== verification/Spinlock.thy ===== *)
theory Spinlock
  imports Prelude
begin

text \<open>
  Spin locks, \<open>kernel/spinlock.c\<close>, with several harts: the word \<open>locked\<close> that the atomic swap works on, the
  \<open>cpu\<close> field, and the nesting of interrupt disabling in \<open>push_off\<close> and \<open>pop_off\<close>.  Harts interleave
  between the memory accesses of \<open>acquire\<close> and \<open>release\<close>; the fences of the source mean that these happen in
  program order.  The rest of the development takes and releases locks through the list \<open>held\<close> of the
  prelude; here \<open>mine h\<close>, which no code reads, is that list for hart \<open>h\<close>.
\<close>

section \<open>State\<close>

text \<open>Where a hart is: outside of the lock code, in the loop of \<open>acquire\<close>, between the swap and the
  assignment of \<open>cpu\<close>, or between the two assignments of \<open>release\<close>.\<close>

datatype spin_pc = Outside | Spinning lock | Swapped lock | Cleared lock

record spins =
  locked :: "lock \<Rightarrow> uint32"
  lkcpu :: "lock \<Rightarrow> nat option"
  noff :: "nat \<Rightarrow> int"
  intena :: "nat \<Rightarrow> bool"
  intr :: "nat \<Rightarrow> bool"
  spc :: "nat \<Rightarrow> spin_pc"
  mine :: "nat \<Rightarrow> lock list"

definition spin_initlock :: "lock \<Rightarrow> (spins, unit) kfun" where
  "spin_initlock lk = modify (\<lambda>s. s\<lparr>locked := (locked s)(lk := 0), lkcpu := (lkcpu s)(lk := None)\<rparr>)"

definition holding :: "nat \<Rightarrow> lock \<Rightarrow> (spins, bool) kfun" where
  "holding h lk = gets (\<lambda>s. locked s lk \<noteq> 0 \<and> lkcpu s lk = Some h)"

definition push_off :: "nat \<Rightarrow> (spins, unit) kfun" where
  "push_off h = bnd (gets (\<lambda>s. intr s h)) (\<lambda>old.
     thn (modify (\<lambda>s. s\<lparr>intr := (intr s)(h := False)\<rparr>))
    (thn (modify (\<lambda>s. if noff s h = 0 then s\<lparr>intena := (intena s)(h := old)\<rparr> else s))
         (modify (\<lambda>s. s\<lparr>noff := (noff s)(h := noff s h + 1)\<rparr>))))"

definition pop_off :: "nat \<Rightarrow> (spins, unit) kfun" where
  "pop_off h = bnd (gets (\<lambda>s. intr s h)) (\<lambda>on. if on then panic ''pop_off - interruptible''
     else bnd (gets (\<lambda>s. noff s h)) (\<lambda>n. if n < 1 then panic ''pop_off''
     else thn (modify (\<lambda>s. s\<lparr>noff := (noff s)(h := noff s h - 1)\<rparr>))
              (modify (\<lambda>s. if noff s h = 0 \<and> intena s h then s\<lparr>intr := (intr s)(h := True)\<rparr> else s))))"

section \<open>Acquire and release\<close>

text \<open>\<open>acquire\<close> up to the loop, one turn of the loop (the value that the swap gives back), and the rest.\<close>

definition acquire_enter :: "nat \<Rightarrow> lock \<Rightarrow> (spins, unit) kfun" where
  "acquire_enter h lk = thn (push_off h) (bnd (holding h lk) (\<lambda>b. if b then panic ''acquire'' else ret ()))"

definition acquire_swap :: "lock \<Rightarrow> (spins, uint32) kfun" where
  "acquire_swap lk = bnd (gets (\<lambda>s. locked s lk)) (\<lambda>old. thn (modify (\<lambda>s. s\<lparr>locked := (locked s)(lk := 1)\<rparr>)) (ret old))"

definition acquire_record :: "nat \<Rightarrow> lock \<Rightarrow> (spins, unit) kfun" where
  "acquire_record h lk = modify (\<lambda>s. s\<lparr>lkcpu := (lkcpu s)(lk := Some h)\<rparr>)"

definition release_enter :: "nat \<Rightarrow> lock \<Rightarrow> (spins, unit) kfun" where
  "release_enter h lk = bnd (holding h lk) (\<lambda>b. if \<not> b then panic ''release''
     else modify (\<lambda>s. s\<lparr>lkcpu := (lkcpu s)(lk := None)\<rparr>))"

definition release_unlock :: "nat \<Rightarrow> lock \<Rightarrow> (spins, unit) kfun" where
  "release_unlock h lk = thn (modify (\<lambda>s. s\<lparr>locked := (locked s)(lk := 0)\<rparr>)) (pop_off h)"

text \<open>The steps of the harts.  A panic stops the machine and has no step.\<close>

inductive spin_step :: "spins \<Rightarrow> spins \<Rightarrow> bool" where
  enter: "spc s h = Outside \<Longrightarrow> acquire_enter h lk s = Ret () t \<Longrightarrow> spin_step s (t\<lparr>spc := (spc t)(h := Spinning lk)\<rparr>)"
| spin: "spc s h = Spinning lk \<Longrightarrow> acquire_swap lk s = Ret old t \<Longrightarrow> old \<noteq> 0 \<Longrightarrow> spin_step s t"
| swap: "spc s h = Spinning lk \<Longrightarrow> acquire_swap lk s = Ret 0 t \<Longrightarrow>
    spin_step s (t\<lparr>spc := (spc t)(h := Swapped lk), mine := (mine t)(h := lk # mine t h)\<rparr>)"
| recorded: "spc s h = Swapped lk \<Longrightarrow> acquire_record h lk s = Ret () t \<Longrightarrow> spin_step s (t\<lparr>spc := (spc t)(h := Outside)\<rparr>)"
| leave: "spc s h = Outside \<Longrightarrow> release_enter h lk s = Ret () t \<Longrightarrow> spin_step s (t\<lparr>spc := (spc t)(h := Cleared lk)\<rparr>)"
| unlock: "spc s h = Cleared lk \<Longrightarrow> release_unlock h lk s = Ret () t \<Longrightarrow>
    spin_step s (t\<lparr>spc := (spc t)(h := Outside), mine := (mine t)(h := remove1 lk (mine t h))\<rparr>)"

section \<open>Invariant\<close>

definition spin_inv :: "spins \<Rightarrow> bool" where
  "spin_inv s \<longleftrightarrow>
     (\<forall>h. distinct (mine s h) \<and> noff s h = int (length (mine s h)) + (case spc s h of Spinning _ \<Rightarrow> 1 | _ \<Rightarrow> 0)) \<and>
     (\<forall>h. noff s h > 0 \<longrightarrow> \<not> intr s h) \<and>
     (\<forall>l h h'. l \<in> set (mine s h) \<and> l \<in> set (mine s h') \<longrightarrow> h = h') \<and>
     (\<forall>l. locked s l \<noteq> 0 \<longleftrightarrow> (\<exists>h. l \<in> set (mine s h))) \<and>
     (\<forall>l h. lkcpu s l = Some h \<longleftrightarrow> l \<in> set (mine s h) \<and> spc s h \<noteq> Swapped l \<and> spc s h \<noteq> Cleared l) \<and>
     (\<forall>l h. spc s h = Swapped l \<or> spc s h = Cleared l \<longrightarrow> l \<in> set (mine s h))"

lemma push_off_run:
  "push_off h s = Ret () (s\<lparr>intr := (intr s)(h := False),
     intena := (if noff s h = 0 then (intena s)(h := intr s h) else intena s), noff := (noff s)(h := noff s h + 1)\<rparr>)"
  by (simp add: push_off_def monad_simps)

lemma pop_off_Ret:
  "pop_off h s = Ret u t \<longleftrightarrow> \<not> intr s h \<and> noff s h \<ge> 1 \<and>
     t = s\<lparr>noff := (noff s)(h := noff s h - 1), intr := (if noff s h = 1 \<and> intena s h then (intr s)(h := True) else intr s)\<rparr>"
  by (auto simp: pop_off_def returns_iff)

lemma acquire_enter_Ret:
  "acquire_enter h lk s = Ret u t \<longleftrightarrow> \<not> (locked s lk \<noteq> 0 \<and> lkcpu s lk = Some h) \<and>
     t = s\<lparr>intr := (intr s)(h := False), intena := (if noff s h = 0 then (intena s)(h := intr s h) else intena s),
       noff := (noff s)(h := noff s h + 1)\<rparr>"
  by (auto simp: acquire_enter_def holding_def returns_iff push_off_run)

lemma acquire_swap_Ret:
  "acquire_swap lk s = Ret old t \<longleftrightarrow> old = locked s lk \<and> t = s\<lparr>locked := (locked s)(lk := 1)\<rparr>"
  by (auto simp: acquire_swap_def returns_iff)

lemma release_enter_Ret:
  "release_enter h lk s = Ret u t \<longleftrightarrow> locked s lk \<noteq> 0 \<and> lkcpu s lk = Some h \<and> t = s\<lparr>lkcpu := (lkcpu s)(lk := None)\<rparr>"
  by (auto simp: release_enter_def holding_def returns_iff)

lemma release_unlock_Ret:
  "release_unlock h lk s = Ret u t \<longleftrightarrow> \<not> intr s h \<and> noff s h \<ge> 1 \<and>
     t = s\<lparr>locked := (locked s)(lk := 0), noff := (noff s)(h := noff s h - 1),
       intr := (if noff s h = 1 \<and> intena s h then (intr s)(h := True) else intr s)\<rparr>"
  by (auto simp: release_unlock_def returns_iff pop_off_Ret)

lemmas spin_runs = acquire_enter_Ret acquire_swap_Ret release_enter_Ret release_unlock_Ret

text \<open>The parts of the invariant, one by one.\<close>

lemma spin_invD:
  assumes "spin_inv s"
  shows "distinct (mine s h)" and "noff s h = int (length (mine s h)) + (case spc s h of Spinning _ \<Rightarrow> 1 | _ \<Rightarrow> 0)"
    and "noff s h > 0 \<Longrightarrow> \<not> intr s h" and "l \<in> set (mine s h) \<Longrightarrow> l \<in> set (mine s h') \<Longrightarrow> h = h'"
    and "locked s l \<noteq> 0 \<longleftrightarrow> (\<exists>h. l \<in> set (mine s h))"
    and "lkcpu s l = Some h \<longleftrightarrow> l \<in> set (mine s h) \<and> spc s h \<noteq> Swapped l \<and> spc s h \<noteq> Cleared l"
    and "spc s h = Swapped l \<or> spc s h = Cleared l \<Longrightarrow> l \<in> set (mine s h)"
  using assms unfolding spin_inv_def by blast+

lemma spin_step_inv:
  assumes "spin_step s t" and inv: "spin_inv s"
  shows "spin_inv t"
  using assms(1)
proof cases
  case (enter h lk u)
  have "0 \<le> noff s h'" for h' using spin_invD(2) [OF inv] by (simp split: spin_pc.split)
  with enter inv show ?thesis by (auto simp: spin_inv_def spin_runs split: spin_pc.splits)
next
  case (spin h lk old)
  then show ?thesis using inv by (auto simp: spin_inv_def spin_runs)
next
  case (swap h lk u)
  then have free: "lk \<notin> set (mine s h')" for h' using spin_invD(5) [OF inv, of lk] by (auto simp: spin_runs)
  with swap inv show ?thesis by (auto simp: spin_inv_def spin_runs) metis
next
  case (recorded h lk u)
  then have own: "lk \<in> set (mine s h') \<Longrightarrow> h' = h" for h'
    using spin_invD(4,7) [OF inv] by blast
  with recorded show ?thesis using inv spin_invD(6,7) [OF inv]
    by (auto simp: spin_inv_def acquire_record_def monad_simps split: if_splits)
next
  case (leave h lk u)
  then show ?thesis using inv by (auto simp: spin_inv_def spin_runs)
next
  case (unlock h lk u)
  then have own: "lk \<in> set (mine s h') \<longleftrightarrow> h' = h" for h'
    using spin_invD(4,7) [OF inv] by blast
  have off: "\<not> intr s h" "noff s h = int (length (mine s h))" "1 \<le> length (mine s h)"
    and t: "t = s\<lparr>locked := (locked s)(lk := 0), noff := (noff s)(h := noff s h - 1),
      intr := (if noff s h = 1 \<and> intena s h then (intr s)(h := True) else intr s),
      spc := (spc s)(h := Outside), mine := (mine s)(h := remove1 lk (mine s h))\<rparr>"
    using unlock spin_invD(2) [OF inv, of h] by (auto simp: release_unlock_Ret)
  have m: "set (mine t h') = set (mine s h') - (if h' = h then {lk} else {})" for h'
    using spin_invD(1) [OF inv] by (simp add: t)
  have l: "(l \<in> set (mine t h')) = (l \<in> set (mine s h') \<and> l \<noteq> lk)" for l h'
    using own by (auto simp: m)
  show ?thesis
    unfolding spin_inv_def
  proof (intro conjI allI)
    fix h' l h''
    show "distinct (mine t h')" using spin_invD(1) [OF inv] by (simp add: t)
    show "noff t h' = int (length (mine t h')) + (case spc t h' of Spinning _ \<Rightarrow> 1 | _ \<Rightarrow> 0)"
      using spin_invD(2) [OF inv, of h'] off own by (auto simp: t length_remove1)
    show "noff t h' > 0 \<longrightarrow> \<not> intr t h'" using spin_invD(3) [OF inv, of h'] off by (simp add: t)
    show "l \<in> set (mine t h') \<and> l \<in> set (mine t h'') \<longrightarrow> h' = h''" unfolding l using spin_invD(4) [OF inv] by blast
    show "locked t l \<noteq> 0 \<longleftrightarrow> (\<exists>h. l \<in> set (mine t h))" unfolding l using spin_invD(5) [OF inv, of l] by (simp add: t)
    show "lkcpu t l = Some h' \<longleftrightarrow> l \<in> set (mine t h') \<and> spc t h' \<noteq> Swapped l \<and> spc t h' \<noteq> Cleared l"
      unfolding l using spin_invD(6) [OF inv, of l h'] unlock(2) own by (auto simp: t)
    show "spc t h' = Swapped l \<or> spc t h' = Cleared l \<longrightarrow> l \<in> set (mine t h')"
      unfolding l using spin_invD(7) [OF inv, of h' l] own by (auto simp: t)
  qed
qed

section \<open>Properties\<close>

text \<open>A machine of any number of harts at the start: no lock is taken, all harts are outside.\<close>

definition spin_start :: "spins \<Rightarrow> bool" where
  "spin_start s \<longleftrightarrow> (\<forall>l. locked s l = 0 \<and> lkcpu s l = None) \<and> (\<forall>h. noff s h = 0 \<and> spc s h = Outside \<and> mine s h = [])"

lemma spin_start_inv: "spin_start s \<Longrightarrow> spin_inv s"
  by (auto simp: spin_start_def spin_inv_def)

lemma spin_reach_inv: "spin_start s \<Longrightarrow> spin_step\<^sup>*\<^sup>* s t \<Longrightarrow> spin_inv t"
  by (rotate_tac, induction rule: rtranclp_induct) (auto intro: spin_start_inv spin_step_inv)

text \<open>C37: Spin locks exclude: whatever the harts do, no lock is held by two of them, and a hart that holds a lock or
  waits for one has its interrupts off.  They implement the lists of held locks with which the rest of the
  kernel is described: outside of the lock code \<open>holding\<close> says whether the lock is in the list, so that
  \<open>acquire\<close> and \<open>release\<close> panic exactly when the operations on the list do, and a release that does not
  panic always gets through.\<close>

theorem spinlock_refines_held:
  assumes "spin_start s" and "spin_step\<^sup>*\<^sup>* s t"
  shows "(\<forall>l h h'. l \<in> set (mine t h) \<and> l \<in> set (mine t h') \<longrightarrow> h = h') \<and>
    (\<forall>h. mine t h \<noteq> [] \<or> spc t h \<noteq> Outside \<longrightarrow> \<not> intr t h) \<and>
    (\<forall>h l. spc t h = Outside \<longrightarrow>
      (acquire_enter h l t = Panic ''acquire'' \<longleftrightarrow> acquire l \<lparr>held = mine t h\<rparr> = Panic ''acquire'') \<and>
      (release_enter h l t = Panic ''release'' \<longleftrightarrow> release l \<lparr>held = mine t h\<rparr> = Panic ''release'')) \<and>
    (\<forall>h l. spc t h = Cleared l \<longrightarrow> (\<exists>u. release_unlock h l t = Ret () u))"
proof (intro conjI allI impI)
  note inv = spin_reach_inv [OF assms]
  show "h = h'" if "l \<in> set (mine t h) \<and> l \<in> set (mine t h')" for l h h'
    using that spin_invD(4) [OF inv] by blast
  show "\<not> intr t h" if "mine t h \<noteq> [] \<or> spc t h \<noteq> Outside" for h
  proof -
    have "noff t h > 0"
      using that spin_invD(2) [OF inv, of h] spin_invD(7) [OF inv, of h] by (cases "spc t h") (auto dest: length_pos_if_in_set)
    then show ?thesis by (rule spin_invD(3) [OF inv])
  qed
  show "acquire_enter h l t = Panic ''acquire'' \<longleftrightarrow> acquire l \<lparr>held = mine t h\<rparr> = Panic ''acquire''"
    "release_enter h l t = Panic ''release'' \<longleftrightarrow> release l \<lparr>held = mine t h\<rparr> = Panic ''release''"
    if "spc t h = Outside" for h l
  proof -
    have "locked t l \<noteq> 0 \<and> lkcpu t l = Some h \<longleftrightarrow> l \<in> set (mine t h)"
      using that spin_invD(5,6) [OF inv] by auto
    then show "acquire_enter h l t = Panic ''acquire'' \<longleftrightarrow> acquire l \<lparr>held = mine t h\<rparr> = Panic ''acquire''"
      "release_enter h l t = Panic ''release'' \<longleftrightarrow> release l \<lparr>held = mine t h\<rparr> = Panic ''release''"
      by (auto simp: acquire_enter_def release_enter_def holding_def push_off_run monad_simps acquire_def release_def)
  qed
  show "\<exists>u. release_unlock h l t = Ret () u" if "spc t h = Cleared l" for h l
  proof -
    have "l \<in> set (mine t h)" using that spin_invD(7) [OF inv] by blast
    then have "noff t h \<ge> 1" using spin_invD(2) [OF inv, of h] that by (cases "mine t h") auto
    with spin_invD(3) [OF inv, of h] show ?thesis by (auto simp: release_unlock_Ret)
  qed
qed

definition spins0 :: spins where
  "spins0 = \<lparr>locked = (\<lambda>_. 0), lkcpu = (\<lambda>_. None), noff = (\<lambda>_. 0), intena = (\<lambda>_. False), intr = (\<lambda>_. True),
     spc = (\<lambda>_. Outside), mine = (\<lambda>_. [])\<rparr>"

theorem spinlock_refines_held_witness:
  "\<exists>t. spin_step\<^sup>*\<^sup>* spins0 t \<and> spc t 1 = Spinning KmemLock \<and> \<not> intr t 1 \<and> intr t 0"
proof -
  obtain u where u: "acquire_enter 1 KmemLock spins0 = Ret () u" "spc u = (\<lambda>_. Outside)" "intr u = (\<lambda>_. True)(1 := False)"
    by (auto simp: acquire_enter_Ret spins0_def)
  let ?t = "u\<lparr>spc := (spc u)(1 := Spinning KmemLock)\<rparr>"
  have r: "spin_step\<^sup>*\<^sup>* spins0 ?t"
    using spin_step.enter [OF _ u(1)] by (intro r_into_rtranclp) (simp add: spins0_def)
  have "spin_start spins0" by (simp add: spin_start_def spins0_def)
  from spinlock_refines_held [OF this r] have "\<not> intr ?t 1" by simp
  with r u show ?thesis by (intro exI [of _ ?t]) simp
qed

end
