(* ===== verification/File.thy ===== *)
theory File
  imports Fs
begin

text \<open>
  Open files, \<open>kernel/file.c\<close>, and \<open>pipealloc\<close> of \<open>kernel/pipe.c\<close>.  A pointer to a file is its index in \<open>ftable\<close>.
  The table \<open>devsw\<close> has the functions of a device by name; only those of the console are ever stored in it.
  The structure \<open>st\<close> of \<open>filestat\<close> is laid into memory at \<open>stack_at\<close>, around the four bytes of padding that nothing sets.
\<close>

unbundle bit_operations_syntax

section \<open>State\<close>

datatype ftype = FD_NONE | FD_PIPE | FD_INODE | FD_DEVICE

record kfile =
  f_type :: ftype
  f_ref :: int
  f_readable :: uchar
  f_writable :: uchar
  f_pipe :: addr
  f_ip :: "nat option"
  f_off :: uint32
  f_major :: ushort

datatype devfun = Consoleread | Consolewrite

record devsw =
  dev_read :: "devfun option"
  dev_write :: "devfun option"

definition CONSOLE :: nat where "CONSOLE = 1"

record fistate = fsstate +
  devsws :: "devsw list"
  ftable :: "kfile list"

definition get_file :: "nat \<Rightarrow> ('z fistate_scheme, kfile) kfun" where
  "get_file f = gets (\<lambda>s. ftable s ! f)"

definition set_file :: "nat \<Rightarrow> (kfile \<Rightarrow> kfile) \<Rightarrow> ('z fistate_scheme, unit) kfun" where
  "set_file f g = modify (\<lambda>s. s\<lparr>ftable := (ftable s)[f := g (ftable s ! f)]\<rparr>)"

text \<open>The end of \<open>consoleinit\<close>, and a call through \<open>devsw\<close>.\<close>

definition consoleinit_devsw :: "('z fistate_scheme, unit) kfun" where
  "consoleinit_devsw = modify (\<lambda>s. s\<lparr>devsws := (devsws s)[CONSOLE := \<lparr>dev_read = Some Consoleread, dev_write = Some Consolewrite\<rparr>]\<rparr>)"

fun dev_call :: "devfun \<Rightarrow> uint64 \<Rightarrow> int \<Rightarrow> ('z fistate_scheme, int) kfun" where
  "dev_call Consoleread addr n = consoleread True addr n"
| "dev_call Consolewrite addr n = consolewrite True addr n"

section \<open>The table\<close>

definition fileinit :: "('z fistate_scheme, unit) kfun" where
  "fileinit = initlock FtableLock"

primrec filealloc_scan :: "nat list \<Rightarrow> ('z fistate_scheme, nat option) kfun" where
  "filealloc_scan [] = thn (release FtableLock) (ret None)"
| "filealloc_scan (f # fs) = bnd (get_file f) (\<lambda>x.
     if f_ref x = 0
     then thn (set_file f (\<lambda>x. x\<lparr>f_ref := 1\<rparr>)) (thn (release FtableLock) (ret (Some f)))
     else filealloc_scan fs)"

definition filealloc :: "('z fistate_scheme, nat option) kfun" where
  "filealloc = thn (acquire FtableLock) (filealloc_scan [0..<NFILE])"

definition filedup :: "nat \<Rightarrow> ('z fistate_scheme, nat) kfun" where
  "filedup f = thn (acquire FtableLock) (bnd (get_file f) (\<lambda>x.
     if f_ref x < 1 then panic ''filedup''
     else if f_ref x = 2147483647 then undef ''f->ref: overflow''
     else thn (set_file f (\<lambda>x. x\<lparr>f_ref := f_ref x + 1\<rparr>)) (thn (release FtableLock) (ret f))))"

text \<open>\<open>iput\<close> of a pointer that may be null.\<close>

definition iput_ptr :: "nat option \<Rightarrow> ('z fsstate_scheme, unit) kfun" where
  "iput_ptr p = (case p of None \<Rightarrow> undef ''iput: null'' | Some ip \<Rightarrow> iput ip)"

definition fileclose :: "nat \<Rightarrow> ('z fistate_scheme, unit) kfun" where
  "fileclose f = thn (acquire FtableLock) (bnd (get_file f) (\<lambda>x.
     if f_ref x < 1 then panic ''fileclose''
     else thn (set_file f (\<lambda>x. x\<lparr>f_ref := f_ref x - 1\<rparr>))
       (bnd (get_file f) (\<lambda>ff.
         if f_ref ff > 0 then release FtableLock
         else thn (set_file f (\<lambda>x. x\<lparr>f_ref := 0, f_type := FD_NONE\<rparr>))
             (thn (release FtableLock)
             (case f_type ff of
                FD_PIPE \<Rightarrow> pipeclose (f_pipe ff) (f_writable ff \<noteq> 0)
              | FD_INODE \<Rightarrow> thn begin_op (thn (iput_ptr (f_ip ff)) end_op)
              | FD_DEVICE \<Rightarrow> thn begin_op (thn (iput_ptr (f_ip ff)) end_op)
              | FD_NONE \<Rightarrow> ret ()))))))"

section \<open>Reading and writing\<close>

definition spill_stat :: "addr \<Rightarrow> kstat \<Rightarrow> ('z mstate_scheme, unit) kfun" where
  "spill_stat a st = modify (\<lambda>s. s\<lparr>mem := lay_out
     (lay_out (mem s) a (put16 (put16 (put32 (put32 (replicate 12 0) 0 (of_int (st_dev st))) 4 (st_ino st)) 8 (st_type st)) 10 (st_nlink st)))
     (a + 16) (put32 (put32 (replicate 8 0) 0 (ucast (st_size st))) 4 (ucast (drop_bit 32 (st_size st))))\<rparr>)"

definition inode_ptr :: "nat option \<Rightarrow> ('z fsstate_scheme, nat) kfun" where
  "inode_ptr p = (case p of None \<Rightarrow> undef ''inode: null'' | Some ip \<Rightarrow> ret ip)"

definition filestat :: "nat \<Rightarrow> uint64 \<Rightarrow> ('z fistate_scheme, int) kfun" where
  "filestat f addr = bnd myproc (\<lambda>i. bnd (get_file f) (\<lambda>x.
     if f_type x = FD_INODE \<or> f_type x = FD_DEVICE
     then thn (ilock (f_ip x))
         (bnd (inode_ptr (f_ip x)) (\<lambda>ip. bnd (stati ip) (\<lambda>st.
          thn (iunlock (f_ip x))
         (bnd (gets stack_at) (\<lambda>a. thn (spill_stat a st)
         (bnd (get_proc i) (\<lambda>p. bnd (copyout (p_pagetable p) addr a 24) (\<lambda>r.
            ret (if r < 0 then - 1 else 0)))))))))
     else ret (- 1)))"

definition major_ok :: "ushort \<Rightarrow> bool" where
  "major_ok m \<longleftrightarrow> \<not> (sint m < 0 \<or> sint m \<ge> int NDEV)"

definition fileread :: "nat \<Rightarrow> uint64 \<Rightarrow> int \<Rightarrow> ('z fistate_scheme, int) kfun" where
  "fileread f addr n = bnd (get_file f) (\<lambda>x.
     if f_readable x = 0 then ret (- 1)
     else case f_type x of
       FD_PIPE \<Rightarrow> piperead (f_pipe x) addr n
     | FD_DEVICE \<Rightarrow> if \<not> major_ok (f_major x) then ret (- 1)
         else bnd (gets (\<lambda>s. dev_read (devsws s ! unat (f_major x)))) (\<lambda>d. case d of
             None \<Rightarrow> ret (- 1)
           | Some g \<Rightarrow> dev_call g addr n)
     | FD_INODE \<Rightarrow> thn (ilock (f_ip x)) (bnd (inode_ptr (f_ip x)) (\<lambda>ip.
         bnd (get_file f) (\<lambda>x. bnd (readi ip True addr (f_off x) (of_int n)) (\<lambda>r.
         thn (if r > 0 then set_file f (\<lambda>x. x\<lparr>f_off := f_off x + of_int r\<rparr>) else ret ())
        (thn (iunlock (f_ip x)) (ret r))))))
     | FD_NONE \<Rightarrow> panic ''fileread'')"

text \<open>The loop of \<open>filewrite\<close>.  A turn that goes on has written at least one byte, so that \<open>n\<close> turns are enough.\<close>

definition write_max :: int where "write_max = int ((MAXOPBLOCKS - 1 - 1 - 2) div 2 * BSIZE)"

primrec filewrite_loop :: "nat \<Rightarrow> nat \<Rightarrow> uint64 \<Rightarrow> int \<Rightarrow> int \<Rightarrow> ('z fistate_scheme, int) kfun" where
  "filewrite_loop 0 f addr n i = ret (if i = n then n else - 1)"
| "filewrite_loop (Suc k) f addr n i = (if i < n
     then let n1 = (if n - i > write_max then write_max else n - i) in
       thn begin_op
      (bnd (get_file f) (\<lambda>x. thn (ilock (f_ip x)) (bnd (inode_ptr (f_ip x)) (\<lambda>ip.
       bnd (get_file f) (\<lambda>x. bnd (writei ip True (addr + of_int i) (f_off x) (of_int n1)) (\<lambda>r.
       thn (if r > 0 then set_file f (\<lambda>x. x\<lparr>f_off := f_off x + of_int r\<rparr>) else ret ())
      (thn (iunlock (f_ip x))
      (thn end_op
      (if r \<noteq> n1 then ret (if i = n then n else - 1)
       else filewrite_loop k f addr n (i + r))))))))))
     else ret (if i = n then n else - 1))"

definition filewrite :: "nat \<Rightarrow> uint64 \<Rightarrow> int \<Rightarrow> ('z fistate_scheme, int) kfun" where
  "filewrite f addr n = bnd (get_file f) (\<lambda>x.
     if f_writable x = 0 then ret (- 1)
     else case f_type x of
       FD_PIPE \<Rightarrow> pipewrite (f_pipe x) addr n
     | FD_DEVICE \<Rightarrow> if \<not> major_ok (f_major x) then ret (- 1)
         else bnd (gets (\<lambda>s. dev_write (devsws s ! unat (f_major x)))) (\<lambda>d. case d of
             None \<Rightarrow> ret (- 1)
           | Some g \<Rightarrow> dev_call g addr n)
     | FD_INODE \<Rightarrow> filewrite_loop (nat n) f addr n 0
     | FD_NONE \<Rightarrow> panic ''filewrite'')"

section \<open>Pipes\<close>

definition close_ptr :: "nat option \<Rightarrow> ('z fistate_scheme, unit) kfun" where
  "close_ptr p = (case p of None \<Rightarrow> ret () | Some f \<Rightarrow> fileclose f)"

text \<open>The label \<open>bad\<close>; the results are the return value and the two files.\<close>

definition pipealloc_bad :: "addr \<Rightarrow> nat option \<Rightarrow> nat option \<Rightarrow> ('z fistate_scheme, int \<times> nat option \<times> nat option) kfun" where
  "pipealloc_bad pi f0 f1 = thn (if pi \<noteq> 0 then kfree pi else ret ())
     (thn (close_ptr f0) (thn (close_ptr f1) (ret (- 1, f0, f1))))"

definition pipealloc :: "('z fistate_scheme, int \<times> nat option \<times> nat option) kfun" where
  "pipealloc = bnd filealloc (\<lambda>p0. case p0 of
     None \<Rightarrow> pipealloc_bad 0 None None
   | Some f0 \<Rightarrow> bnd filealloc (\<lambda>p1. case p1 of
       None \<Rightarrow> pipealloc_bad 0 (Some f0) None
     | Some f1 \<Rightarrow> bnd kalloc (\<lambda>pi.
         if pi = 0 then pipealloc_bad 0 (Some f0) (Some f1)
         else thn (set_pipe pi (\<lambda>p. p\<lparr>pi_readopen := 1, pi_writeopen := 1, pi_nwrite := 0, pi_nread := 0\<rparr>))
             (thn (initlock (PipeLock pi))
             (thn (set_file f0 (\<lambda>x. x\<lparr>f_type := FD_PIPE, f_readable := 1, f_writable := 0, f_pipe := pi\<rparr>))
             (thn (set_file f1 (\<lambda>x. x\<lparr>f_type := FD_PIPE, f_readable := 0, f_writable := 1, f_pipe := pi\<rparr>))
                  (ret (0, Some f0, Some f1))))))))"

end
