(* ===== verification/ProcLife.thy ===== *)
theory ProcLife
  imports File
begin

text \<open>
  The rest of \<open>kernel/proc.c\<close>: the first process, \<open>fork\<close> and \<open>exit\<close>, which use files and inodes.  The trapframe is the
  page at \<open>p_trapframe\<close>; its fields are words of memory at the offsets that \<open>kernel/proc.h\<close> notes.
  \<open>exit\<close> returns in the model at the switch to the scheduler, from which the process never comes back.
  A name buffer that the C code leaves uninitialised is all zero here; the path functions write it before they read it.
\<close>

section \<open>Trapframes\<close>

definition tf_epc :: addr where "tf_epc = 24"
definition tf_sp :: addr where "tf_sp = 48"
definition tf_a :: "nat \<Rightarrow> addr" where "tf_a n = 112 + 8 * of_nat n"
definition tf_size :: uint32 where "tf_size = 288"

definition get_tf :: "nat \<Rightarrow> addr \<Rightarrow> ('z pstate_scheme, uint64) kfun" where
  "get_tf i off = bnd (get_proc i) (\<lambda>p. gets (\<lambda>s. load64 (mem s) (p_trapframe p + off)))"

definition set_tf :: "nat \<Rightarrow> addr \<Rightarrow> uint64 \<Rightarrow> ('z pstate_scheme, unit) kfun" where
  "set_tf i off v = bnd (get_proc i) (\<lambda>p. spill64 (p_trapframe p + off) v)"

section \<open>The first process\<close>

definition initcode :: "uchar list" where
  "initcode = [
     0x17, 0x05, 0x00, 0x00, 0x13, 0x05, 0x45, 0x02,
     0x97, 0x05, 0x00, 0x00, 0x93, 0x85, 0x35, 0x02,
     0x93, 0x08, 0x70, 0x00, 0x73, 0x00, 0x00, 0x00,
     0x93, 0x08, 0x20, 0x00, 0x73, 0x00, 0x00, 0x00,
     0xef, 0xf0, 0x9f, 0xff, 0x2f, 0x69, 0x6e, 0x69,
     0x74, 0x00, 0x00, 0x24, 0x00, 0x00, 0x00, 0x00,
     0x00, 0x00, 0x00, 0x00]"

text \<open>The variables \<open>ticks\<close> of \<open>kernel/trap.c\<close> and \<open>first\<close> of \<open>forkret\<close>, and the address of \<open>initcode\<close>.\<close>

record lifestate = fistate +
  ticks :: uint32
  first_ret :: int
  initcode_at :: addr

definition userinit :: "('z lifestate_scheme, unit) kfun" where
  "userinit = bnd allocproc (\<lambda>r.
     thn (modify (\<lambda>s. s\<lparr>initproc := r\<rparr>)) (case r of
       None \<Rightarrow> undef ''userinit: no process''
     | Some i \<Rightarrow> bnd (get_proc i) (\<lambda>p. bnd (gets initcode_at) (\<lambda>a.
         thn (uvminit (p_pagetable p) a (of_nat (length initcode)))
        (thn (set_proc i (\<lambda>p. p\<lparr>p_sz := PGSIZE\<rparr>))
        (thn (set_tf i tf_epc 0)
        (thn (set_tf i tf_sp PGSIZE)
        (bnd (get_proc i) (\<lambda>p.
         bnd (lift_option ''safestrcpy'' (safestrcpy (p_name p) (arr [105, 110, 105, 116, 99, 111, 100, 101, 0]) 16)) (\<lambda>nm.
         thn (set_proc i (\<lambda>p. p\<lparr>p_name := nm\<rparr>))
        (bnd (namei (arr [47, 0]) (replicate DIRSIZ 0)) (\<lambda>ip.
         thn (set_proc i (\<lambda>p. p\<lparr>p_cwd := ip\<rparr>))
        (thn (set_proc i (\<lambda>p. p\<lparr>p_state := RUNNABLE\<rparr>))
             (release (ProcLock i)))))))))))))))"

section \<open>Fork\<close>

definition fork_file :: "nat \<Rightarrow> nat \<Rightarrow> nat \<Rightarrow> ('z fistate_scheme, unit) kfun" where
  "fork_file i j k = bnd (get_proc i) (\<lambda>p. case p_ofile p ! k of
     None \<Rightarrow> ret ()
   | Some f \<Rightarrow> bnd (filedup f) (\<lambda>f. set_proc j (\<lambda>np. np\<lparr>p_ofile := (p_ofile np)[k := Some f]\<rparr>)))"

definition fork :: "('z fistate_scheme, int) kfun" where
  "fork = bnd myproc (\<lambda>i. bnd allocproc (\<lambda>r. case r of
     None \<Rightarrow> panic ''1''
   | Some j \<Rightarrow> bnd (get_proc i) (\<lambda>p. bnd (get_proc j) (\<lambda>np.
       bnd (uvmcopy (p_pagetable p) (p_pagetable np) (p_sz p)) (\<lambda>c.
         if c < 0 then panic ''2''
         else thn (set_proc j (\<lambda>np. np\<lparr>p_sz := p_sz p\<rparr>))
             (thn (modify (\<lambda>s. s\<lparr>mem := memmove (mem s) (p_trapframe np) (p_trapframe p) tf_size\<rparr>))
             (thn (set_tf j (tf_a 0) 0)
             (thn (for_each [0..<NOFILE] (fork_file i j))
             (thn (case p_cwd p of None \<Rightarrow> undef ''idup: null''
                   | Some ip \<Rightarrow> bnd (idup ip) (\<lambda>ip. set_proc j (\<lambda>np. np\<lparr>p_cwd := Some ip\<rparr>)))
             (bnd (get_proc j) (\<lambda>np.
              bnd (lift_option ''safestrcpy'' (safestrcpy (p_name np) (arr (p_name p)) 16)) (\<lambda>nm.
              thn (set_proc j (\<lambda>np. np\<lparr>p_name := nm\<rparr>))
             (thn (release (ProcLock j))
             (thn (acquire WaitLock)
             (thn (set_proc j (\<lambda>np. np\<lparr>p_parent := Some i\<rparr>))
             (thn (release WaitLock)
             (thn (acquire (ProcLock j))
             (thn (set_proc j (\<lambda>np. np\<lparr>p_state := RUNNABLE\<rparr>))
             (thn (release (ProcLock j))
                  (ret (p_pid np)))))))))))))))))))))"

section \<open>Exit\<close>

definition exit_file :: "nat \<Rightarrow> nat \<Rightarrow> ('z fistate_scheme, unit) kfun" where
  "exit_file i fd = bnd (get_proc i) (\<lambda>p. case p_ofile p ! fd of
     None \<Rightarrow> ret ()
   | Some f \<Rightarrow> thn (fileclose f) (set_proc i (\<lambda>p. p\<lparr>p_ofile := (p_ofile p)[fd := None]\<rparr>)))"

definition exit :: "int \<Rightarrow> ('z fistate_scheme, unit) kfun" where
  "exit status = bnd myproc (\<lambda>i. bnd (gets initproc) (\<lambda>q.
     if q = Some i then panic ''init exiting''
     else thn (for_each [0..<NOFILE] (exit_file i))
         (thn begin_op
         (bnd (get_proc i) (\<lambda>p.
          thn (iput_ptr (p_cwd p))
         (thn end_op
         (thn (set_proc i (\<lambda>p. p\<lparr>p_cwd := None\<rparr>))
         (thn (acquire WaitLock)
         (thn (reparent i)
         (bnd (get_proc i) (\<lambda>p.
          thn (wakeup_proc (p_parent p))
         (thn (acquire (ProcLock i))
         (thn (set_proc i (\<lambda>p. p\<lparr>p_xstate := status, p_state := ZOMBIE\<rparr>))
         (thn (release WaitLock)
              sched))))))))))))))"

text \<open>What follows the switch, which nothing reaches.\<close>

definition exit_resume :: "('z fistate_scheme, 'a) kfun" where
  "exit_resume = panic ''zombie exit''"

end
