(* ===== verification/Exec.thy ===== *)
theory Exec
  imports ProcLife
begin

text \<open>
  Running a program, \<open>kernel/exec.c\<close> with the file format of \<open>kernel/elf.h\<close>.  The headers are read into kernel memory at
  \<open>stack_at\<close> and taken from there at once as byte lists; \<open>ustack\<close> is laid out there for \<open>copyout\<close>.  The array \<open>argv\<close> is
  the list of its entries before the null pointer, each the address of a string in kernel memory.
\<close>

unbundle bit_operations_syntax

section \<open>The format\<close>

definition ELF_MAGIC :: uint32 where "ELF_MAGIC = 0x464C457F"
definition ELF_PROG_LOAD :: uint32 where "ELF_PROG_LOAD = 1"

definition get64 :: "uchar list \<Rightarrow> nat \<Rightarrow> uint64" where
  "get64 bs i = ucast (get32 bs i) OR push_bit 32 (ucast (get32 bs (i + 4)))"

record elfhdr =
  e_magic :: uint32
  e_entry :: uint64
  e_phoff :: uint64
  e_phnum :: ushort

definition get_elfhdr :: "uchar list \<Rightarrow> elfhdr" where
  "get_elfhdr bs = \<lparr>e_magic = get32 bs 0, e_entry = get64 bs 24, e_phoff = get64 bs 32, e_phnum = get16 bs 56\<rparr>"

record proghdr =
  ph_type :: uint32
  ph_off :: uint64
  ph_vaddr :: uint64
  ph_filesz :: uint64
  ph_memsz :: uint64

definition get_proghdr :: "uchar list \<Rightarrow> proghdr" where
  "get_proghdr bs = \<lparr>ph_type = get32 bs 0, ph_off = get64 bs 8, ph_vaddr = get64 bs 16, ph_filesz = get64 bs 32, ph_memsz = get64 bs 40\<rparr>"

section \<open>Loading\<close>

text \<open>\<open>readi\<close> of \<open>n\<close> bytes at \<open>off\<close> into a structure on the kernel stack; None unless all bytes were read.\<close>

definition read_struct :: "nat \<Rightarrow> uint32 \<Rightarrow> nat \<Rightarrow> ('z fsstate_scheme, uchar list option) kfun" where
  "read_struct ip off n = bnd (gets stack_at) (\<lambda>a. bnd (readi ip False a off (of_nat n)) (\<lambda>r.
     if r \<noteq> int n then ret None else gets (\<lambda>s. Some (bytes_at (mem s) a n))))"

text \<open>The loop of \<open>loadseg\<close> at page \<open>i\<close>; one turn per page of \<open>sz\<close>.\<close>

primrec loadseg_loop :: "nat \<Rightarrow> addr \<Rightarrow> uint64 \<Rightarrow> nat \<Rightarrow> uint32 \<Rightarrow> uint32 \<Rightarrow> uint32 \<Rightarrow> ('z fsstate_scheme, int) kfun" where
  "loadseg_loop 0 pagetable va ip offset sz i = (if i < sz then undef ''loadseg: i wraps'' else ret 0)"
| "loadseg_loop (Suc k) pagetable va ip offset sz i = (if i < sz
     then bnd (walkaddr pagetable (va + ucast i)) (\<lambda>pa.
       if pa = 0 then panic ''loadseg: address should exist''
       else let n = (if ucast (sz - i) < PGSIZE then sz - i else ucast PGSIZE) in
         bnd (readi ip False pa (offset + i) n) (\<lambda>r.
           if of_int r \<noteq> n then ret (- 1) else loadseg_loop k pagetable va ip offset sz (i + ucast PGSIZE)))
     else ret 0)"

definition loadseg :: "addr \<Rightarrow> uint64 \<Rightarrow> nat \<Rightarrow> uint32 \<Rightarrow> uint32 \<Rightarrow> ('z fsstate_scheme, int) kfun" where
  "loadseg pagetable va ip offset sz =
     (if va mod PGSIZE \<noteq> 0 then panic ''loadseg: va must be page aligned''
      else loadseg_loop (unat sz div unat PGSIZE + 1) pagetable va ip offset sz 0)"

text \<open>The loop over the program headers, \<open>k\<close> to go; the results are whether it got to the end, and \<open>sz\<close>.\<close>

primrec exec_load :: "nat \<Rightarrow> addr \<Rightarrow> nat \<Rightarrow> int \<Rightarrow> uint64 \<Rightarrow> ('z fsstate_scheme, bool \<times> uint64) kfun" where
  "exec_load 0 pagetable ip off sz = ret (True, sz)"
| "exec_load (Suc k) pagetable ip off sz = bnd (read_struct ip (of_int off) 56) (\<lambda>r. case r of
     None \<Rightarrow> ret (False, sz)
   | Some bs \<Rightarrow> let ph = get_proghdr bs in
       if ph_type ph \<noteq> ELF_PROG_LOAD then exec_load k pagetable ip (off + 56) sz
       else if ph_memsz ph < ph_filesz ph then ret (False, sz)
       else if ph_vaddr ph + ph_memsz ph < ph_vaddr ph then ret (False, sz)
       else bnd (uvmalloc pagetable sz (ph_vaddr ph + ph_memsz ph)) (\<lambda>sz1.
         if sz1 = 0 then ret (False, sz)
         else if ph_vaddr ph mod PGSIZE \<noteq> 0 then ret (False, sz1)
         else bnd (loadseg pagetable (ph_vaddr ph) ip (ucast (ph_off ph)) (ucast (ph_filesz ph))) (\<lambda>r.
           if r < 0 then ret (False, sz1) else exec_load k pagetable ip (off + 56) sz1)))"

section \<open>Arguments\<close>

text \<open>The loop that pushes the strings; the results are \<open>sp\<close> and the entries of \<open>ustack\<close>, or None after \<open>goto bad\<close>.\<close>

primrec exec_push :: "addr list \<Rightarrow> addr \<Rightarrow> uint64 \<Rightarrow> uint64 \<Rightarrow> uint64 list \<Rightarrow> ('z fsstate_scheme, (uint64 \<times> uint64 list) option) kfun" where
  "exec_push [] pagetable stackbase sp ustack = ret (Some (sp, ustack))"
| "exec_push (a # as) pagetable stackbase sp ustack = (if length ustack \<ge> MAXARG then ret None
     else bnd (gets mem) (\<lambda>m. bnd (lift_option ''strlen'' (strlen (ptr m a))) (\<lambda>n.
       let sp = sp - of_nat (n + 1); sp = sp - sp mod 16 in
       if sp < stackbase then ret None
       else bnd (copyout pagetable sp a (of_nat (n + 1))) (\<lambda>r.
         if r < 0 then ret None else exec_push as pagetable stackbase sp (ustack @ [sp])))))"

definition words64 :: "uint64 list \<Rightarrow> uchar list" where
  "words64 ws = concat (map (\<lambda>w. map (\<lambda>k. ucast (drop_bit (8 * k) w)) [0..<8]) ws)"

text \<open>The array of pointers; the result is \<open>sp\<close>.\<close>

definition exec_ustack :: "addr \<Rightarrow> uint64 \<Rightarrow> uint64 \<Rightarrow> uint64 list \<Rightarrow> ('z fsstate_scheme, uint64 option) kfun" where
  "exec_ustack pagetable stackbase sp ustack = (let n = 8 * of_nat (length ustack + 1); sp = sp - n; sp = sp - sp mod 16 in
     if sp < stackbase then ret None
     else bnd (gets stack_at) (\<lambda>a.
       thn (modify (\<lambda>s. s\<lparr>mem := lay_out (mem s) a (words64 (ustack @ [0]))\<rparr>))
      (bnd (copyout pagetable sp a n) (\<lambda>r. ret (if r < 0 then None else Some sp)))))"

text \<open>Where the last element of the path starts.\<close>

definition exec_last :: "cview \<Rightarrow> nat option" where
  "exec_last path = map_option (\<lambda>n. foldl (\<lambda>l i. if path i = Some 47 then i + 1 else l) 0 [0..<n]) (strlen path)"

section \<open>The system call\<close>

text \<open>The label \<open>bad\<close>.\<close>

definition exec_bad :: "addr \<Rightarrow> uint64 \<Rightarrow> nat option \<Rightarrow> ('z fsstate_scheme, int) kfun" where
  "exec_bad pagetable sz ip =
     thn (if pagetable \<noteq> 0 then proc_freepagetable pagetable sz else ret ())
    (thn (case ip of None \<Rightarrow> ret () | Some ip \<Rightarrow> thn (iunlockput ip) end_op)
         (ret (- 1)))"

definition exec_commit :: "nat \<Rightarrow> cview \<Rightarrow> elfhdr \<Rightarrow> addr \<Rightarrow> uint64 \<Rightarrow> uint64 \<Rightarrow> uint64 \<Rightarrow> nat \<Rightarrow> ('z fsstate_scheme, int) kfun" where
  "exec_commit i path elf pagetable sz oldsz sp argc =
     thn (set_tf i (tf_a 1) sp)
    (bnd (lift_option ''path'' (exec_last path)) (\<lambda>l. bnd (get_proc i) (\<lambda>p.
     bnd (lift_option ''safestrcpy'' (safestrcpy (p_name p) (adv path l) 16)) (\<lambda>nm.
     thn (set_proc i (\<lambda>p. p\<lparr>p_name := nm\<rparr>))
    (thn (set_proc i (\<lambda>p. p\<lparr>p_pagetable := pagetable, p_sz := sz\<rparr>))
    (thn (set_tf i tf_epc (e_entry elf))
    (thn (set_tf i tf_sp sp)
    (thn (proc_freepagetable (p_pagetable p) oldsz)
         (ret (int argc))))))))))"

text \<open>From the user stack on.\<close>

definition exec_stack :: "nat \<Rightarrow> cview \<Rightarrow> addr list \<Rightarrow> elfhdr \<Rightarrow> addr \<Rightarrow> uint64 \<Rightarrow> ('z fsstate_scheme, int) kfun" where
  "exec_stack i path argv elf pagetable sz0 = bnd (get_proc i) (\<lambda>p.
     let oldsz = p_sz p; sz = PGROUNDUP sz0 in
     bnd (uvmalloc pagetable sz (sz + 2 * PGSIZE)) (\<lambda>sz1.
       if sz1 = 0 then exec_bad pagetable sz None
       else thn (uvmclear pagetable (sz1 - 2 * PGSIZE))
           (bnd (exec_push argv pagetable (sz1 - PGSIZE) sz1 []) (\<lambda>r. case r of
              None \<Rightarrow> exec_bad pagetable sz1 None
            | Some (sp, ustack) \<Rightarrow> bnd (exec_ustack pagetable (sz1 - PGSIZE) sp ustack) (\<lambda>r. case r of
                None \<Rightarrow> exec_bad pagetable sz1 None
              | Some sp \<Rightarrow> exec_commit i path elf pagetable sz1 oldsz sp (length ustack))))))"

definition exec :: "cview \<Rightarrow> addr list \<Rightarrow> ('z fsstate_scheme, int) kfun" where
  "exec path argv = bnd myproc (\<lambda>i. thn begin_op (bnd (namei path (replicate DIRSIZ 0)) (\<lambda>r. case r of
     None \<Rightarrow> thn end_op (ret (- 1))
   | Some ip \<Rightarrow> thn (ilock (Some ip)) (bnd (read_struct ip 0 64) (\<lambda>r. case r of
       None \<Rightarrow> exec_bad 0 0 (Some ip)
     | Some bs \<Rightarrow> let elf = get_elfhdr bs in
         if e_magic elf \<noteq> ELF_MAGIC then exec_bad 0 0 (Some ip)
         else bnd (proc_pagetable i) (\<lambda>pagetable.
           if pagetable = 0 then exec_bad 0 0 (Some ip)
           else bnd (exec_load (unat (e_phnum elf)) pagetable ip (sint (ucast (e_phoff elf) :: uint32)) 0) (\<lambda>(ok, sz).
             if \<not> ok then exec_bad pagetable sz (Some ip)
             else thn (iunlockput ip) (thn end_op (exec_stack i path argv elf pagetable sz)))))))))"

end
