(* ===== verification/SysFile.thy ===== *)
theory SysFile
  imports Exec
begin

text \<open>
  The arguments of system calls, the first part of \<open>kernel/syscall.c\<close>, and the system calls on files, \<open>kernel/sysfile.c\<close>.
  A buffer that \<open>copyinstr\<close> or \<open>copyin\<close> fills lies at \<open>stack_at\<close>; nothing writes to a path after it was fetched, so that the
  functions carry its bytes by value.
\<close>

unbundle bit_operations_syntax

section \<open>Arguments\<close>

definition fetchaddr :: "uint64 \<Rightarrow> ('z pistate_scheme, int \<times> uint64) kfun" where
  "fetchaddr addr = bnd myproc (\<lambda>i. bnd (get_proc i) (\<lambda>p.
     if addr \<ge> p_sz p \<or> addr + 8 > p_sz p then ret (- 1, 0)
     else bnd (gets stack_at) (\<lambda>a. bnd (copyin (p_pagetable p) a addr 8) (\<lambda>r.
       if r \<noteq> 0 then ret (- 1, 0) else gets (\<lambda>s. (0, load64 (mem s) a))))))"

definition fetchstr :: "uint64 \<Rightarrow> addr \<Rightarrow> int \<Rightarrow> ('z pstate_scheme, int) kfun" where
  "fetchstr addr buf mx = bnd myproc (\<lambda>i. bnd (get_proc i) (\<lambda>p.
     bnd (copyinstr (p_pagetable p) buf addr (of_int mx)) (\<lambda>err.
       if err < 0 then ret err
       else bnd (gets mem) (\<lambda>m. bnd (lift_option ''strlen'' (strlen (ptr m buf))) (\<lambda>n. ret (int n))))))"

definition argraw :: "nat \<Rightarrow> ('z pstate_scheme, uint64) kfun" where
  "argraw n = bnd myproc (\<lambda>i. if n \<le> 5 then get_tf i (tf_a n) else panic ''argraw'')"

definition argint :: "nat \<Rightarrow> ('z pstate_scheme, int) kfun" where
  "argint n = bnd (argraw n) (\<lambda>v. ret (sint (ucast v :: uint32)))"

definition argaddr :: "nat \<Rightarrow> ('z pstate_scheme, uint64) kfun" where
  "argaddr n = argraw n"

text \<open>The result and the content of the buffer.\<close>

definition argstr :: "nat \<Rightarrow> nat \<Rightarrow> ('z pistate_scheme, int \<times> uchar list) kfun" where
  "argstr n mx = bnd (argaddr n) (\<lambda>addr. bnd (gets stack_at) (\<lambda>buf. bnd (fetchstr addr buf (int mx)) (\<lambda>r.
     gets (\<lambda>s. (r, bytes_at (mem s) buf mx)))))"

text \<open>\<open>argfd\<close>: None for the result -1, or else the descriptor and the file.\<close>

definition argfd :: "nat \<Rightarrow> ('z pstate_scheme, (nat \<times> nat) option) kfun" where
  "argfd n = bnd (argint n) (\<lambda>fd. bnd myproc (\<lambda>i. bnd (get_proc i) (\<lambda>p.
     if fd < 0 \<or> fd \<ge> int NOFILE then ret None
     else case p_ofile p ! nat fd of None \<Rightarrow> ret None | Some f \<Rightarrow> ret (Some (nat fd, f)))))"

definition fdalloc :: "nat \<Rightarrow> ('z pstate_scheme, int) kfun" where
  "fdalloc f = bnd myproc (\<lambda>i. bnd (get_proc i) (\<lambda>p.
     case find (\<lambda>fd. p_ofile p ! fd = None) [0..<NOFILE] of
       None \<Rightarrow> ret (- 1)
     | Some fd \<Rightarrow> thn (set_proc i (\<lambda>p. p\<lparr>p_ofile := (p_ofile p)[fd := Some f]\<rparr>)) (ret (int fd))))"

section \<open>Descriptors\<close>

definition sys_dup :: "('z fistate_scheme, int) kfun" where
  "sys_dup = bnd (argfd 0) (\<lambda>r. case r of None \<Rightarrow> ret (- 1)
   | Some (_, f) \<Rightarrow> bnd (fdalloc f) (\<lambda>fd. if fd < 0 then ret (- 1) else thn (filedup f) (ret fd)))"

definition sys_read :: "('z fistate_scheme, int) kfun" where
  "sys_read = bnd (argfd 0) (\<lambda>r. case r of None \<Rightarrow> ret (- 1)
   | Some (_, f) \<Rightarrow> bnd (argint 2) (\<lambda>n. bnd (argaddr 1) (\<lambda>p. fileread f p n)))"

definition sys_write :: "('z fistate_scheme, int) kfun" where
  "sys_write = bnd (argfd 0) (\<lambda>r. case r of None \<Rightarrow> ret (- 1)
   | Some (_, f) \<Rightarrow> bnd (argint 2) (\<lambda>n. bnd (argaddr 1) (\<lambda>p. filewrite f p n)))"

definition clear_fd :: "nat \<Rightarrow> nat \<Rightarrow> ('z pstate_scheme, unit) kfun" where
  "clear_fd i fd = set_proc i (\<lambda>p. p\<lparr>p_ofile := (p_ofile p)[fd := None]\<rparr>)"

definition sys_close :: "('z fistate_scheme, int) kfun" where
  "sys_close = bnd (argfd 0) (\<lambda>r. case r of None \<Rightarrow> ret (- 1)
   | Some (fd, f) \<Rightarrow> bnd myproc (\<lambda>i. thn (clear_fd i fd) (thn (fileclose f) (ret 0))))"

definition sys_fstat :: "('z fistate_scheme, int) kfun" where
  "sys_fstat = bnd (argfd 0) (\<lambda>r. case r of None \<Rightarrow> ret (- 1)
   | Some (_, f) \<Rightarrow> bnd (argaddr 1) (\<lambda>st. filestat f st))"

definition sys_pipe :: "('z fistate_scheme, int) kfun" where
  "sys_pipe = bnd myproc (\<lambda>i. bnd (argaddr 0) (\<lambda>fdarray. bnd pipealloc (\<lambda>r. case r of
     (v, Some rf, Some wr) \<Rightarrow> if v < 0 then ret (- 1)
       else let bad = thn (fileclose rf) (thn (fileclose wr) (ret (- 1))) in
         bnd (fdalloc rf) (\<lambda>fd0. if fd0 < 0 then bad
           else bnd (fdalloc wr) (\<lambda>fd1. if fd1 < 0 then thn (clear_fd i (nat fd0)) bad
             else bnd (gets stack_at) (\<lambda>a. thn (spill32 a (of_int fd0)) (bnd (get_proc i) (\<lambda>p.
               bnd (copyout (p_pagetable p) fdarray a 4) (\<lambda>c0.
               bnd (if c0 < 0 then ret (- 1) else thn (spill32 a (of_int fd1)) (copyout (p_pagetable p) (fdarray + 4) a 4)) (\<lambda>c1.
                 if c1 < 0 then thn (clear_fd i (nat fd0)) (thn (clear_fd i (nat fd1)) bad)
                 else ret 0)))))))
   | _ \<Rightarrow> ret (- 1))))"

section \<open>Directories\<close>

text \<open>The label \<open>bad\<close> of \<open>sys_link\<close>.\<close>

definition link_bad :: "nat \<Rightarrow> ('z fsstate_scheme, int) kfun" where
  "link_bad ip = thn (ilock (Some ip))
     (thn (set_inode ip (\<lambda>x. x\<lparr>i_nlink := i_nlink x - 1\<rparr>))
     (thn (iupdate ip) (thn (iunlockput ip) (thn end_op (ret (- 1))))))"

definition link_into :: "nat \<Rightarrow> cview \<Rightarrow> ('z fsstate_scheme, int) kfun" where
  "link_into ip new = bnd (nameiparent new (replicate DIRSIZ 0)) (\<lambda>(r, name). case r of
     None \<Rightarrow> link_bad ip
   | Some dp \<Rightarrow> thn (ilock (Some dp)) (bnd (get_inode dp) (\<lambda>d. bnd (get_inode ip) (\<lambda>x.
       bnd (if i_dev d \<noteq> i_dev x then ret (- 1) else dirlink dp (arr name) (i_inum x)) (\<lambda>r.
         if r < 0 then thn (iunlockput dp) (link_bad ip)
         else thn (iunlockput dp) (thn (iput ip) (thn end_op (ret 0))))))))"

definition sys_link :: "('z fsstate_scheme, int) kfun" where
  "sys_link = bnd (argstr 0 MAXPATH) (\<lambda>(r0, old). if r0 < 0 then ret (- 1)
   else bnd (argstr 1 MAXPATH) (\<lambda>(r1, new). if r1 < 0 then ret (- 1)
   else thn begin_op (bnd (namei (arr old) (replicate DIRSIZ 0)) (\<lambda>r. case r of
     None \<Rightarrow> thn end_op (ret (- 1))
   | Some ip \<Rightarrow> thn (ilock (Some ip)) (bnd (get_inode ip) (\<lambda>x.
       if i_type x = T_DIR then thn (iunlockput ip) (thn end_op (ret (- 1)))
       else thn (set_inode ip (\<lambda>x. x\<lparr>i_nlink := i_nlink x + 1\<rparr>))
           (thn (iupdate ip) (thn (iunlock (Some ip)) (link_into ip (arr new))))))))))"

text \<open>The loop of \<open>isdirempty\<close>, at most one turn for each entry of the directory.\<close>

primrec isdirempty_loop :: "nat \<Rightarrow> nat \<Rightarrow> uint32 \<Rightarrow> ('z fsstate_scheme, bool) kfun" where
  "isdirempty_loop 0 dp off = undef ''isdirempty: offset overflow''"
| "isdirempty_loop (Suc k) dp off = bnd (get_inode dp) (\<lambda>x.
     if off < i_size x
     then bnd (gets stack_at) (\<lambda>de. bnd (readi dp False de off DIRENT) (\<lambda>r.
       if r \<noteq> uint DIRENT then panic ''isdirempty: readi''
       else bnd (gets mem) (\<lambda>m. if de_inum m de \<noteq> 0 then ret False else isdirempty_loop k dp (off + DIRENT))))
     else ret True)"

definition isdirempty :: "nat \<Rightarrow> ('z fsstate_scheme, bool) kfun" where
  "isdirempty dp = bnd (get_inode dp) (\<lambda>x. isdirempty_loop (unat (i_size x) div 16 + 2) dp (2 * DIRENT))"

definition unlink_bad :: "nat \<Rightarrow> ('z fsstate_scheme, int) kfun" where
  "unlink_bad dp = thn (iunlockput dp) (thn end_op (ret (- 1)))"

text \<open>Removing the entry of \<open>ip\<close> at \<open>off\<close>.\<close>

definition unlink_entry :: "nat \<Rightarrow> nat \<Rightarrow> uint32 \<Rightarrow> ('z fsstate_scheme, int) kfun" where
  "unlink_entry dp ip off = bnd (gets stack_at) (\<lambda>de.
     thn (modify (\<lambda>s. s\<lparr>mem := lay_out (mem s) de (replicate 16 0)\<rparr>))
    (bnd (writei dp False de off DIRENT) (\<lambda>r.
       if r \<noteq> uint DIRENT then panic ''unlink: writei''
       else bnd (get_inode ip) (\<lambda>x.
         thn (if i_type x = T_DIR
              then thn (set_inode dp (\<lambda>d. d\<lparr>i_nlink := i_nlink d - 1\<rparr>)) (iupdate dp) else ret ())
        (thn (iunlockput dp)
        (thn (set_inode ip (\<lambda>x. x\<lparr>i_nlink := i_nlink x - 1\<rparr>))
        (thn (iupdate ip)
        (thn (iunlockput ip)
        (thn end_op (ret 0))))))))))"

definition sys_unlink :: "('z fsstate_scheme, int) kfun" where
  "sys_unlink = bnd (argstr 0 MAXPATH) (\<lambda>(r, path). if r < 0 then ret (- 1)
   else thn begin_op (bnd (nameiparent (arr path) (replicate DIRSIZ 0)) (\<lambda>(r, name). case r of
     None \<Rightarrow> thn end_op (ret (- 1))
   | Some dp \<Rightarrow> thn (ilock (Some dp))
      (bnd (lift_option ''namecmp'' (namecmp (arr name) (arr [46, 0]))) (\<lambda>c1.
       bnd (if c1 = 0 then ret 0 else lift_option ''namecmp'' (namecmp (arr name) (arr [46, 46, 0]))) (\<lambda>c2.
       if c1 = 0 \<or> c2 = 0 then unlink_bad dp
       else bnd (dirlookup dp (arr name)) (\<lambda>r. case r of
         None \<Rightarrow> unlink_bad dp
       | Some (ip, off) \<Rightarrow> thn (ilock (Some ip)) (bnd (get_inode ip) (\<lambda>x.
           if sint (i_nlink x) < 1 then panic ''unlink: nlink < 1''
           else bnd (if i_type x = T_DIR then isdirempty ip else ret True) (\<lambda>e.
             if \<not> e then thn (iunlockput ip) (unlink_bad dp)
             else unlink_entry dp ip off))))))))))"

definition create :: "cview \<Rightarrow> ushort \<Rightarrow> ushort \<Rightarrow> ushort \<Rightarrow> ('z fsstate_scheme, nat option) kfun" where
  "create path type major minor = bnd (nameiparent path (replicate DIRSIZ 0)) (\<lambda>(r, name). case r of
     None \<Rightarrow> ret None
   | Some dp \<Rightarrow> thn (ilock (Some dp)) (bnd (dirlookup dp (arr name)) (\<lambda>r. case r of
       Some (ip, _) \<Rightarrow> thn (iunlockput dp) (thn (ilock (Some ip)) (bnd (get_inode ip) (\<lambda>x.
         if type = T_FILE \<and> (i_type x = T_FILE \<or> i_type x = T_DEVICE) then ret (Some ip)
         else thn (iunlockput ip) (ret None))))
     | None \<Rightarrow> bnd (get_inode dp) (\<lambda>d. bnd (ialloc (i_dev d) type) (\<lambda>ip.
         thn (ilock (Some ip))
        (thn (set_inode ip (\<lambda>x. x\<lparr>i_major := major, i_minor := minor, i_nlink := 1\<rparr>))
        (thn (iupdate ip)
        (bnd (get_inode ip) (\<lambda>x.
         thn (if type = T_DIR
              then thn (set_inode dp (\<lambda>d. d\<lparr>i_nlink := i_nlink d + 1\<rparr>))
                  (thn (iupdate dp)
                  (bnd (dirlink ip (arr [46, 0]) (i_inum x)) (\<lambda>c1.
                   bnd (if c1 < 0 then ret (- 1) else dirlink ip (arr [46, 46, 0]) (i_inum d)) (\<lambda>c2.
                   if c2 < 0 then panic ''create dots'' else ret ()))))
              else ret ())
        (bnd (dirlink dp (arr name) (i_inum x)) (\<lambda>c.
           if c < 0 then panic ''create: dirlink'' else thn (iunlockput dp) (ret (Some ip)))))))))))))"

section \<open>Opening\<close>

definition O_RDONLY :: int where "O_RDONLY = 0x000"
definition O_WRONLY :: uint32 where "O_WRONLY = 0x001"
definition O_RDWR :: uint32 where "O_RDWR = 0x002"
definition O_CREATE :: uint32 where "O_CREATE = 0x200"
definition O_TRUNC :: uint32 where "O_TRUNC = 0x400"

text \<open>The inode that \<open>sys_open\<close> opens, locked; None after \<open>end_op\<close> when there is none.\<close>

definition open_inode :: "cview \<Rightarrow> int \<Rightarrow> ('z fsstate_scheme, nat option) kfun" where
  "open_inode path omode =
     (if of_int omode AND O_CREATE \<noteq> 0
      then bnd (create path T_FILE 0 0) (\<lambda>r. case r of None \<Rightarrow> thn end_op (ret None) | Some ip \<Rightarrow> ret (Some ip))
      else bnd (namei path (replicate DIRSIZ 0)) (\<lambda>r. case r of
        None \<Rightarrow> thn end_op (ret None)
      | Some ip \<Rightarrow> thn (ilock (Some ip)) (bnd (get_inode ip) (\<lambda>x.
          if i_type x = T_DIR \<and> omode \<noteq> O_RDONLY then thn (iunlockput ip) (thn end_op (ret None))
          else ret (Some ip)))))"

definition flag :: "bool \<Rightarrow> uchar" where "flag b = (if b then 1 else 0)"

text \<open>The file \<open>f\<close> for the inode \<open>ip\<close>.\<close>

definition open_file :: "nat \<Rightarrow> nat \<Rightarrow> int \<Rightarrow> ('z fistate_scheme, unit) kfun" where
  "open_file f ip omode = bnd (get_inode ip) (\<lambda>x. let m = (of_int omode :: uint32) in
     thn (if i_type x = T_DEVICE
          then set_file f (\<lambda>y. y\<lparr>f_type := FD_DEVICE, f_major := i_major x\<rparr>)
          else set_file f (\<lambda>y. y\<lparr>f_type := FD_INODE, f_off := 0\<rparr>))
    (thn (set_file f (\<lambda>y. y\<lparr>f_ip := Some ip, f_readable := flag (m AND O_WRONLY = 0),
            f_writable := flag (m AND O_WRONLY \<noteq> 0 \<or> m AND O_RDWR \<noteq> 0)\<rparr>))
         (if m AND O_TRUNC \<noteq> 0 \<and> i_type x = T_FILE then itrunc ip else ret ())))"

definition sys_open :: "('z fistate_scheme, int) kfun" where
  "sys_open = bnd (argstr 0 MAXPATH) (\<lambda>(n, path). if n < 0 then ret (- 1)
   else bnd (argint 1) (\<lambda>omode. thn begin_op (bnd (open_inode (arr path) omode) (\<lambda>r. case r of
     None \<Rightarrow> ret (- 1)
   | Some ip \<Rightarrow> bnd (get_inode ip) (\<lambda>x.
       let bad = thn (iunlockput ip) (thn end_op (ret (- 1))) in
       if i_type x = T_DEVICE \<and> \<not> major_ok (i_major x) then bad
       else bnd filealloc (\<lambda>r. case r of
         None \<Rightarrow> bad
       | Some f \<Rightarrow> bnd (fdalloc f) (\<lambda>fd.
           if fd < 0 then thn (fileclose f) bad
           else thn (open_file f ip omode) (thn (iunlock (Some ip)) (thn end_op (ret fd))))))))))"

definition sys_mkdir :: "('z fsstate_scheme, int) kfun" where
  "sys_mkdir = thn begin_op (bnd (argstr 0 MAXPATH) (\<lambda>(r, path).
     bnd (if r < 0 then ret None else create (arr path) T_DIR 0 0) (\<lambda>ip. case ip of
       None \<Rightarrow> thn end_op (ret (- 1))
     | Some ip \<Rightarrow> thn (iunlockput ip) (thn end_op (ret 0)))))"

definition sys_mknod :: "('z fsstate_scheme, int) kfun" where
  "sys_mknod = thn begin_op (bnd (argstr 0 MAXPATH) (\<lambda>(r, path).
     bnd (if r < 0 then ret None
          else bnd (argint 1) (\<lambda>major. bnd (argint 2) (\<lambda>minor.
            create (arr path) T_DEVICE (of_int major) (of_int minor)))) (\<lambda>ip. case ip of
       None \<Rightarrow> thn end_op (ret (- 1))
     | Some ip \<Rightarrow> thn (iunlockput ip) (thn end_op (ret 0)))))"

definition sys_chdir :: "('z fsstate_scheme, int) kfun" where
  "sys_chdir = bnd myproc (\<lambda>i. thn begin_op (bnd (argstr 0 MAXPATH) (\<lambda>(r, path).
     bnd (if r < 0 then ret None else namei (arr path) (replicate DIRSIZ 0)) (\<lambda>ip. case ip of
       None \<Rightarrow> thn end_op (ret (- 1))
     | Some ip \<Rightarrow> thn (ilock (Some ip)) (bnd (get_inode ip) (\<lambda>x.
         if i_type x \<noteq> T_DIR then thn (iunlockput ip) (thn end_op (ret (- 1)))
         else thn (iunlock (Some ip))
             (bnd (get_proc i) (\<lambda>p.
              thn (iput_ptr (p_cwd p))
             (thn end_op
             (thn (set_proc i (\<lambda>p. p\<lparr>p_cwd := Some ip\<rparr>))
                  (ret 0)))))))))))"

section \<open>Programs\<close>

text \<open>The loop of \<open>sys_exec\<close> that fetches the strings: whether it got to the null pointer, and the pages filled so far.\<close>

primrec exec_fetch :: "nat \<Rightarrow> uint64 \<Rightarrow> addr list \<Rightarrow> ('z pistate_scheme, bool \<times> addr list) kfun" where
  "exec_fetch 0 uargv argv = ret (False, argv)"
| "exec_fetch (Suc k) uargv argv = bnd (fetchaddr (uargv + 8 * of_nat (length argv))) (\<lambda>(r, uarg).
     if r < 0 then ret (False, argv)
     else if uarg = 0 then ret (True, argv)
     else bnd kalloc (\<lambda>pg. if pg = 0 then ret (False, argv)
       else bnd (fetchstr uarg pg (uint PGSIZE)) (\<lambda>r.
         if r < 0 then ret (False, argv @ [pg]) else exec_fetch k uargv (argv @ [pg]))))"

definition sys_exec :: "('z fsstate_scheme, int) kfun" where
  "sys_exec = bnd (argstr 0 MAXPATH) (\<lambda>(r, path). if r < 0 then ret (- 1)
   else bnd (argaddr 1) (\<lambda>uargv. bnd (exec_fetch MAXARG uargv []) (\<lambda>(ok, argv).
     bnd (if ok then exec (arr path) argv else ret (- 1)) (\<lambda>v.
       thn (for_each argv kfree) (ret v)))))"

end
