(* ===== verification/SysCall.thy ===== *)
theory SysCall
  imports SysFile
begin

text \<open>
  The system calls on processes and rings, \<open>kernel/sysproc.c\<close>, and the dispatch of \<open>kernel/syscall.c\<close>.  The number and the
  arguments are words of the trapframe.  \<open>sys_exit\<close> has the result None: the process has switched to the scheduler
  and nothing is stored in its trapframe.  The buffer for the name of a ring is 16 bytes at \<open>stack_at\<close>, which
  \<open>copyinstr\<close> fills; its result is not looked at.
\<close>

section \<open>Processes\<close>

definition sys_exit :: "('z fistate_scheme, unit) kfun" where
  "sys_exit = bnd (argint 0) exit"

definition sys_getpid :: "('z pstate_scheme, int) kfun" where
  "sys_getpid = bnd myproc (\<lambda>i. bnd (get_proc i) (\<lambda>p. ret (p_pid p)))"

definition sys_fork :: "('z fistate_scheme, int) kfun" where
  "sys_fork = fork"

definition sys_wait :: "('z pstate_scheme, int) kfun" where
  "sys_wait = bnd (argaddr 0) wait"

definition sys_sbrk :: "('z pstate_scheme, int) kfun" where
  "sys_sbrk = bnd (argint 0) (\<lambda>n. bnd myproc (\<lambda>i. bnd (get_proc i) (\<lambda>p.
     let addr = sint (ucast (p_sz p) :: uint32) in
     bnd (growproc n) (\<lambda>r. ret (if r < 0 then - 1 else addr)))))"

text \<open>The comparison of \<open>ticks - ticks0\<close> with \<open>n\<close> is one of unsigned numbers.\<close>

definition sys_sleep_loop :: "int \<Rightarrow> uint32 \<Rightarrow> ('z lifestate_scheme, int) kfun" where
  "sys_sleep_loop n ticks0 = bnd (gets ticks) (\<lambda>t.
     if t - ticks0 < of_int n
     then bnd myproc (\<lambda>i. bnd (get_proc i) (\<lambda>p.
       if p_killed p \<noteq> 0 then thn (release TicksLock) (ret (- 1))
       else sleep ChanTicks TicksLock))
     else thn (release TicksLock) (ret 0))"

definition sys_sleep :: "('z lifestate_scheme, int) kfun" where
  "sys_sleep = bnd (argint 0) (\<lambda>n. thn (acquire TicksLock) (bnd (gets ticks) (\<lambda>ticks0. sys_sleep_loop n ticks0)))"

definition sys_sleep_resume :: "int \<Rightarrow> uint32 \<Rightarrow> ('z lifestate_scheme, int) kfun" where
  "sys_sleep_resume n ticks0 = thn (sleep_resume TicksLock) (sys_sleep_loop n ticks0)"

definition sys_kill :: "('z pstate_scheme, int) kfun" where
  "sys_kill = bnd (argint 0) kill"

definition sys_uptime :: "('z lifestate_scheme, uint32) kfun" where
  "sys_uptime = thn (acquire TicksLock) (bnd (gets ticks) (\<lambda>xticks. thn (release TicksLock) (ret xticks)))"

section \<open>Rings\<close>

definition fetch_name :: "uint64 \<Rightarrow> ('z pistate_scheme, uchar list) kfun" where
  "fetch_name q = bnd myproc (\<lambda>i. bnd (get_proc i) (\<lambda>p. bnd (gets stack_at) (\<lambda>buf.
     thn (copyinstr (p_pagetable p) buf q 16) (gets (\<lambda>s. bytes_at (mem s) buf 16)))))"

definition sys_createbuf :: "('z pistate_scheme, int) kfun" where
  "sys_createbuf = bnd (argaddr 0) (\<lambda>q. bnd (argint 1) (\<lambda>passedValue. bnd (argaddr 2) (\<lambda>p.
     bnd (fetch_name q) (\<lambda>buf. createbuf (arr buf) passedValue p))))"

definition sys_closebuf :: "('z pistate_scheme, int) kfun" where
  "sys_closebuf = bnd (argaddr 0) (\<lambda>q. bnd (argint 1) (\<lambda>passedValue.
     bnd (fetch_name q) (\<lambda>buf. closebuf (arr buf) passedValue)))"

section \<open>Dispatch\<close>

definition SYS_fork :: int where "SYS_fork = 1"
definition SYS_exit :: int where "SYS_exit = 2"
definition SYS_wait :: int where "SYS_wait = 3"
definition SYS_pipe :: int where "SYS_pipe = 4"
definition SYS_read :: int where "SYS_read = 5"
definition SYS_kill :: int where "SYS_kill = 6"
definition SYS_exec :: int where "SYS_exec = 7"
definition SYS_fstat :: int where "SYS_fstat = 8"
definition SYS_chdir :: int where "SYS_chdir = 9"
definition SYS_dup :: int where "SYS_dup = 10"
definition SYS_getpid :: int where "SYS_getpid = 11"
definition SYS_sbrk :: int where "SYS_sbrk = 12"
definition SYS_sleep :: int where "SYS_sleep = 13"
definition SYS_uptime :: int where "SYS_uptime = 14"
definition SYS_open :: int where "SYS_open = 15"
definition SYS_write :: int where "SYS_write = 16"
definition SYS_mknod :: int where "SYS_mknod = 17"
definition SYS_unlink :: int where "SYS_unlink = 18"
definition SYS_link :: int where "SYS_link = 19"
definition SYS_mkdir :: int where "SYS_mkdir = 20"
definition SYS_close :: int where "SYS_close = 21"
definition SYS_createbuf :: int where "SYS_createbuf = 22"
definition SYS_closebuf :: int where "SYS_closebuf = 23"

lemmas SYS_defs =
  SYS_fork_def SYS_exit_def SYS_wait_def SYS_pipe_def SYS_read_def SYS_kill_def SYS_exec_def SYS_fstat_def SYS_chdir_def
  SYS_dup_def SYS_getpid_def SYS_sbrk_def SYS_sleep_def SYS_uptime_def SYS_open_def SYS_write_def SYS_mknod_def
  SYS_unlink_def SYS_link_def SYS_mkdir_def SYS_close_def SYS_createbuf_def SYS_closebuf_def

text \<open>A result of type \<open>int\<close>, as \<open>uint64\<close>.\<close>

definition as64 :: "('s, int) kfun \<Rightarrow> ('s, uint64 option) kfun" where
  "as64 f = bnd f (\<lambda>v. ret (Some (of_int v)))"

definition syscalls :: "int \<Rightarrow> ('z lifestate_scheme, uint64 option) kfun option" where
  "syscalls num = map_of [
     (SYS_fork, as64 sys_fork),
     (SYS_exit, thn sys_exit (ret None)),
     (SYS_wait, as64 sys_wait),
     (SYS_pipe, as64 sys_pipe),
     (SYS_read, as64 sys_read),
     (SYS_kill, as64 sys_kill),
     (SYS_exec, as64 sys_exec),
     (SYS_fstat, as64 sys_fstat),
     (SYS_chdir, as64 sys_chdir),
     (SYS_dup, as64 sys_dup),
     (SYS_getpid, as64 sys_getpid),
     (SYS_sbrk, as64 sys_sbrk),
     (SYS_sleep, as64 sys_sleep),
     (SYS_uptime, bnd sys_uptime (\<lambda>v. ret (Some (ucast v)))),
     (SYS_open, as64 sys_open),
     (SYS_write, as64 sys_write),
     (SYS_mknod, as64 sys_mknod),
     (SYS_unlink, as64 sys_unlink),
     (SYS_link, as64 sys_link),
     (SYS_mkdir, as64 sys_mkdir),
     (SYS_close, as64 sys_close),
     (SYS_createbuf, as64 sys_createbuf),
     (SYS_closebuf, as64 sys_closebuf)] num"

text \<open>The message about an unknown number, with the name of the process put in.\<close>

definition unknown_call :: "proc \<Rightarrow> int \<Rightarrow> ('z constate_scheme, unit) kfun" where
  "unknown_call p num =
     bnd (lift_option ''printint'' (k_printint (of_int (p_pid p)) 10 True)) (\<lambda>pid.
     bnd (lift_option ''printint'' (k_printint (of_int num) 10 True)) (\<lambda>n.
       print_chars (pid @ [32] @ takeWhile (\<lambda>c. c \<noteq> 0) (p_name p) @ chars '': unknown sys call '' @ n @ [10])))"

text \<open>Whether the process comes back.\<close>

definition syscall :: "('z lifestate_scheme, bool) kfun" where
  "syscall = bnd myproc (\<lambda>i. bnd (get_tf i (tf_a 7)) (\<lambda>a7.
     let num = sint (ucast a7 :: uint32) in
     case syscalls num of
       Some f \<Rightarrow> bnd f (\<lambda>r. case r of None \<Rightarrow> ret False | Some v \<Rightarrow> thn (set_tf i (tf_a 0) v) (ret True))
     | None \<Rightarrow> bnd (get_proc i) (\<lambda>p. thn (unknown_call p num) (thn (set_tf i (tf_a 0) (- 1)) (ret True)))))"

end
