(* ===== verification/Trap.thy ===== *)
theory Trap
  imports SysCall
begin

text \<open>
  Traps, \<open>kernel/trap.c\<close>, the interrupt controller, \<open>kernel/plic.c\<close>, and the control registers of \<open>kernel/riscv.h\<close> that they use.
  The controller is given by the answers to the reads of its claim register, and the list of writes to its registers.
  The addresses of code are fields that nothing changes.  What follows the trap is the result: the process has left
  the CPU, or user space is entered with the arguments of the jump to the trampoline.
\<close>

unbundle bit_operations_syntax

section \<open>Control registers\<close>

definition SSTATUS_SPP :: uint64 where "SSTATUS_SPP = push_bit 8 1"
definition SSTATUS_SPIE :: uint64 where "SSTATUS_SPIE = push_bit 5 1"
definition SSTATUS_SIE :: uint64 where "SSTATUS_SIE = push_bit 1 1"

record tstate = lifestate +
  sstatus :: uint64
  sip :: uint64
  sepc :: uint64
  stvec :: uint64
  scause :: uint64
  stval :: uint64
  tp_reg :: uint64
  plic_at :: "nat \<Rightarrow> uint32"
  plic_n :: nat
  plic_log :: "(addr \<times> uint32) list"
  kernelvec_at :: addr
  uservec_at :: addr
  userret_at :: addr
  usertrap_at :: addr

definition r_sstatus :: "('z tstate_scheme, uint64) kfun" where "r_sstatus = gets sstatus"
definition w_sstatus :: "uint64 \<Rightarrow> ('z tstate_scheme, unit) kfun" where "w_sstatus x = modify (\<lambda>s. s\<lparr>sstatus := x\<rparr>)"
definition r_sip :: "('z tstate_scheme, uint64) kfun" where "r_sip = gets sip"
definition w_sip :: "uint64 \<Rightarrow> ('z tstate_scheme, unit) kfun" where "w_sip x = modify (\<lambda>s. s\<lparr>sip := x\<rparr>)"
definition r_sepc :: "('z tstate_scheme, uint64) kfun" where "r_sepc = gets sepc"
definition w_sepc :: "uint64 \<Rightarrow> ('z tstate_scheme, unit) kfun" where "w_sepc x = modify (\<lambda>s. s\<lparr>sepc := x\<rparr>)"
definition w_stvec :: "uint64 \<Rightarrow> ('z tstate_scheme, unit) kfun" where "w_stvec x = modify (\<lambda>s. s\<lparr>stvec := x\<rparr>)"
definition r_scause :: "('z tstate_scheme, uint64) kfun" where "r_scause = gets scause"
definition r_stval :: "('z tstate_scheme, uint64) kfun" where "r_stval = gets stval"
definition r_satp :: "('z vstate_scheme, uint64) kfun" where "r_satp = gets satp"
definition r_tp :: "('z tstate_scheme, uint64) kfun" where "r_tp = gets tp_reg"

definition intr_on :: "('z tstate_scheme, unit) kfun" where
  "intr_on = bnd r_sstatus (\<lambda>x. w_sstatus (x OR SSTATUS_SIE))"

definition intr_off :: "('z tstate_scheme, unit) kfun" where
  "intr_off = bnd r_sstatus (\<lambda>x. w_sstatus (x AND NOT SSTATUS_SIE))"

definition intr_get :: "('z tstate_scheme, bool) kfun" where
  "intr_get = bnd r_sstatus (\<lambda>x. ret (x AND SSTATUS_SIE \<noteq> 0))"

definition cpuid :: "('z tstate_scheme, int) kfun" where
  "cpuid = bnd r_tp (\<lambda>x. ret (sint (ucast x :: uint32)))"

section \<open>The interrupt controller\<close>

definition UART0_IRQ :: int where "UART0_IRQ = 10"
definition VIRTIO0_IRQ :: int where "VIRTIO0_IRQ = 1"
definition PLIC_SENABLE :: "int \<Rightarrow> addr" where "PLIC_SENABLE hart = PLIC + 0x2080 + of_int hart * 0x100"
definition PLIC_SPRIORITY :: "int \<Rightarrow> addr" where "PLIC_SPRIORITY hart = PLIC + 0x201000 + of_int hart * 0x2000"
definition PLIC_SCLAIM :: "int \<Rightarrow> addr" where "PLIC_SCLAIM hart = PLIC + 0x201004 + of_int hart * 0x2000"

definition plic_write :: "addr \<Rightarrow> uint32 \<Rightarrow> ('z tstate_scheme, unit) kfun" where
  "plic_write a v = modify (\<lambda>s. s\<lparr>plic_log := plic_log s @ [(a, v)]\<rparr>)"

definition plicinit :: "('z tstate_scheme, unit) kfun" where
  "plicinit = thn (plic_write (PLIC + of_int UART0_IRQ * 4) 1) (plic_write (PLIC + of_int VIRTIO0_IRQ * 4) 1)"

definition plicinithart :: "('z tstate_scheme, unit) kfun" where
  "plicinithart = bnd cpuid (\<lambda>hart.
     thn (plic_write (PLIC_SENABLE hart) (push_bit (nat UART0_IRQ) 1 OR push_bit (nat VIRTIO0_IRQ) 1))
         (plic_write (PLIC_SPRIORITY hart) 0))"

definition plic_claim :: "('z tstate_scheme, int) kfun" where
  "plic_claim = bnd cpuid (\<lambda>hart. bnd (gets (\<lambda>s. plic_at s (plic_n s))) (\<lambda>irq.
     thn (modify (\<lambda>s. s\<lparr>plic_n := plic_n s + 1\<rparr>)) (ret (sint irq))))"

definition plic_complete :: "int \<Rightarrow> ('z tstate_scheme, unit) kfun" where
  "plic_complete irq = bnd cpuid (\<lambda>hart. plic_write (PLIC_SCLAIM hart) (of_int irq))"

section \<open>Device interrupts\<close>

definition trapinit :: "('z tstate_scheme, unit) kfun" where
  "trapinit = initlock TicksLock"

definition trapinithart :: "('z tstate_scheme, unit) kfun" where
  "trapinithart = bnd (gets kernelvec_at) w_stvec"

definition clockintr :: "('z lifestate_scheme, unit) kfun" where
  "clockintr = thn (acquire TicksLock)
     (thn (modify (\<lambda>s. s\<lparr>ticks := ticks s + 1\<rparr>))
     (thn (wakeup ChanTicks) (release TicksLock)))"

text \<open>\<open>fuel\<close> bounds the characters that one serial interrupt takes.\<close>

definition devintr :: "nat \<Rightarrow> ('z tstate_scheme, int) kfun" where
  "devintr fuel = bnd r_scause (\<lambda>scause.
     if scause AND 0x8000000000000000 \<noteq> 0 \<and> scause AND 0xff = 9
     then bnd plic_claim (\<lambda>irq.
       thn (if irq = UART0_IRQ then uartintr fuel
            else if irq = VIRTIO0_IRQ then virtio_disk_intr
            else if irq \<noteq> 0 then printf (chars ''unexpected interrupt irq=%d'' @ [10]) [of_int irq]
            else ret ())
      (thn (if irq \<noteq> 0 then plic_complete irq else ret ())
           (ret 1)))
     else if scause = 0x8000000000000001
     then bnd cpuid (\<lambda>c.
       thn (if c = 0 then clockintr else ret ())
      (bnd r_sip (\<lambda>x. thn (w_sip (x AND NOT 2)) (ret 2))))
     else ret 0)"

section \<open>Traps from user space\<close>

datatype after_trap = Gone | Yielded | Enter addr uint64 uint64

definition tf_kernel_satp :: addr where "tf_kernel_satp = 0"
definition tf_kernel_sp :: addr where "tf_kernel_sp = 8"
definition tf_kernel_trap :: addr where "tf_kernel_trap = 16"
definition tf_kernel_hartid :: addr where "tf_kernel_hartid = 32"

definition usertrapret :: "('z tstate_scheme, after_trap) kfun" where
  "usertrapret = bnd myproc (\<lambda>i.
     thn intr_off
    (bnd (gets uservec_at) (\<lambda>uservec. bnd (gets trampoline) (\<lambda>tramp.
     thn (w_stvec (TRAMPOLINE + (uservec - tramp)))
    (bnd r_satp (\<lambda>sp. thn (set_tf i tf_kernel_satp sp)
    (bnd (get_proc i) (\<lambda>p. thn (set_tf i tf_kernel_sp (p_kstack p + PGSIZE))
    (bnd (gets usertrap_at) (\<lambda>ut. thn (set_tf i tf_kernel_trap ut)
    (bnd r_tp (\<lambda>tp. thn (set_tf i tf_kernel_hartid tp)
    (bnd r_sstatus (\<lambda>x.
     thn (w_sstatus ((x AND NOT SSTATUS_SPP) OR SSTATUS_SPIE))
    (bnd (get_tf i tf_epc) (\<lambda>epc. thn (w_sepc epc)
    (bnd (gets userret_at) (\<lambda>userret.
     ret (Enter (TRAMPOLINE + (userret - tramp)) TRAPFRAME (MAKE_SATP (p_pagetable p)))))))))))))))))))))"

text \<open>From the test of \<open>p->killed\<close> after the trap was handled; \<open>yield\<close> ends the run, which goes on in \<open>usertrap_resume\<close>.\<close>

definition usertrap_end :: "nat \<Rightarrow> int \<Rightarrow> ('z tstate_scheme, after_trap) kfun" where
  "usertrap_end i which_dev = bnd (get_proc i) (\<lambda>p.
     if p_killed p \<noteq> 0 then thn (exit (- 1)) (ret Gone)
     else if which_dev = 2 then thn yield (ret Yielded)
     else usertrapret)"

definition usertrap_resume :: "('z tstate_scheme, after_trap) kfun" where
  "usertrap_resume = thn yield_resume usertrapret"

definition usertrap_unexpected :: "nat \<Rightarrow> ('z tstate_scheme, unit) kfun" where
  "usertrap_unexpected i = bnd r_scause (\<lambda>c. bnd (get_proc i) (\<lambda>p.
     thn (printf (chars ''usertrap(): unexpected scause %p pid=%d'' @ [10]) [c, of_int (p_pid p)])
    (bnd r_sepc (\<lambda>pc. bnd r_stval (\<lambda>v.
     thn (printf (chars ''            sepc=%p stval=%p'' @ [10]) [pc, v])
         (set_proc i (\<lambda>p. p\<lparr>p_killed := 1\<rparr>)))))))"

definition usertrap :: "nat \<Rightarrow> ('z tstate_scheme, after_trap) kfun" where
  "usertrap fuel = bnd r_sstatus (\<lambda>x. if x AND SSTATUS_SPP \<noteq> 0 then panic ''usertrap: not from user mode''
     else thn (bnd (gets kernelvec_at) w_stvec)
    (bnd myproc (\<lambda>i. bnd r_sepc (\<lambda>pc. thn (set_tf i tf_epc pc)
    (bnd r_scause (\<lambda>c.
       if c = 8
       then bnd (get_proc i) (\<lambda>p.
         if p_killed p \<noteq> 0 then thn (exit (- 1)) (ret Gone)
         else bnd (get_tf i tf_epc) (\<lambda>pc. thn (set_tf i tf_epc (pc + 4))
             (thn intr_on
             (bnd syscall (\<lambda>back. if back then usertrap_end i 0 else ret Gone)))))
       else bnd (devintr fuel) (\<lambda>which_dev.
         thn (if which_dev \<noteq> 0 then ret () else usertrap_unexpected i)
             (usertrap_end i which_dev))))))))"

text \<open>A new process starts in \<open>forkret\<close>.\<close>

definition forkret :: "('z tstate_scheme, after_trap) kfun" where
  "forkret = bnd myproc (\<lambda>i. thn (release (ProcLock i))
     (bnd (gets first_ret) (\<lambda>first.
      thn (if first \<noteq> 0 then thn (modify (\<lambda>s. s\<lparr>first_ret := 0\<rparr>)) (fsinit (uint ROOTDEV)) else ret ())
          usertrapret)))"

section \<open>Traps from the kernel\<close>

definition kerneltrap_resume :: "uint64 \<Rightarrow> uint64 \<Rightarrow> ('z tstate_scheme, unit) kfun" where
  "kerneltrap_resume pc st = thn (w_sepc pc) (w_sstatus st)"

text \<open>The result is whether the process yielded; then \<open>kerneltrap_resume\<close> goes on with the registers read at the start.\<close>

definition kerneltrap :: "nat \<Rightarrow> ('z tstate_scheme, bool) kfun" where
  "kerneltrap fuel = bnd r_sepc (\<lambda>pc. bnd r_sstatus (\<lambda>st. bnd r_scause (\<lambda>cause.
     if st AND SSTATUS_SPP = 0 then panic ''kerneltrap: not from supervisor mode''
     else bnd intr_get (\<lambda>on. if on then panic ''kerneltrap: interrupts enabled''
     else bnd (devintr fuel) (\<lambda>which_dev.
       if which_dev = 0
       then thn (printf (chars ''scause %p'' @ [10]) [cause])
           (bnd r_sepc (\<lambda>pc. bnd r_stval (\<lambda>v.
            thn (printf (chars ''sepc=%p stval=%p'' @ [10]) [pc, v]) (panic ''kerneltrap''))))
       else bnd (gets cur) (\<lambda>c.
         bnd (case c of None \<Rightarrow> ret False | Some i \<Rightarrow> bnd (get_proc i) (\<lambda>p. ret (p_state p = RUNNING))) (\<lambda>running.
           if which_dev = 2 \<and> running then thn yield (ret True)
           else thn (kerneltrap_resume pc st) (ret False))))))))"

end
