(* ===== verification/Boot.thy ===== *)
theory Boot
  imports Trap
begin

text \<open>
  Starting the machine: \<open>kernel/start.c\<close>, which runs in machine mode on every hart, and \<open>kernel/main.c\<close>.  The machine-mode
  registers of one hart, its timer and its row of \<open>timer_scratch\<close> are the record \<open>mregs\<close>; the addresses of code and data
  are fields that nothing changes.
\<close>

unbundle bit_operations_syntax

section \<open>Machine mode\<close>

definition MSTATUS_MPP_MASK :: uint64 where "MSTATUS_MPP_MASK = push_bit 11 3"
definition MSTATUS_MPP_S :: uint64 where "MSTATUS_MPP_S = push_bit 11 1"
definition MSTATUS_MIE :: uint64 where "MSTATUS_MIE = push_bit 3 1"
definition PMP_R :: uint64 where "PMP_R = push_bit 0 1"
definition PMP_W :: uint64 where "PMP_W = push_bit 1 1"
definition PMP_X :: uint64 where "PMP_X = push_bit 2 1"
definition PMP_MATCH_NAPOT :: uint64 where "PMP_MATCH_NAPOT = push_bit 3 3"
definition SIE_SEIE :: uint64 where "SIE_SEIE = push_bit 9 1"
definition SIE_STIE :: uint64 where "SIE_STIE = push_bit 5 1"
definition SIE_SSIE :: uint64 where "SIE_SSIE = push_bit 1 1"
definition MIE_MTIE :: uint64 where "MIE_MTIE = push_bit 7 1"

definition CLINT :: addr where "CLINT = 0x2000000"
definition CLINT_MTIMECMP :: "int \<Rightarrow> addr" where "CLINT_MTIMECMP hartid = CLINT + 0x4000 + 8 * of_int hartid"

record mregs =
  mhartid :: uint64
  mstatus :: uint64
  mepc :: uint64
  msatp :: uint64
  medeleg :: uint64
  mideleg :: uint64
  sie :: uint64
  mie :: uint64
  mtvec :: uint64
  mscratch :: uint64
  mtp :: uint64
  pmpcfg0 :: uint64
  pmpaddr0 :: uint64
  mtime :: uint64
  mtimecmp :: uint64
  scratch :: "uint64 list"
  main_at :: addr
  timervec_at :: addr
  timer_scratch_at :: addr

definition pmpinit :: "mregs \<Rightarrow> mregs" where
  "pmpinit m = m\<lparr>pmpaddr0 := drop_bit 10 (NOT 0), pmpcfg0 := PMP_R OR PMP_W OR PMP_X OR PMP_MATCH_NAPOT\<rparr>"

definition timerinit :: "mregs \<Rightarrow> mregs" where
  "timerinit m = (let id = sint (ucast (mhartid m) :: uint32); interval = 1000000 in
     m\<lparr>mtimecmp := mtime m + interval,
       scratch := (scratch m)[3 := CLINT_MTIMECMP id, 4 := interval],
       mscratch := timer_scratch_at m + of_int id * 40,
       mtvec := timervec_at m,
       mstatus := mstatus m OR MSTATUS_MIE,
       mie := mie m OR MIE_MTIE\<rparr>)"

definition start :: "mregs \<Rightarrow> mregs" where
  "start m = (let
     m = m\<lparr>mstatus := (mstatus m AND NOT MSTATUS_MPP_MASK) OR MSTATUS_MPP_S\<rparr>;
     m = m\<lparr>mepc := main_at m\<rparr>;
     m = m\<lparr>msatp := 0\<rparr>;
     m = m\<lparr>medeleg := 0xffff, mideleg := 0xffff\<rparr>;
     m = m\<lparr>sie := sie m OR SIE_SEIE OR SIE_STIE OR SIE_SSIE\<rparr>;
     m = timerinit m;
     m = m\<lparr>mtp := of_int (sint (ucast (mhartid m) :: uint32))\<rparr>
     in pmpinit m)"

section \<open>Supervisor mode\<close>

record bootstate = tstate +
  started :: int

text \<open>\<open>main\<close> up to the scheduler, on hart 0 and on the others; \<open>rd\<close> and \<open>pages\<close> are the registers of the disk and the
  address of its pages, as for \<open>virtio_disk_init\<close>.\<close>

definition main_first :: "(nat \<Rightarrow> uint32) \<Rightarrow> addr \<Rightarrow> ('z bootstate_scheme, unit) kfun" where
  "main_first rd pages =
     thn (thn consoleinit consoleinit_devsw)
    (thn printfinit
    (thn (printf [10] [])
    (thn (printf (chars ''xv6 kernel is booting'' @ [10]) [])
    (thn (printf [10] [])
    (thn kinit
    (thn kvminit
    (thn kvminithart
    (thn procinit
    (thn trapinit
    (thn trapinithart
    (thn plicinit
    (thn plicinithart
    (thn binit
    (thn iinit
    (thn fileinit
    (thn (virtio_disk_init rd pages)
    (thn userinit
         (modify (\<lambda>s. s\<lparr>started := 1\<rparr>)))))))))))))))))))"

definition main_other :: "('z bootstate_scheme, unit) kfun" where
  "main_other = bnd cpuid (\<lambda>c.
     thn (printf (chars ''hart %d starting'' @ [10]) [of_int c])
    (thn kvminithart
    (thn trapinithart
         plicinithart)))"

text \<open>\<open>main\<close>, up to the process that the scheduler of this hart switches to.  The result is None when there is none to run, or
  while another hart than 0 waits for \<open>started\<close>.\<close>

definition main :: "(nat \<Rightarrow> uint32) \<Rightarrow> addr \<Rightarrow> ('z bootstate_scheme, nat option) kfun" where
  "main rd pages = bnd cpuid (\<lambda>c.
     if c = 0 then thn (main_first rd pages) (scheduler_scan [0..<NPROC])
     else bnd (gets started) (\<lambda>st. if st = 0 then ret None else thn main_other (scheduler_scan [0..<NPROC])))"

end
