(* ===== verification/FdFrame.thy ===== *)
theory FdFrame
  imports SysCall
begin

text \<open>
  What the rest of the kernel leaves alone of the open files.  \<open>fds (c, A) V R s\<close> says that the process \<open>c\<close> runs, that the descriptor
  tables of the processes are \<open>V\<close> and the reference counts and types of the file table are \<open>R\<close>; that a process that is unused or a
  zombie has no open files, and that the processes of \<open>A\<close> are neither.  A function is \<open>stable\<close> if it keeps all of this where
  it returns; where it goes to sleep no process runs.
\<close>

section \<open>Partial correctness\<close>

text \<open>\<open>hoare P f Q S\<close>: from a state with \<open>P\<close>, \<open>Q\<close> holds where \<open>f\<close> returns and \<open>S\<close> where it goes to sleep.\<close>

definition hoare :: "('s \<Rightarrow> bool) \<Rightarrow> ('s, 'a) kfun \<Rightarrow> ('a \<Rightarrow> 's \<Rightarrow> bool) \<Rightarrow> ('s \<Rightarrow> bool) \<Rightarrow> bool" where
  "hoare P f Q S \<longleftrightarrow> (\<forall>s. P s \<longrightarrow> (case f s of Ret a t \<Rightarrow> Q a t | Sleep c t \<Rightarrow> S t | _ \<Rightarrow> True))"

lemma hoareD: "hoare P f Q S \<Longrightarrow> P s \<Longrightarrow> f s = Ret a t \<Longrightarrow> Q a t" "hoare P f Q S \<Longrightarrow> P s \<Longrightarrow> f s = Sleep c t \<Longrightarrow> S t"
  unfolding hoare_def by force+

lemma hoareI: "(\<And>s a t. P s \<Longrightarrow> f s = Ret a t \<Longrightarrow> Q a t) \<Longrightarrow> (\<And>s c t. P s \<Longrightarrow> f s = Sleep c t \<Longrightarrow> S t) \<Longrightarrow> hoare P f Q S"
  unfolding hoare_def by (simp split: outcome.split)

lemma hoare_bnd: "hoare P f R S \<Longrightarrow> (\<And>a. hoare (R a) (g a) Q S) \<Longrightarrow> hoare P (bnd f g) Q S"
  unfolding hoare_def bnd_def by (fastforce split: outcome.splits)

lemma hoare_thn: "hoare P f (\<lambda>_. R) S \<Longrightarrow> hoare R g Q S \<Longrightarrow> hoare P (thn f g) Q S"
  unfolding thn_def by (rule hoare_bnd)

lemma hoare_mono: "hoare P f Q S \<Longrightarrow> (\<And>s. P' s \<Longrightarrow> P s) \<Longrightarrow> (\<And>a s. Q a s \<Longrightarrow> Q' a s) \<Longrightarrow> (\<And>s. S s \<Longrightarrow> S' s) \<Longrightarrow> hoare P' f Q' S'"
  unfolding hoare_def by (fastforce split: outcome.splits)

lemma hoare_ret [simp]: "hoare P (ret a) Q S \<longleftrightarrow> (\<forall>s. P s \<longrightarrow> Q a s)"
  by (simp add: hoare_def ret_def)

lemma hoare_end [simp]: "hoare P (panic e) Q S" "hoare P (undef e) Q S"
  by (simp_all add: hoare_def panic_def undef_def)

lemma hoare_gets [simp]: "hoare P (gets g) Q S \<longleftrightarrow> (\<forall>s. P s \<longrightarrow> Q (g s) s)"
  by (simp add: hoare_def gets_def)

lemma hoare_modify [simp]: "hoare P (modify h) Q S \<longleftrightarrow> (\<forall>s. P s \<longrightarrow> Q () (h s))"
  by (simp add: hoare_def modify_def)

lemma hoare_pre: "(P' \<Longrightarrow> hoare P f Q S) \<Longrightarrow> hoare (\<lambda>s. P' \<and> P s) f Q S"
  by (auto simp: hoare_def)

lemma hoare_if: "(b \<Longrightarrow> hoare P f Q S) \<Longrightarrow> (\<not> b \<Longrightarrow> hoare P g Q S) \<Longrightarrow> hoare P (if b then f else g) Q S"
  by simp

lemma hoare_for_each:
  assumes "\<And>k x. k < length xs \<Longrightarrow> x = xs ! k \<Longrightarrow> hoare (I k) (f x) (\<lambda>_. I (Suc k)) S"
  shows "hoare (I 0) (for_each xs f) (\<lambda>_. I (length xs)) S"
  using assms
proof (induction xs arbitrary: I)
  case Nil
  then show ?case by simp
next
  case (Cons x xs)
  have "hoare (I (Suc 0)) (for_each xs f) (\<lambda>_. I (Suc (length xs))) S"
    using Cons.prems [of "Suc k" for k] by (intro Cons.IH [where I = "\<lambda>k. I (Suc k)"]) auto
  then show ?case using Cons.prems [of 0 x] by (auto intro: hoare_thn)
qed

section \<open>Descriptors and counts\<close>

definition idle :: "proc \<Rightarrow> bool" where
  "idle p \<longleftrightarrow> p_state p = UNUSED \<or> p_state p = ZOMBIE"

definition fds :: "nat option \<times> nat set \<Rightarrow> nat option list list \<Rightarrow> (int \<times> ftype) list \<Rightarrow> 'z fistate_scheme \<Rightarrow> bool" where
  "fds c V R s \<longleftrightarrow> cur s = fst c \<and> map p_ofile (procs s) = V \<and> map (\<lambda>x. (f_ref x, f_type x)) (ftable s) = R \<and>
     (\<forall>i<length V. idle (procs s ! i) \<longrightarrow> V ! i = replicate NOFILE None) \<and>
     (\<forall>i\<in>snd c. i < length V \<and> \<not> idle (procs s ! i))"

definition stable :: "('z fistate_scheme, 'a) kfun \<Rightarrow> bool" where
  "stable f \<longleftrightarrow> (\<forall>c V R. hoare (fds c V R) f (\<lambda>_. fds c V R) (fds (None, {}) V R))"

named_theorems stable_intros \<open>functions that keep descriptors and counts\<close>

lemma stableD: "stable f \<Longrightarrow> hoare (fds c V R) f (\<lambda>_. fds c V R) (fds (None, {}) V R)"
  unfolding stable_def by blast

lemma stable_ret [stable_intros]: "stable (ret a)" by (simp add: stable_def)
lemma stable_panic [stable_intros]: "stable (panic e)" by (simp add: stable_def)
lemma stable_undef [stable_intros]: "stable (undef e)" by (simp add: stable_def)
lemma stable_gets [stable_intros]: "stable (gets g)" by (simp add: stable_def)

lemma stable_bnd [stable_intros]: "stable f \<Longrightarrow> (\<And>a. stable (g a)) \<Longrightarrow> stable (bnd f g)"
  unfolding stable_def by (blast intro: hoare_bnd)

lemma stable_thn [stable_intros]: "stable f \<Longrightarrow> stable g \<Longrightarrow> stable (thn f g)"
  unfolding stable_def by (blast intro: hoare_thn)

lemma stable_if [stable_intros]: "(b \<Longrightarrow> stable f) \<Longrightarrow> (\<not> b \<Longrightarrow> stable g) \<Longrightarrow> stable (if b then f else g)"
  by simp

lemma stable_let [stable_intros]: "(\<And>x. stable (f x)) \<Longrightarrow> stable (Let a f)"
  by simp

lemma stable_option [stable_intros]: "stable f \<Longrightarrow> (\<And>y. stable (g y)) \<Longrightarrow> stable (case x of None \<Rightarrow> f | Some y \<Rightarrow> g y)"
  by (cases x) simp_all

lemma stable_prod [stable_intros]: "(\<And>a b. stable (f a b)) \<Longrightarrow> stable (case x of (a, b) \<Rightarrow> f a b)"
  by (cases x) simp

lemma stable_sum [stable_intros]: "(\<And>a. stable (f a)) \<Longrightarrow> (\<And>a. stable (g a)) \<Longrightarrow> stable (case x of Inl a \<Rightarrow> f a | Inr a \<Rightarrow> g a)"
  by (cases x) simp_all

lemma stable_lift [stable_intros]: "stable (lift_option e x)"
  by (cases x) (simp_all add: lift_option_def stable_intros)

lemma stable_for_each [stable_intros]: "(\<And>x. stable (f x)) \<Longrightarrow> stable (for_each xs f)"
  by (induction xs) (simp_all add: stable_intros)

lemma stable_modify [stable_intros]:
  "(\<And>s. cur (h s) = cur s \<and> procs (h s) = procs s \<and> ftable (h s) = ftable s) \<Longrightarrow> stable (modify h)"
  by (simp add: stable_def fds_def)

lemma fds_cong: "cur t = cur s \<Longrightarrow> procs t = procs s \<Longrightarrow> ftable t = ftable s \<Longrightarrow> fds c V R t = fds c V R s"
  by (simp add: fds_def)

lemma fds_procs:
  assumes "fds c V R s" and "length ps = length (procs s)"
    and "\<And>j. j < length ps \<Longrightarrow> p_ofile (ps ! j) = p_ofile (procs s ! j) \<and> (idle (ps ! j) \<longrightarrow> idle (procs s ! j))"
  shows "fds c V R (s\<lparr>procs := ps\<rparr>)"
proof -
  have "map p_ofile ps = map p_ofile (procs s)" using assms(2,3) by (intro nth_equalityI) simp_all
  then show ?thesis using assms by (auto simp: fds_def)
qed

lemma stable_mem_fun:
  assumes "mem_fun f"
  shows "stable f"
  unfolding stable_def
proof (intro allI hoareI)
  fix c V R s a t
  assume s: "fds c V R s" "f s = Ret a t"
  have "mem_only s t" by (rule mem_funD [OF assms s(2)])
  then have "cur t = cur s" "procs t = procs s" "ftable t = ftable s" by (auto simp: mem_only_def)
  then show "fds c V R t" using s(1) fds_cong by blast
qed (simp add: mem_fun_awake [OF assms])

lemma stable_set_proc [stable_intros]:
  assumes "\<And>p. p_ofile (f p) = p_ofile p \<and> (idle (f p) \<longrightarrow> idle p)"
  shows "stable (set_proc i f)"
proof -
  have "p_ofile ((ps[i := f (ps ! i)]) ! j) = p_ofile (ps ! j) \<and> (idle (ps[i := f (ps ! i)] ! j) \<longrightarrow> idle (ps ! j))"
    if "j < length ps" for ps j using assms that by (cases "i = j") auto
  then show ?thesis unfolding stable_def set_proc_def by (auto intro!: fds_procs)
qed

lemmas stable_mem [stable_intros] =
  stable_mem_fun [OF mem_fun_kalloc] stable_mem_fun [OF mem_fun_kfree] stable_mem_fun [OF mem_fun_walkaddr]
  stable_mem_fun [OF mem_fun_mappages] stable_mem_fun [OF mem_fun_uvmunmap] stable_mem_fun [OF mem_fun_uvmcreate]
  stable_mem_fun [OF mem_fun_uvminit] stable_mem_fun [OF mem_fun_uvmdealloc] stable_mem_fun [OF mem_fun_uvmalloc]
  stable_mem_fun [OF mem_fun_uvmfree] stable_mem_fun [OF mem_fun_uvmcopy] stable_mem_fun [OF mem_fun_copyout]
  stable_mem_fun [OF mem_fun_copyin] stable_mem_fun [OF mem_fun_copyinstr] stable_mem_fun [OF mem_fun_walk]
  stable_mem_fun [OF mem_fun_load_pte] stable_mem_fun [OF mem_fun_store_pte]

section \<open>Locks and processes\<close>

lemma stable_lock [stable_intros]: "stable (acquire l)" "stable (release l)" "stable (initlock l)"
  by (auto simp: stable_def hoare_def acquire_def release_def initlock_def modify_def fds_def split: if_splits)

lemma stable_myproc [stable_intros]: "stable myproc" "stable (get_proc i)"
  unfolding myproc_def get_proc_def by (intro stable_intros)+

lemma stable_spill [stable_intros]: "stable (spill32 a w)" "stable (spill64 a v)"
  unfolding spill32_def spill64_def by (intro stable_intros; simp)+

lemma stable_wakeup [stable_intros]: "stable (wakeup c)"
  unfolding wakeup_def by (intro stable_intros) (simp add: idle_def)

lemma stable_wakeup_proc [stable_intros]: "stable (wakeup_proc q)"
  unfolding wakeup_proc_def by (intro stable_intros)

text \<open>A stable function before another.\<close>

lemma hoare_stable_bnd:
  "stable f \<Longrightarrow> (\<And>s. fds (None, {}) V R s \<Longrightarrow> S s) \<Longrightarrow> (\<And>a. hoare (fds c V R) (g a) Q S) \<Longrightarrow> hoare (fds c V R) (bnd f g) Q S"
  by (rule hoare_bnd [OF hoare_mono [OF stableD]]) blast+

lemma hoare_stable_thn:
  "stable f \<Longrightarrow> (\<And>s. fds (None, {}) V R s \<Longrightarrow> S s) \<Longrightarrow> hoare (fds c V R) g Q S \<Longrightarrow> hoare (fds c V R) (thn f g) Q S"
  unfolding thn_def by (rule hoare_stable_bnd)

text \<open>\<open>sched\<close> leaves the CPU.\<close>

lemma sched_hoare: "hoare (fds c V R) sched (\<lambda>_. fds (None, snd c) V R) (fds (None, {}) V R)"
proof -
  have m: "hoare (fds c V R) (modify (\<lambda>s. s\<lparr>cur := None\<rparr>)) (\<lambda>_. fds (None, snd c) V R) (fds (None, {}) V R)" by (simp add: fds_def)
  have "hoare (fds c V R) (thn (modify (\<lambda>s. s\<lparr>cur := None\<rparr>)) (release l)) (\<lambda>_. fds (None, snd c) V R) (fds (None, {}) V R)" for l
    by (rule hoare_thn [OF m stableD]) (rule stable_intros)
  then show ?thesis unfolding sched_def
    by (intro hoare_stable_bnd hoare_if hoare_end stable_intros) blast+
qed

lemma stable_sleep [stable_intros]: "stable (sleep c lk)"
proof -
  have e: "hoare (fds c' V R) (thn sched (sleep_on c)) (\<lambda>_. fds c' V R) (fds (None, {}) V R)" for c' V R
    by (rule hoare_thn [OF sched_hoare]) (auto simp: hoare_def sleep_on_def fds_def)
  show ?thesis unfolding stable_def sleep_def
    by (intro allI, rule hoare_stable_bnd [OF stable_myproc(1)], blast, rule hoare_stable_thn [OF stable_lock(1)], blast,
        rule hoare_stable_thn [OF stable_lock(2)], blast, rule hoare_stable_thn [OF stable_set_proc]) (auto simp: idle_def e)
qed

lemma stable_reparent [stable_intros]: "stable (reparent i)"
  unfolding reparent_def by (intro stable_intros) (simp add: idle_def)

lemma stable_kill [stable_intros]: "stable (kill pid)"
proof -
  have "stable (kill_scan is pid)" for "is"
    by (induction "is") (auto intro!: stable_intros simp: idle_def)
  then show ?thesis by (simp add: kill_def)
qed

lemma stable_either [stable_intros]: "stable (either_copyout u dst src len)" "stable (either_copyin dst' u src' len)"
  unfolding either_copyout_def either_copyin_def by (intro stable_intros; simp)+

lemma stable_allocpid [stable_intros]: "stable allocpid"
  unfolding allocpid_def by (intro stable_intros) simp

lemma stable_proc_pagetable [stable_intros]: "stable (proc_pagetable i)" "stable (proc_freepagetable pt sz)"
  unfolding proc_pagetable_def proc_freepagetable_def by (intro stable_intros)+

lemma stable_growproc [stable_intros]: "stable (growproc n)"
  unfolding growproc_def by (intro stable_intros) (simp_all add: idle_def)

section \<open>Pipes and the console\<close>

lemma stable_pipe [stable_intros]: "stable (get_pipe pi)" "stable (set_pipe pi f)"
  unfolding get_pipe_def set_pipe_def by (intro stable_intros; simp)+

lemma stable_pipeclose [stable_intros]: "stable (pipeclose pi wr)"
  unfolding pipeclose_def by (intro stable_intros)

lemma stable_pipewrite [stable_intros]: "stable (pipewrite pi addr n)"
proof -
  have "stable (pipewrite_loop k pi addr i)" for k i
    by (induction k arbitrary: i) (simp_all only: pipewrite_loop.simps pipewrite_done_def, (intro stable_intros; (assumption | simp))+)
  then show ?thesis unfolding pipewrite_def by (intro stable_intros)
qed

lemma stable_piperead [stable_intros]: "stable (piperead pi addr n)"
proof -
  have "stable (piperead_copy k pi addr i)" for k i
    by (induction k arbitrary: i) (simp_all only: piperead_copy.simps piperead_done_def, (intro stable_intros; (assumption | simp))+)
  then show ?thesis unfolding piperead_def piperead_wait_def by (intro stable_intros) 
qed

lemma stable_uart [stable_intros]: "stable (WriteReg r v)" "stable ReadLSR" "stable ReadRHR"
  unfolding WriteReg_def ReadLSR_def ReadRHR_def by (intro stable_intros; simp)+

lemma stable_uartstart [stable_intros]: "stable uartstart"
proof -
  have "stable (uartstart_loop k)" for k
    by (induction k) (simp_all only: uartstart_loop.simps, (intro stable_intros; (assumption | simp))+)
  then show ?thesis unfolding uartstart_def by (intro stable_intros)
qed

lemma stable_uartputc [stable_intros]: "stable (uartputc c)" "stable (uartputc_sync d)"
  unfolding uartputc_def uartputc_loop_def uartputc_sync_def by (intro stable_intros; simp)+

lemma stable_consputc [stable_intros]: "stable (consputc c)"
  unfolding consputc_def by (intro stable_intros)

lemma stable_print [stable_intros]: "stable (printf fmt ap)" "stable (print_chars cs)"
  unfolding printf_def print_chars_def by (intro stable_intros)+

lemma stable_consolewrite [stable_intros]: "stable (consolewrite u src n)"
proof -
  have "stable (consolewrite_loop k u src i)" for k i
    by (induction k arbitrary: i) (simp_all only: consolewrite_loop.simps, (intro stable_intros; assumption?)+)
  then show ?thesis by (simp add: consolewrite_def)
qed

lemma stable_consoleread [stable_intros]: "stable (consoleread u dst n)"
proof -
  have "stable (consoleread_loop k u dst m)" for k dst m
    by (induction k arbitrary: dst m) (simp_all only: consoleread_loop.simps consoleread_done_def, (intro stable_intros; (assumption | simp)?)+)
  then show ?thesis unfolding consoleread_def by (intro stable_intros)
qed

section \<open>Disk, cache and log\<close>

lemma stable_sl [stable_intros]: "stable (set_sl l v)" "stable (acquiresleep l)" "stable (releasesleep l)" "stable (holdingsleep l)"
  unfolding acquiresleep_def acquiresleep_loop_def releasesleep_def holdingsleep_def set_sl_def by (intro stable_intros; simp)+

lemma stable_buf [stable_intros]: "stable (set_buf i f)" "stable (get_buf i)" "stable (set_desc i d)"
  unfolding set_buf_def get_buf_def set_desc_def by (intro stable_intros; simp)+

lemma stable_alloc_desc [stable_intros]: "stable alloc_desc"
proof -
  have "stable (alloc_desc_scan is)" for "is"
    by (induction "is") (simp_all only: alloc_desc_scan.simps, (intro stable_intros; (assumption | simp)?)+)
  then show ?thesis by (simp add: alloc_desc_def)
qed

lemma stable_free_desc [stable_intros]: "stable (free_desc i)"
  unfolding free_desc_def by (intro stable_intros) simp

lemma stable_free_chain [stable_intros]: "stable (v_free_chain i)"
proof -
  have "stable (free_chain_loop k i)" for k i
    by (induction k arbitrary: i) (simp_all only: free_chain_loop.simps, (intro stable_intros; assumption?)+)
  then show ?thesis unfolding v_free_chain_def .
qed

lemma stable_alloc3 [stable_intros]: "stable alloc3_desc"
  unfolding alloc3_desc_def by (intro stable_intros)

lemma serve_fields: "cur (serve i s) = cur s" "procs (serve i s) = procs s" "ftable (serve i s) = ftable s"
  by (simp_all add: serve_def Let_def split: dma.splits)

lemma stable_device [stable_intros]: "stable device"
  unfolding device_def by (intro stable_intros) (simp add: serve_fields)

lemma stable_format [stable_intros]: "stable (virtio_disk_format b wr i0 i1 i2)"
  unfolding virtio_disk_format_def by (intro stable_intros; simp)

lemma stable_disk_intr [stable_intros]: "stable virtio_disk_intr"
proof -
  have "stable (virtio_intr_loop k)" for k
    by (induction k) (simp_all only: virtio_intr_loop.simps, (intro stable_intros; (assumption | simp)?)+)
  then show ?thesis unfolding virtio_disk_intr_def by (intro stable_intros)
qed

lemma stable_disk_rw [stable_intros]: "stable (virtio_disk_rw b wr)"
  unfolding virtio_disk_rw_def virtio_disk_rw_loop_def virtio_disk_wait_def by (intro stable_intros; simp)

lemma stable_links [stable_intros]: "stable (set_next b x)" "stable (set_prev b x)"
  unfolding set_next_def set_prev_def by (intro stable_intros; simp)+

lemma stable_bget [stable_intros]: "stable (bget dev n)"
proof -
  have "stable (bget_find k dev n b)" for k b
    by (induction k arbitrary: b) (simp_all only: bget_find.simps, (intro stable_intros; assumption?)+)
  moreover have "stable (bget_unused k b)" for k b
    by (induction k arbitrary: b) (simp_all only: bget_unused.simps, (intro stable_intros; assumption?)+)
  ultimately show ?thesis unfolding bget_def by (intro stable_intros)
qed

lemma stable_bio [stable_intros]: "stable (bread dev n)" "stable (bwrite b)" "stable (brelse b)" "stable (bpin b)" "stable (bunpin b)"
  unfolding bread_def bread_fill_def bwrite_def brelse_def b_to_front_def bpin_def bunpin_def by (intro stable_intros)+

lemma stable_log_block [stable_intros]: "stable (log_block i)" "stable (set_log_block i v)"
  unfolding log_block_def set_log_block_def by (intro stable_intros; simp)+

lemma stable_log_read [stable_intros]: "stable (bread_log i)" "stable (bread_home i)" "stable bread_head" "stable (copy_block a b)"
  unfolding bread_log_def bread_home_def bread_head_def copy_block_def by (intro stable_intros)+

lemma stable_commit [stable_intros]: "stable commit"
  unfolding commit_def write_log_def write_log_one_def write_head_def install_trans_def install_one_def by (intro stable_intros) simp

lemma stable_op [stable_intros]: "stable begin_op" "stable end_op"
  unfolding begin_op_def begin_op_loop_def end_op_def by (intro stable_intros; simp)+

lemma stable_log_write [stable_intros]: "stable (log_write b)"
proof -
  have "stable (log_absorb k i n)" for k i n
    by (induction k arbitrary: i) (simp_all only: log_absorb.simps, (intro stable_intros; assumption?)+)
  then show ?thesis unfolding log_write_def by (intro stable_intros) simp_all
qed

section \<open>Files and directories\<close>

lemma stable_inode [stable_intros]: "stable (get_inode ip)" "stable (set_inode ip f)"
  unfolding get_inode_def set_inode_def by (intro stable_intros; simp)+

lemma stable_bzero [stable_intros]: "stable (bzero dev n)"
  unfolding bzero_def by (intro stable_intros)

lemma stable_balloc [stable_intros]: "stable (balloc dev)"
proof -
  have "stable (balloc_loop dev bs)" for bs
    by (induction bs) (simp_all only: balloc_loop.simps, (intro stable_intros; assumption?)+)
  then show ?thesis unfolding balloc_def by (intro stable_intros)
qed

lemma stable_bfree [stable_intros]: "stable (bfree dev b)"
  unfolding bfree_def by (intro stable_intros)

lemma stable_iget [stable_intros]: "stable (iget dev inum)"
proof -
  have "stable (iget_scan dev inum e ips)" for e ips
    by (induction ips arbitrary: e) (simp_all only: iget_scan.simps, (intro stable_intros; assumption?)+)
  then show ?thesis unfolding iget_def by (intro stable_intros)
qed

lemma stable_ialloc [stable_intros]: "stable (ialloc dev type)"
proof -
  have "stable (ialloc_loop dev type is)" for "is"
    by (induction "is") (simp_all only: ialloc_loop.simps, (intro stable_intros; assumption?)+)
  then show ?thesis unfolding ialloc_def by (intro stable_intros)
qed

lemma stable_icache [stable_intros]: "stable (iupdate ip)" "stable (idup ip)" "stable (ilock p)" "stable (iunlock p)"
  unfolding iupdate_def idup_def ilock_def ilock_load_def iunlock_def by (intro stable_intros)+

lemma stable_itrunc [stable_intros]: "stable (itrunc ip)"
  unfolding itrunc_def itrunc_direct_def itrunc_indirect_def by (intro stable_intros)

lemma stable_iput [stable_intros]: "stable (iput ip)"
  unfolding iput_def by (intro stable_intros)

lemma stable_iunlockput [stable_intros]: "stable (iunlockput ip)" "stable (iput_ptr p)" "stable (inode_ptr p)" "stable (stati ip)"
  unfolding iunlockput_def iput_ptr_def inode_ptr_def stati_def by (intro stable_intros)+

lemma stable_bmap [stable_intros]: "stable (bmap ip n)"
  unfolding bmap_def by (intro stable_intros)

lemma stable_spill_buf [stable_intros]: "stable (spill_buf b)" "stable (reload_buf b)"
  unfolding spill_buf_def reload_buf_def by (intro stable_intros; simp)+

lemma stable_readi [stable_intros]: "stable (readi ip u dst off n)"
proof -
  have "stable (readi_loop k ip u dst off n tot)" for k dst off n tot
    by (induction k arbitrary: dst off tot) (simp_all only: readi_loop.simps, (intro stable_intros; assumption?)+)
  then show ?thesis unfolding readi_def by (intro stable_intros)
qed

lemma stable_writei [stable_intros]: "stable (writei ip u src off n)"
proof -
  have "stable (writei_loop k ip u src off n tot)" for k src off n tot
    by (induction k arbitrary: src off tot) (simp_all only: writei_loop.simps, (intro stable_intros; assumption?)+)
  then show ?thesis unfolding writei_def by (intro stable_intros)
qed

lemma stable_dirlookup [stable_intros]: "stable (dirlookup dp name)"
proof -
  have "stable (dirlookup_loop k dp name off)" for k off
    by (induction k arbitrary: off) (simp_all only: dirlookup_loop.simps, (intro stable_intros; assumption?)+)
  then show ?thesis unfolding dirlookup_def by (intro stable_intros)
qed

lemma stable_dirlink [stable_intros]: "stable (dirlink dp name inum)"
proof -
  have "stable (dirlink_find k dp off)" for k off
    by (induction k arbitrary: off) (simp_all only: dirlink_find.simps, (intro stable_intros; assumption?)+)
  then show ?thesis unfolding dirlink_def by (intro stable_intros) (simp_all del: dirlink_find.simps)
qed

lemma stable_namex [stable_intros]: "stable (namex path np name)"
proof -
  have "stable (namex_loop k ip path np name)" for k ip path name
    by (induction k arbitrary: ip path name) (simp_all only: namex_loop.simps, (intro stable_intros; assumption?)+)
  then show ?thesis unfolding namex_def by (intro stable_intros)
qed

lemma stable_namei [stable_intros]: "stable (namei path name)" "stable (nameiparent path name)"
  unfolding namei_def nameiparent_def by (intro stable_intros)+

end
