(* ===== verification/FdRefs.thy ===== *)
theory FdRefs
  imports FdFrame
begin

text \<open>
  The reference counts of open files.  Every file of the table has as many references as there are descriptors for it in the tables
  of all processes, before and after every system call.  The abstract state is the pair of the descriptor tables \<open>V\<close> and
  the counts and types \<open>R\<close>; each operation of \<open>kernel/file.c\<close> and \<open>kernel/sysfile.c\<close> that touches them is one update of the pair.
\<close>

section \<open>Counting\<close>

definition fd_count :: "nat option list list \<Rightarrow> nat \<Rightarrow> nat" where
  "fd_count V f = (\<Sum>l\<leftarrow>V. count_list l (Some f))"

definition tables_ok :: "nat option list list \<Rightarrow> (int \<times> ftype) list \<Rightarrow> bool" where
  "tables_ok V R \<longleftrightarrow> length V = NPROC \<and> length R = NFILE \<and>
     (\<forall>i<NPROC. length (V ! i) = NOFILE \<and> (\<forall>k<NOFILE. \<forall>f. V ! i ! k = Some f \<longrightarrow> f < NFILE))"

definition balanced :: "nat option list list \<Rightarrow> (int \<times> ftype) list \<Rightarrow> bool" where
  "balanced V R \<longleftrightarrow> tables_ok V R \<and> (\<forall>f<NFILE. fst (R ! f) = int (fd_count V f) \<and> (fst (R ! f) = 0 \<longrightarrow> snd (R ! f) = FD_NONE))"

text \<open>The descriptor \<open>k\<close> of process \<open>i\<close> is set.\<close>

definition put_fd :: "nat \<Rightarrow> nat \<Rightarrow> nat option \<Rightarrow> nat option list list \<Rightarrow> nat option list list" where
  "put_fd i k x V = V[i := (V ! i)[k := x]]"

lemma count_list_update:
  "k < length l \<Longrightarrow> int (count_list (l[k := x]) y) = int (count_list l y) - (if l ! k = y then 1 else 0) + (if x = y then 1 else 0)"
proof (induction l arbitrary: k)
  case (Cons z l)
  show ?case
  proof (cases k)
    case (Suc j)
    then show ?thesis using Cons.IH [of j] Cons.prems by (auto split: if_splits)
  qed simp
qed simp

lemma sum_list_update_nat: "i < length V \<Longrightarrow> int (\<Sum>l\<leftarrow>V[i := w]. f l) = int (\<Sum>l\<leftarrow>V. f l) - int (f (V ! i)) + int (f w)"
proof (induction V arbitrary: i)
  case (Cons l V)
  then show ?case by (cases i) auto
qed simp

lemma fd_count_put:
  assumes "i < length V" and "k < length (V ! i)"
  shows "int (fd_count (put_fd i k x V) f) = int (fd_count V f) - (if V ! i ! k = Some f then 1 else 0) + (if x = Some f then 1 else 0)"
  unfolding fd_count_def put_fd_def sum_list_update_nat [OF assms(1)] count_list_update [OF assms(2)] by simp

lemma put_fd_simps [simp]: "length (put_fd i k x V) = length V" "j \<noteq> i \<Longrightarrow> put_fd i k x V ! j = V ! j"
  "i < length V \<Longrightarrow> put_fd i k x V ! i = (V ! i)[k := x]"
  by (simp_all add: put_fd_def)

lemma tables_okD:
  assumes "tables_ok V R"
  shows "length V = NPROC" and "length R = NFILE" and "i < length V \<Longrightarrow> length (V ! i) = NOFILE"
    and "i < length V \<Longrightarrow> k < NOFILE \<Longrightarrow> V ! i ! k = Some f \<Longrightarrow> f < NFILE"
  using assms unfolding tables_ok_def by auto

lemma tables_ok_put:
  assumes "tables_ok V R" and "\<And>f. x = Some f \<Longrightarrow> f < NFILE"
  shows "tables_ok (put_fd i k x V) R"
proof -
  have "length (put_fd i k x V ! j) = NOFILE \<and> (\<forall>m<NOFILE. \<forall>f. put_fd i k x V ! j ! m = Some f \<longrightarrow> f < NFILE)" if "j < NPROC" for j
  proof (cases "j = i")
    case True
    have "f < NFILE" if "m < NOFILE" "(V ! i)[k := x] ! m = Some f" for m f
      using tables_okD [OF assms(1)] assms(2) that \<open>j < NPROC\<close> True by (cases "m = k") auto
    then show ?thesis using tables_okD [OF assms(1)] that True by auto
  qed (use tables_okD [OF assms(1)] that in auto)
  then show ?thesis using assms(1) by (simp add: tables_ok_def)
qed

lemma tables_ok_R: "tables_ok V R \<Longrightarrow> tables_ok V (R[f := y])"
  by (simp add: tables_ok_def)

text \<open>What a client owes or holds: the count of \<open>f\<close> is ahead of its descriptors by \<open>e f\<close>.\<close>

definition ahead :: "(nat \<Rightarrow> int) \<Rightarrow> nat option list list \<Rightarrow> (int \<times> ftype) list \<Rightarrow> bool" where
  "ahead e V R \<longleftrightarrow> tables_ok V R \<and> (\<forall>f<NFILE. fst (R ! f) = int (fd_count V f) + e f \<and> (fst (R ! f) = 0 \<longrightarrow> snd (R ! f) = FD_NONE))"

lemma balanced_ahead: "balanced V R \<longleftrightarrow> ahead (\<lambda>_. 0) V R"
  by (simp add: balanced_def ahead_def)

lemma ahead_put:
  assumes "ahead e V R" and "i < NPROC" and "k < NOFILE" and "V ! i ! k = None" and "f < NFILE"
  shows "ahead (e(f := e f - 1)) (put_fd i k (Some f) V) R"
  using assms fd_count_put [of i V k "Some f"] tables_okD [of V R] tables_ok_put [of V R "Some f" i k] by (auto simp: ahead_def)

lemma ahead_clear:
  assumes "ahead e V R" and "i < NPROC" and "k < NOFILE" and "V ! i ! k = Some f"
  shows "ahead (e(f := e f + 1)) (put_fd i k None V) R"
  using assms fd_count_put [of i V k None] tables_okD [of V R] tables_ok_put [of V R None i k] by (auto simp: ahead_def)

lemma ahead_count:
  assumes "ahead e V R" and "f < NFILE" and "fst y = 0 \<longrightarrow> snd y = FD_NONE"
  shows "ahead (e(f := e f + fst y - fst (R ! f))) V (R[f := y])"
  using assms tables_okD(2) [of V R] by (auto simp: ahead_def tables_ok_R nth_list_update)

section \<open>Functions that never sleep\<close>

definition awake :: "('s, 'a) kfun \<Rightarrow> bool" where
  "awake f \<longleftrightarrow> (\<forall>s c t. f s \<noteq> Sleep c t)"

named_theorems awake_intros \<open>functions that never sleep\<close>

lemma awake_basic [awake_intros]:
  "awake (ret a)" "awake (gets g)" "awake (modify h)" "awake (panic e)" "awake (undef e)" "awake (acquire l)" "awake (release l)" "awake (initlock l)"
  by (auto simp: awake_def ret_def gets_def modify_def panic_def undef_def acquire_def release_def initlock_def)

lemma awake_bnd [awake_intros]: "awake f \<Longrightarrow> (\<And>a. awake (g a)) \<Longrightarrow> awake (bnd f g)"
  unfolding awake_def bnd_def by (auto split: outcome.splits)

lemma awake_thn [awake_intros]: "awake f \<Longrightarrow> awake g \<Longrightarrow> awake (thn f g)"
  unfolding thn_def by (rule awake_bnd)

lemma awake_if [awake_intros]: "awake f \<Longrightarrow> awake g \<Longrightarrow> awake (if b then f else g)"
  by simp

lemma awake_for_each [awake_intros]: "(\<And>x. awake (f x)) \<Longrightarrow> awake (for_each xs f)"
  by (induction xs) (simp_all add: awake_intros)

lemma awake_proc [awake_intros]: "awake myproc" "awake (get_proc i)" "awake (set_proc i f)" "awake (get_file j)" "awake (set_file j g)"
  by (auto simp: myproc_def get_proc_def set_proc_def get_file_def set_file_def awake_def bnd_def gets_def ret_def undef_def modify_def
      split: option.splits)

lemma awake_mem_fun: "mem_fun f \<Longrightarrow> awake f"
  by (simp add: awake_def mem_fun_awake)

lemma awake_wakeup [awake_intros]: "awake (wakeup c)"
  unfolding wakeup_def by (intro awake_intros)

lemma awake_pipeclose [awake_intros]: "awake (pipeclose pi wr)"
  unfolding pipeclose_def get_pipe_def set_pipe_def by (intro awake_intros awake_mem_fun [OF mem_fun_kfree])

lemma stable_awake: "stable f \<Longrightarrow> awake f \<Longrightarrow> hoare (fds c V R) f (\<lambda>_. fds c V R) S"
  unfolding hoare_def awake_def using stableD [of f] by (fastforce simp: hoare_def split: outcome.splits)

section \<open>The file table\<close>

lemma get_file_fds: "f < length R \<Longrightarrow> hoare (fds c V R) (get_file f) (\<lambda>x s. (f_ref x, f_type x) = R ! f \<and> fds c V R s) S"
  by (auto simp: get_file_def fds_def)

lemma set_file_fds:
  assumes "\<And>x. (f_ref x, f_type x) = R ! f \<Longrightarrow> (f_ref (g x), f_type (g x)) = y" and "f < length R"
  shows "hoare (fds c V R) (set_file f g) (\<lambda>_. fds c V (R[f := y])) S"
proof -
  have "map (\<lambda>x. (f_ref x, f_type x)) ((ftable s)[f := g (ftable s ! f)]) = R[f := y]" if "fds c V R s" for s
    using assms that by (auto simp: fds_def map_update)
  then show ?thesis unfolding set_file_def by (auto simp: fds_def)
qed

lemma bnd_file:
  assumes "f < length R" and "\<And>x. (f_ref x, f_type x) = R ! f \<Longrightarrow> hoare (fds c V R) (g x) Q S"
  shows "hoare (fds c V R) (bnd (get_file f) g) Q S"
  by (rule hoare_bnd [OF get_file_fds [OF assms(1)]], rule hoare_pre, rule assms(2))

definition new_file :: "nat option \<times> nat set \<Rightarrow> nat option list list \<Rightarrow> (int \<times> ftype) list \<Rightarrow> nat option \<Rightarrow> 'z fistate_scheme \<Rightarrow> bool" where
  "new_file c V R r s \<longleftrightarrow> (case r of None \<Rightarrow> fds c V R s
     | Some f \<Rightarrow> f < length R \<and> fst (R ! f) = 0 \<and> fds c V (R[f := (1, snd (R ! f))]) s)"

lemma filealloc_fds:
  assumes "length R = NFILE"
  shows "hoare (fds c V R) filealloc (new_file c V R) (fds (None, {}) V R)"
proof -
  have scan: "hoare (fds c V R) (filealloc_scan fs) (new_file c V R) (fds (None, {}) V R)" if "set fs \<subseteq> {..<length R}" for fs
    using that
  proof (induction fs)
    case Nil
    show ?case unfolding filealloc_scan.simps
      by (intro hoare_stable_thn stable_intros) (simp_all add: new_file_def)
  next
    case (Cons f fs)
    have f: "f < length R" using Cons.prems by simp
    show ?case unfolding filealloc_scan.simps
    proof (rule bnd_file [OF f], rule hoare_if)
      fix x
      assume x: "(f_ref x, f_type x) = R ! f" "f_ref x = 0"
      let ?R = "R[f := (1, snd (R ! f))]"
      have "hoare (fds c V ?R) (thn (release FtableLock) (ret (Some f))) (new_file c V R) (fds (None, {}) V R)"
        by (rule hoare_thn [OF stable_awake [OF stable_lock(2) awake_basic(7)]]) (use x f in \<open>auto simp: new_file_def prod_eq_iff\<close>)
      then show "hoare (fds c V R) (thn (set_file f (\<lambda>x. x\<lparr>f_ref := 1\<rparr>)) (thn (release FtableLock) (ret (Some f)))) (new_file c V R) (fds (None, {}) V R)"
        using f by (intro hoare_thn [OF set_file_fds [where y = "(1, snd (R ! f))"]]) (auto simp: prod_eq_iff)
    qed (use Cons in auto)
  qed
  show ?thesis unfolding filealloc_def using assms by (intro hoare_stable_thn stable_intros scan) (simp_all add: subset_eq)
qed

lemma filedup_fds:
  assumes "f < length R"
  shows "hoare (fds c V R) (filedup f) (\<lambda>r s. r = f \<and> fds c V (R[f := (fst (R ! f) + 1, snd (R ! f))]) s) S"
proof -
  let ?R = "R[f := (fst (R ! f) + 1, snd (R ! f))]"
  have "hoare (fds c V R) (set_file f (\<lambda>x. x\<lparr>f_ref := f_ref x + 1\<rparr>)) (\<lambda>_. fds c V ?R) S"
    using assms by (intro set_file_fds) (auto simp: prod_eq_iff)
  moreover have "hoare (fds c V ?R) (thn (release FtableLock) (ret f)) (\<lambda>r s. r = f \<and> fds c V ?R s) S"
    by (rule hoare_thn [OF stable_awake [OF stable_lock(2) awake_basic(7)]]) simp
  ultimately have "hoare (fds c V R) (thn (set_file f (\<lambda>x. x\<lparr>f_ref := f_ref x + 1\<rparr>)) (thn (release FtableLock) (ret f)))
      (\<lambda>r s. r = f \<and> fds c V ?R s) S" by (rule hoare_thn)
  then show ?thesis unfolding filedup_def
    by (intro hoare_thn [OF stable_awake [OF stable_lock(1) awake_basic(6)]] bnd_file assms hoare_if hoare_end)
qed

text \<open>A reference goes; with the last one the type goes too.  Only the last reference to an inode may put the process to sleep.\<close>

definition drop_ref :: "nat \<Rightarrow> (int \<times> ftype) list \<Rightarrow> (int \<times> ftype) list" where
  "drop_ref f R = R[f := if fst (R ! f) > 1 then (fst (R ! f) - 1, snd (R ! f)) else (0, FD_NONE)]"

definition may_sleep :: "int \<times> ftype \<Rightarrow> bool" where
  "may_sleep x \<longleftrightarrow> fst x \<le> 1 \<and> (snd x = FD_INODE \<or> snd x = FD_DEVICE)"

lemma fileclose_last:
  assumes "ty = FD_INODE \<or> ty = FD_DEVICE \<longrightarrow> may_sleep (R ! f)"
  shows "hoare (fds c V R') (case ty of FD_PIPE \<Rightarrow> pipeclose pi wr
      | FD_INODE \<Rightarrow> thn begin_op (thn (iput_ptr ip) end_op) | FD_DEVICE \<Rightarrow> thn begin_op (thn (iput_ptr ip) end_op) | FD_NONE \<Rightarrow> ret ())
    (\<lambda>_. fds c V R') (\<lambda>s. may_sleep (R ! f) \<and> fds (None, {}) V R' s)"
proof -
  have "stable (thn begin_op (thn (iput_ptr ip) end_op))" by (intro stable_intros)
  then have "hoare (fds c V R') (thn begin_op (thn (iput_ptr ip) end_op)) (\<lambda>_. fds c V R') (\<lambda>s. may_sleep (R ! f) \<and> fds (None, {}) V R' s)"
    if "may_sleep (R ! f)" using that by (intro hoare_mono [OF stableD]) auto
  then show ?thesis using assms stable_awake [OF stable_pipeclose awake_pipeclose, of c V R'] by (cases ty) simp_all
qed

lemma fileclose_fds:
  assumes f: "f < length R"
  shows "hoare (fds c V R) (fileclose f) (\<lambda>_. fds c V (drop_ref f R)) (\<lambda>s. may_sleep (R ! f) \<and> fds (None, {}) V (drop_ref f R) s)"
    (is "hoare _ _ ?Q ?S")
proof -
  let ?R1 = "R[f := (fst (R ! f) - 1, snd (R ! f))]"
  note lk = stable_awake [OF stable_lock(2) awake_basic(7)]
  have dec: "hoare (fds c V R) (set_file f (\<lambda>x. x\<lparr>f_ref := f_ref x - 1\<rparr>)) (\<lambda>_. fds c V ?R1) ?S"
    using f by (intro set_file_fds) (auto simp: prod_eq_iff)
  have rest: "hoare (fds c V ?R1) (if f_ref ff > 0 then release FtableLock
      else thn (set_file f (\<lambda>x. x\<lparr>f_ref := 0, f_type := FD_NONE\<rparr>)) (thn (release FtableLock)
        (case f_type ff of FD_PIPE \<Rightarrow> pipeclose (f_pipe ff) (f_writable ff \<noteq> 0)
         | FD_INODE \<Rightarrow> thn begin_op (thn (iput_ptr (f_ip ff)) end_op) | FD_DEVICE \<Rightarrow> thn begin_op (thn (iput_ptr (f_ip ff)) end_op)
         | FD_NONE \<Rightarrow> ret ()))) ?Q ?S" if ff: "(f_ref ff, f_type ff) = ?R1 ! f" for ff
  proof (rule hoare_if)
    assume "f_ref ff > 0"
    then have "?R1 = drop_ref f R" using ff f by (simp add: drop_ref_def)
    then show "hoare (fds c V ?R1) (release FtableLock) ?Q ?S" using lk by simp
  next
    assume n: "\<not> f_ref ff > 0"
    then have r: "?R1[f := (0, FD_NONE)] = drop_ref f R" and m: "f_type ff = FD_INODE \<or> f_type ff = FD_DEVICE \<longrightarrow> may_sleep (R ! f)"
      using ff f by (auto simp: drop_ref_def may_sleep_def)
    have "hoare (fds c V ?R1) (set_file f (\<lambda>x. x\<lparr>f_ref := 0, f_type := FD_NONE\<rparr>)) (\<lambda>_. fds c V (drop_ref f R)) ?S"
      unfolding r [symmetric] using f by (intro set_file_fds) auto
    then show "hoare (fds c V ?R1) (thn (set_file f (\<lambda>x. x\<lparr>f_ref := 0, f_type := FD_NONE\<rparr>)) (thn (release FtableLock)
        (case f_type ff of FD_PIPE \<Rightarrow> pipeclose (f_pipe ff) (f_writable ff \<noteq> 0)
         | FD_INODE \<Rightarrow> thn begin_op (thn (iput_ptr (f_ip ff)) end_op) | FD_DEVICE \<Rightarrow> thn begin_op (thn (iput_ptr (f_ip ff)) end_op)
         | FD_NONE \<Rightarrow> ret ()))) ?Q ?S"
      by (rule hoare_thn [OF _ hoare_thn [OF lk fileclose_last [OF m]]])
  qed
  have f1: "f < length ?R1" using f by simp
  have "hoare (fds c V R) (thn (set_file f (\<lambda>x. x\<lparr>f_ref := f_ref x - 1\<rparr>)) (bnd (get_file f) (\<lambda>ff. if f_ref ff > 0 then release FtableLock
      else thn (set_file f (\<lambda>x. x\<lparr>f_ref := 0, f_type := FD_NONE\<rparr>)) (thn (release FtableLock)
        (case f_type ff of FD_PIPE \<Rightarrow> pipeclose (f_pipe ff) (f_writable ff \<noteq> 0)
         | FD_INODE \<Rightarrow> thn begin_op (thn (iput_ptr (f_ip ff)) end_op) | FD_DEVICE \<Rightarrow> thn begin_op (thn (iput_ptr (f_ip ff)) end_op)
         | FD_NONE \<Rightarrow> ret ()))))) ?Q ?S"
    by (rule hoare_thn [OF dec bnd_file [OF f1 rest]])
  then show ?thesis unfolding fileclose_def
    by (intro hoare_thn [OF stable_awake [OF stable_lock(1) awake_basic(6)]] bnd_file f hoare_if hoare_end)
qed

section \<open>Descriptors\<close>

lemma bnd_myproc: "hoare (fds (Some i, A) V R) (g i) Q S \<Longrightarrow> hoare (fds (Some i, A) V R) (bnd myproc g) Q S"
  by (auto simp: hoare_def fds_def myproc_def run_bnd bnd_def gets_def ret_def)

lemma bnd_proc:
  assumes "j < length V" and "\<And>p. p_ofile p = V ! j \<Longrightarrow> hoare (fds c V R) (g p) Q S"
  shows "hoare (fds c V R) (bnd (get_proc j) g) Q S"
proof -
  have "p_ofile (procs s ! j) = V ! j" if "fds c V R s" for s using that assms(1) by (auto simp: fds_def)
  then show ?thesis using assms(2) by (auto simp: hoare_def get_proc_def bnd_def gets_def)
qed

lemma replicate_update: "(replicate n a)[k := a] = replicate n a"
  by (cases "k < n") (auto intro: list_update_same_conv [THEN iffD2] simp: list_update_beyond)

lemma set_fd_fds:
  assumes "j \<in> snd c \<or> x = None"
  shows "hoare (fds c V R) (set_proc j (\<lambda>p. p\<lparr>p_ofile := (p_ofile p)[k := x]\<rparr>)) (\<lambda>_. fds c (put_fd j k x V) R) S"
proof -
  have e: "fds c (put_fd j k x V) R (s\<lparr>procs := (procs s)[j := (procs s ! j)\<lparr>p_ofile := (p_ofile (procs s ! j))[k := x]\<rparr>]\<rparr>)" if s: "fds c V R s" for s
  proof (cases "j < length V")
    case True
    then have l: "j < length (procs s)" "p_ofile (procs s ! j) = V ! j" using s by (auto simp: fds_def)
    have "map p_ofile ((procs s)[j := (procs s ! j)\<lparr>p_ofile := (p_ofile (procs s ! j))[k := x]\<rparr>]) = put_fd j k x V"
      using s l by (auto simp: fds_def put_fd_def map_update)
    moreover have "idle ((procs s)[j := (procs s ! j)\<lparr>p_ofile := y\<rparr>] ! i) = idle (procs s ! i)" if "i < length V" for i y
      using that s by (cases "i = j") (auto simp: fds_def idle_def)
    moreover have "put_fd j k x V ! i = replicate NOFILE None" if "i < length V" "idle (procs s ! i)" for i
    proof (cases "i = j")
      case True
      then have "x = None" "V ! j = replicate NOFILE None" using assms that s by (auto simp: fds_def)
      then show ?thesis using True that by (simp add: replicate_update)
    qed (use that s in \<open>simp add: fds_def\<close>)
    ultimately show ?thesis using s by (auto simp: fds_def)
  next
    case False
    then have "length (procs s) \<le> j" using s by (auto simp: fds_def)
    then show ?thesis using s False by (simp add: put_fd_def list_update_beyond)
  qed
  show ?thesis by (simp add: set_proc_def e)
qed

definition new_fd :: "nat \<Rightarrow> nat set \<Rightarrow> nat \<Rightarrow> nat option list list \<Rightarrow> (int \<times> ftype) list \<Rightarrow> int \<Rightarrow> 'z fistate_scheme \<Rightarrow> bool" where
  "new_fd i A f V R fd s \<longleftrightarrow> (if fd < 0 then fds (Some i, A) V R s
     else nat fd < NOFILE \<and> V ! i ! nat fd = None \<and> fds (Some i, A) (put_fd i (nat fd) (Some f) V) R s)"

lemma fdalloc_fds:
  assumes "i < length V" and "i \<in> A"
  shows "hoare (fds (Some i, A) V R) (fdalloc f) (new_fd i A f V R) S"
  unfolding fdalloc_def
proof (rule bnd_myproc, rule bnd_proc [OF assms(1)])
  fix p :: proc
  assume p: "p_ofile p = V ! i"
  show "hoare (fds (Some i, A) V R) (case find (\<lambda>fd. p_ofile p ! fd = None) [0..<NOFILE] of None \<Rightarrow> ret (- 1)
      | Some fd \<Rightarrow> thn (set_proc i (\<lambda>p. p\<lparr>p_ofile := (p_ofile p)[fd := Some f]\<rparr>)) (ret (int fd))) (new_fd i A f V R) S"
  proof (cases "find (\<lambda>fd. p_ofile p ! fd = None) [0..<NOFILE]")
    case (Some fd)
    then have "fd < NOFILE" "V ! i ! fd = None" using p by (auto simp: find_Some_iff)
    then show ?thesis unfolding Some option.case
      by (intro hoare_thn [OF set_fd_fds]) (auto simp: assms new_fd_def)
  qed (simp add: new_fd_def)
qed

lemma stable_arg [stable_intros]: "stable (get_tf i off)" "stable (argraw n)" "stable (argint n)" "stable (argaddr n)"
  unfolding argint_def argaddr_def argraw_def get_tf_def by (intro stable_intros)+

lemma awake_arg [awake_intros]: "awake (get_tf i off)" "awake (argraw n)" "awake (argint n)" "awake (argaddr n)"
  unfolding argint_def argaddr_def argraw_def get_tf_def by (intro awake_intros)+

definition the_fd :: "nat \<Rightarrow> nat option list list \<Rightarrow> (nat \<times> nat) option \<Rightarrow> bool" where
  "the_fd i V r \<longleftrightarrow> (case r of None \<Rightarrow> True | Some (k, f) \<Rightarrow> k < NOFILE \<and> V ! i ! k = Some f)"

lemma argfd_fds:
  assumes "i < length V"
  shows "hoare (fds (Some i, A) V R) (argfd n) (\<lambda>r s. the_fd i V r \<and> fds (Some i, A) V R s) S"
  unfolding argfd_def
proof (rule hoare_bnd [OF stable_awake [OF stable_arg(3) awake_arg(3)]], rule bnd_myproc, rule bnd_proc [OF assms], rule hoare_if)
  fix fd :: int and p
  assume "p_ofile p = V ! i" and "\<not> (fd < 0 \<or> fd \<ge> int NOFILE)"
  then show "hoare (fds (Some i, A) V R) (case p_ofile p ! nat fd of None \<Rightarrow> ret None | Some f \<Rightarrow> ret (Some (nat fd, f)))
      (\<lambda>r s. the_fd i V r \<and> fds (Some i, A) V R s) S"
    by (auto simp: the_fd_def split: option.split)
qed (simp add: the_fd_def)

lemma bnd_argfd:
  assumes "i < length V" and "hoare (fds (Some i, A) V R) (g None) Q S"
    and "\<And>k f. k < NOFILE \<Longrightarrow> V ! i ! k = Some f \<Longrightarrow> hoare (fds (Some i, A) V R) (g (Some (k, f))) Q S"
  shows "hoare (fds (Some i, A) V R) (bnd (argfd n) g) Q S"
proof (rule hoare_bnd [OF argfd_fds [OF assms(1)]], rule hoare_pre)
  fix r
  assume "the_fd i V r"
  then show "hoare (fds (Some i, A) V R) (g r) Q S" using assms(2,3) by (cases r) (auto simp: the_fd_def)
qed

section \<open>System calls on descriptors\<close>

definition fd_ok :: "'z fistate_scheme \<Rightarrow> bool" where
  "fd_ok s \<longleftrightarrow> (\<exists>V R. fds (cur s, set_option (cur s)) V R s \<and> balanced V R)"

lemma fd_okI: "fds (c, A) V R s \<Longrightarrow> set_option c \<subseteq> A \<Longrightarrow> balanced V R \<Longrightarrow> fd_ok s"
  unfolding fd_ok_def fds_def by fastforce

lemma stable_ok: "stable f \<Longrightarrow> balanced V R \<Longrightarrow> hoare (fds (Some i, {i}) V R) f (\<lambda>_. fd_ok) fd_ok"
  by (erule hoare_mono [OF stableD]) (auto intro: fd_okI)

lemma thn_ok: "stable f \<Longrightarrow> balanced V R \<Longrightarrow> hoare (fds c V R) g Q fd_ok \<Longrightarrow> hoare (fds c V R) (thn f g) Q fd_ok"
  by (rule hoare_stable_thn) (auto intro: fd_okI)

lemma bnd_ok: "stable f \<Longrightarrow> balanced V R \<Longrightarrow> (\<And>a. hoare (fds c V R) (g a) Q fd_ok) \<Longrightarrow> hoare (fds c V R) (bnd f g) Q fd_ok"
  by (rule hoare_stable_bnd) (auto intro: fd_okI)

lemma balancedD:
  assumes "balanced V R"
  shows "length V = NPROC" and "length R = NFILE" and "tables_ok V R"
    and "i < NPROC \<Longrightarrow> k < NOFILE \<Longrightarrow> V ! i ! k = Some f \<Longrightarrow> f < NFILE \<and> fst (R ! f) > 0"
proof -
  show t: "tables_ok V R" and "length V = NPROC" "length R = NFILE" using assms by (auto simp: balanced_def tables_ok_def)
  assume i: "i < NPROC" "k < NOFILE" "V ! i ! k = Some f"
  have f: "f < NFILE" using tables_okD(4) [OF t _ i(2,3)] tables_okD(1) [OF t] i(1) by simp
  have "length (V ! i) = NOFILE" "length V = NPROC" using tables_okD [OF t] i by auto
  then have "Some f \<in> set (V ! i)" "V ! i \<in> set V" using i by (metis nth_mem)+
  then have "fd_count V f \<noteq> 0" by (auto simp: fd_count_def count_list_0_iff)
  then show "f < NFILE \<and> fst (R ! f) > 0" using assms f by (simp add: balanced_def)
qed

lemma balanced_dup:
  assumes "balanced V R" and "i < NPROC" and "k < NOFILE" and "V ! i ! k = None" and "f < NFILE" and "fst (R ! f) > 0"
  shows "balanced (put_fd i k (Some f) V) (R[f := (fst (R ! f) + 1, snd (R ! f))])"
proof -
  have "ahead ((\<lambda>_. 0)(f := - 1)) (put_fd i k (Some f) V) R" using ahead_put [of "\<lambda>_. 0" V R i k f] assms by (simp add: balanced_ahead)
  from ahead_count [OF this assms(5), of "(fst (R ! f) + 1, snd (R ! f))"] show ?thesis using assms(6) by (simp add: balanced_ahead fun_upd_idem)
qed

lemma balanced_close:
  assumes "balanced V R" and "i < NPROC" and "k < NOFILE" and "V ! i ! k = Some f"
  shows "balanced (put_fd i k None V) (drop_ref f R)"
proof -
  have f: "f < NFILE" "fst (R ! f) > 0" using balancedD(4) [OF assms] by simp_all
  have a: "ahead ((\<lambda>_. 0)(f := 1)) (put_fd i k None V) R" using ahead_clear [of "\<lambda>_. 0" V R i k f] assms by (simp add: balanced_ahead)
  show ?thesis
  proof (cases "fst (R ! f) > 1")
    case True
    then show ?thesis using ahead_count [OF a f(1), of "(fst (R ! f) - 1, snd (R ! f))"] by (simp add: balanced_ahead drop_ref_def fun_upd_idem)
  next
    case False
    then have "fst (R ! f) = 1" using f(2) by simp
    then show ?thesis using ahead_count [OF a f(1), of "(0, FD_NONE)"] by (simp add: balanced_ahead drop_ref_def fun_upd_idem)
  qed
qed

lemma sys_dup_ok:
  assumes "balanced V R" and i: "i < NPROC"
  shows "hoare (fds (Some i, {i}) V R) sys_dup (\<lambda>_. fd_ok) fd_ok"
  unfolding sys_dup_def
proof (rule bnd_argfd)
  show "i < length V" using i balancedD(1) [OF assms(1)] by simp
  show "hoare (fds (Some i, {i}) V R) (case None of None \<Rightarrow> ret (- 1)
      | Some (_, f) \<Rightarrow> bnd (fdalloc f) (\<lambda>fd. if fd < 0 then ret (- 1) else thn (filedup f) (ret fd))) (\<lambda>_. fd_ok) fd_ok"
    using assms by (auto intro: fd_okI)
  fix k f
  assume f: "k < NOFILE" "V ! i ! k = Some f"
  note b = balancedD(4) [OF assms(1) i f]
  have n: "hoare (new_fd i {i} f V R fd) (if fd < 0 then ret (- 1) else thn (filedup f) (ret fd)) (\<lambda>_. fd_ok) fd_ok" for fd
  proof (rule hoare_if)
    show "hoare (new_fd i {i} f V R fd) (ret (- 1)) (\<lambda>_. fd_ok) fd_ok" if "fd < 0"
      using that assms by (auto simp: new_fd_def intro: fd_okI)
    assume fd: "\<not> fd < 0"
    have "hoare (fds (Some i, {i}) (put_fd i (nat fd) (Some f) V) R) (thn (filedup f) (ret fd)) (\<lambda>_. fd_ok) fd_ok"
      if "nat fd < NOFILE" "V ! i ! nat fd = None"
      unfolding thn_def by (rule hoare_bnd [OF filedup_fds])
        (use b balanced_dup [OF assms that] balancedD(2) [OF assms(1)] in \<open>auto intro: fd_okI\<close>)
    then show "hoare (new_fd i {i} f V R fd) (thn (filedup f) (ret fd)) (\<lambda>_. fd_ok) fd_ok"
      using fd by (auto simp: new_fd_def hoare_def)
  qed
  show "hoare (fds (Some i, {i}) V R) (case Some (k, f) of None \<Rightarrow> ret (- 1)
      | Some (_, f) \<Rightarrow> bnd (fdalloc f) (\<lambda>fd. if fd < 0 then ret (- 1) else thn (filedup f) (ret fd))) (\<lambda>_. fd_ok) fd_ok"
    unfolding option.case prod.case using i balancedD(1) [OF assms(1)] by (intro hoare_bnd [OF fdalloc_fds] n) simp_all
qed

lemma sys_close_ok:
  assumes "balanced V R" and i: "i < NPROC"
  shows "hoare (fds (Some i, {i}) V R) sys_close (\<lambda>_. fd_ok) fd_ok"
  unfolding sys_close_def
proof (rule bnd_argfd)
  show "i < length V" using i balancedD(1) [OF assms(1)] by simp
  show "hoare (fds (Some i, {i}) V R) (case None of None \<Rightarrow> ret (- 1)
      | Some (fd, f) \<Rightarrow> bnd myproc (\<lambda>i. thn (clear_fd i fd) (thn (fileclose f) (ret 0)))) (\<lambda>_. fd_ok) fd_ok"
    using assms by (auto intro: fd_okI)
  fix k f
  assume f: "k < NOFILE" "V ! i ! k = Some f"
  note b = balancedD(4) [OF assms(1) i f] balanced_close [OF assms f]
  have c: "hoare (fds (Some i, {i}) (put_fd i k None V) R) (thn (fileclose f) (ret 0)) (\<lambda>_. fd_ok) fd_ok"
    by (rule hoare_thn [OF hoare_mono [OF fileclose_fds], where R = fd_ok])
      (use b balancedD(2) [OF assms(1)] in \<open>auto intro: fd_okI\<close>)
  show "hoare (fds (Some i, {i}) V R) (case Some (k, f) of None \<Rightarrow> ret (- 1)
      | Some (fd, f) \<Rightarrow> bnd myproc (\<lambda>i. thn (clear_fd i fd) (thn (fileclose f) (ret 0)))) (\<lambda>_. fd_ok) fd_ok"
    unfolding option.case prod.case clear_fd_def by (intro bnd_myproc hoare_thn [OF set_fd_fds c]) simp
qed

end
