(* ===== verification/FdCalls.thy ===== *)
theory FdCalls
  imports FdRefs
begin

text \<open>
  Every system call keeps the reference counts of open files.  The calls that make or drop descriptors are \<open>dup\<close>, \<open>close\<close>, \<open>pipe\<close>,
  \<open>open\<close>, \<open>fork\<close> and \<open>exit\<close>; the others are stable.
\<close>

section \<open>Calls that leave descriptors alone\<close>

lemma stable_get_file [stable_intros]: "stable (get_file f)"
  unfolding get_file_def by (intro stable_intros)

lemma stable_set_file [stable_intros]:
  assumes "\<And>x. f_ref (g x) = f_ref x \<and> f_type (g x) = f_type x"
  shows "stable (set_file f g)"
proof -
  have "map (\<lambda>x. (f_ref x, f_type x)) ((ftable s)[f := g (ftable s ! f)]) = map (\<lambda>x. (f_ref x, f_type x)) (ftable s)" for s :: "'a fistate_scheme"
    using assms by (cases "f < length (ftable s)") (auto simp: map_update list_update_beyond list_update_same_conv)
  then show ?thesis unfolding set_file_def stable_def fds_def by simp
qed

lemma stable_ftype [stable_intros]:
  "stable a \<Longrightarrow> stable b \<Longrightarrow> stable c \<Longrightarrow> stable d \<Longrightarrow> stable (case t of FD_NONE \<Rightarrow> a | FD_PIPE \<Rightarrow> b | FD_INODE \<Rightarrow> c | FD_DEVICE \<Rightarrow> d)"
  by (cases t) simp_all

lemma stable_dev_call [stable_intros]: "stable (dev_call g addr n)"
  by (cases g) (simp_all add: stable_intros)

lemma stable_fileread [stable_intros]: "stable (fileread f addr n)"
  unfolding fileread_def by (intro stable_intros) simp

lemma stable_filewrite [stable_intros]: "stable (filewrite f addr n)"
proof -
  have "stable (filewrite_loop k f addr n i)" for k i
    by (induction k arbitrary: i) (simp_all only: filewrite_loop.simps, (intro stable_intros; (assumption | simp)?)+)
  then show ?thesis unfolding filewrite_def by (intro stable_intros)
qed

lemma stable_filestat [stable_intros]: "stable (filestat f addr)"
  unfolding filestat_def spill_stat_def by (intro stable_intros) simp

lemma stable_argfd [stable_intros]: "stable (argfd n)"
  unfolding argfd_def by (intro stable_intros)

lemma stable_fetch [stable_intros]: "stable (fetchaddr a)" "stable (fetchstr a b m)" "stable (argstr n k)" "stable (fetch_name q)"
  unfolding fetchaddr_def fetchstr_def argstr_def fetch_name_def by (intro stable_intros)+

lemma stable_read_calls [stable_intros]: "stable sys_read" "stable sys_write" "stable sys_fstat"
  unfolding sys_read_def sys_write_def sys_fstat_def by (intro stable_intros)+

lemma stable_sys_link [stable_intros]: "stable sys_link"
  unfolding sys_link_def link_into_def link_bad_def by (intro stable_intros)

lemma stable_sys_unlink [stable_intros]: "stable sys_unlink"
proof -
  have "stable (isdirempty_loop k dp off)" for k dp off
    by (induction k arbitrary: off) (simp_all only: isdirempty_loop.simps, (intro stable_intros; assumption?)+)
  then show ?thesis unfolding sys_unlink_def unlink_bad_def unlink_entry_def isdirempty_def
    by (intro stable_intros) (simp_all del: isdirempty_loop.simps)
qed

lemma stable_create [stable_intros]: "stable (create path type major minor)"
  unfolding create_def by (intro stable_intros)

lemma stable_dir_calls [stable_intros]: "stable sys_mkdir" "stable sys_mknod" "stable sys_chdir"
  unfolding sys_mkdir_def sys_mknod_def sys_chdir_def by (intro stable_intros; simp add: idle_def)+

lemma stable_tf [stable_intros]: "stable (set_tf i off v)"
  unfolding set_tf_def by (intro stable_intros)

lemma stable_loadseg [stable_intros]: "stable (loadseg pt va ip off sz)"
proof -
  have "stable (loadseg_loop k pt va ip off sz i)" for k i
    by (induction k arbitrary: i) (simp_all only: loadseg_loop.simps, (intro stable_intros; assumption?)+)
  then show ?thesis unfolding loadseg_def by (intro stable_intros) (simp_all del: loadseg_loop.simps)
qed

lemma stable_exec_parts [stable_intros]: "stable (read_struct ip off n)" "stable (uvmclear pt va)" "stable (exec_bad pt sz q)"
  "stable (exec_ustack pt base sp us)"
  unfolding read_struct_def uvmclear_def exec_bad_def exec_ustack_def by (intro stable_intros; simp)+

lemma stable_exec_load [stable_intros]: "stable (exec_load k pt ip off sz)"
  by (induction k arbitrary: off sz) (simp_all only: exec_load.simps, (intro stable_intros; assumption?)+)

lemma stable_exec_push [stable_intros]: "stable (exec_push as pt base sp us)"
  by (induction as arbitrary: sp us) (simp_all only: exec_push.simps, (intro stable_intros; assumption?)+)

lemma stable_exec_commit [stable_intros]: "stable (exec_commit i path elf pt sz oldsz sp argc)"
  unfolding exec_commit_def by (intro stable_intros) (simp_all add: idle_def)

lemma stable_exec [stable_intros]: "stable (exec path argv)"
  unfolding exec_def exec_stack_def by (intro stable_intros)

lemma stable_sys_exec [stable_intros]: "stable sys_exec"
proof -
  have "stable (exec_fetch k uargv argv)" for k uargv argv
    by (induction k arbitrary: argv) (simp_all only: exec_fetch.simps, (intro stable_intros; assumption?)+)
  then show ?thesis unfolding sys_exec_def by (intro stable_intros)
qed

lemma stable_proc_calls [stable_intros]:
  "stable sys_getpid" "stable sys_sbrk" "stable sys_kill" "stable sys_sleep" "stable sys_uptime"
  unfolding sys_getpid_def sys_sbrk_def sys_kill_def sys_sleep_def sys_sleep_loop_def sys_uptime_def by (intro stable_intros)+

section \<open>Rings\<close>

lemma stable_ring [stable_intros]: "stable (get_ring i)" "stable (set_ring i f)"
  unfolding get_ring_def set_ring_def by (intro stable_intros; simp)+

lemma stable_nat [stable_intros]: "stable f \<Longrightarrow> (\<And>k. stable (g k)) \<Longrightarrow> stable (case n of 0 \<Rightarrow> f | Suc k \<Rightarrow> g k)"
  by (cases n) simp_all

lemma stable_find_space [stable_intros]: "stable (find_space pt start)"
  by (rule stable_mem_fun [OF mem_funI [OF mem_at_find_space]])

lemma stable_ring_pages [stable_intros]: "stable (ring_pages is idx pt start newmap m)"
  by (induction "is" arbitrary: m) (simp_all only: ring_pages.simps, (intro stable_intros; assumption?)+)

lemma stable_mapper [stable_intros]: "stable (processSpace_mapper idx newmap)"
  unfolding processSpace_mapper_def by (intro stable_intros)

lemma stable_find [stable_intros]: "stable (find_name is str)" "stable (find_unused is)"
  by (induction "is") (simp_all only: find_name.simps find_unused.simps, (intro stable_intros; assumption?)+)

lemma stable_createbuf [stable_intros]: "stable (createbuf str op addr)"
  unfolding createbuf_def createbuf_done_def by (intro stable_intros) (simp_all add: idle_def)

lemma stable_closebuf [stable_intros]: "stable (closebuf str op)"
  unfolding closebuf_def closebuf_unmap_def by (intro stable_intros) (simp_all add: idle_def)

lemma stable_ring_calls [stable_intros]: "stable sys_createbuf" "stable sys_closebuf"
  unfolding sys_createbuf_def sys_closebuf_def by (intro stable_intros)+

section \<open>Pipes\<close>

text \<open>A file that was just made is closed without sleeping.\<close>

lemma fileclose_fresh:
  assumes "f < length R" and "R ! f = (1, ty)" and "ty = FD_NONE \<or> ty = FD_PIPE"
  shows "hoare (fds c V R) (fileclose f) (\<lambda>_. fds c V (R[f := (0, FD_NONE)])) S"
  using fileclose_fds [OF assms(1), of c V] assms(2,3)
  by (auto simp: drop_ref_def may_sleep_def elim!: hoare_mono)

text \<open>Two new files of the type \<open>ty\<close>.\<close>

definition two_files :: "ftype \<Rightarrow> nat \<Rightarrow> nat \<Rightarrow> (int \<times> ftype) list \<Rightarrow> (int \<times> ftype) list" where
  "two_files ty f0 f1 R = R[f0 := (1, ty), f1 := (1, ty)]"

definition unused_files :: "nat \<Rightarrow> nat \<Rightarrow> (int \<times> ftype) list \<Rightarrow> bool" where
  "unused_files f0 f1 R \<longleftrightarrow> f0 \<noteq> f1 \<and> f0 < length R \<and> f1 < length R \<and> R ! f0 = (0, FD_NONE) \<and> R ! f1 = (0, FD_NONE)"

lemma close_two:
  assumes "unused_files f0 f1 R" and "ty = FD_NONE \<or> ty = FD_PIPE" and "hoare (fds c V R) g Q S"
  shows "hoare (fds c V (two_files ty f0 f1 R)) (thn (fileclose f0) (thn (fileclose f1) g)) Q S"
proof -
  let ?R = "two_files ty f0 f1 R"
  have "hoare (fds c V ?R) (fileclose f0) (\<lambda>_. fds c V (?R[f0 := (0, FD_NONE)])) S"
    using assms(1,2) by (intro fileclose_fresh) (auto simp: two_files_def unused_files_def)
  moreover have "hoare (fds c V (?R[f0 := (0, FD_NONE)])) (fileclose f1) (\<lambda>_. fds c V (?R[f0 := (0, FD_NONE), f1 := (0, FD_NONE)])) S"
    using assms(1,2) by (intro fileclose_fresh) (auto simp: two_files_def unused_files_def)
  moreover have "?R[f0 := (0, FD_NONE), f1 := (0, FD_NONE)] = R"
    using assms(1) by (auto simp: two_files_def unused_files_def list_eq_iff_nth_eq nth_list_update)
  ultimately show ?thesis using assms(3) by (auto intro!: hoare_thn)
qed

lemma stable_pipealloc_end:
  assumes "unused_files f0 f1 R"
  shows "hoare (fds c V (two_files FD_NONE f0 f1 R)) (thn (set_pipe pi h) (thn (initlock (PipeLock pi))
      (thn (set_file f0 (\<lambda>x. x\<lparr>f_type := FD_PIPE, f_readable := 1, f_writable := 0, f_pipe := pi\<rparr>))
      (thn (set_file f1 (\<lambda>x. x\<lparr>f_type := FD_PIPE, f_readable := 0, f_writable := 1, f_pipe := pi\<rparr>)) (ret r)))))
    (\<lambda>r' s. r' = r \<and> fds c V (two_files FD_PIPE f0 f1 R) s) S"
proof -
  let ?R = "two_files FD_NONE f0 f1 R"
  have 0: "hoare (fds c V ?R) (set_file f0 (\<lambda>x. x\<lparr>f_type := FD_PIPE, f_readable := 1, f_writable := 0, f_pipe := pi\<rparr>)) (\<lambda>_. fds c V (?R[f0 := (1, FD_PIPE)])) S"
    using assms by (intro set_file_fds) (auto simp: two_files_def unused_files_def)
  have 1: "hoare (fds c V (?R[f0 := (1, FD_PIPE)])) (set_file f1 (\<lambda>x. x\<lparr>f_type := FD_PIPE, f_readable := 0, f_writable := 1, f_pipe := pi\<rparr>))
      (\<lambda>_. fds c V (?R[f0 := (1, FD_PIPE), f1 := (1, FD_PIPE)])) S"
    using assms by (intro set_file_fds) (auto simp: two_files_def unused_files_def)
  have e: "?R[f0 := (1, FD_PIPE), f1 := (1, FD_PIPE)] = two_files FD_PIPE f0 f1 R"
    using assms by (auto simp: two_files_def unused_files_def list_eq_iff_nth_eq nth_list_update)
  have p: "awake (set_pipe pi h)" unfolding set_pipe_def by (rule awake_intros)
  show ?thesis
    by (rule hoare_thn [OF stable_awake [OF stable_pipe(2) p]], rule hoare_thn [OF stable_awake [OF stable_lock(3) awake_basic(8)]],
        rule hoare_thn [OF 0], rule hoare_thn [OF 1]) (simp add: e)
qed

lemma hoare_prod: "(\<And>a b. hoare P (f a b) Q S) \<Longrightarrow> hoare P (case x of (a, b) \<Rightarrow> f a b) Q S"
  by (cases x) simp

lemma hoare_awake: "hoare P f Q S \<Longrightarrow> awake f \<Longrightarrow> hoare P f Q S'"
  unfolding hoare_def awake_def by (fastforce split: outcome.splits)

lemma awake_filealloc [awake_intros]: "awake filealloc"
proof -
  have "awake (filealloc_scan fs)" for fs
    by (induction fs) (simp_all only: filealloc_scan.simps, (intro awake_intros; assumption?)+)
  then show ?thesis unfolding filealloc_def by (intro awake_intros)
qed

definition typed :: "(int \<times> ftype) list \<Rightarrow> bool" where
  "typed R \<longleftrightarrow> length R = NFILE \<and> (\<forall>f<NFILE. fst (R ! f) = 0 \<longrightarrow> snd (R ! f) = FD_NONE)"

lemma typed_balanced: "balanced V R \<Longrightarrow> typed R"
  by (simp add: balanced_def typed_def tables_ok_def)

lemma bnd_filealloc:
  assumes "typed R" and "hoare (fds c V R) (g None) Q S"
    and "\<And>f. f < length R \<Longrightarrow> R ! f = (0, FD_NONE) \<Longrightarrow> hoare (fds c V (R[f := (1, FD_NONE)])) (g (Some f)) Q S"
  shows "hoare (fds c V R) (bnd filealloc g) Q S"
proof -
  have "length R = NFILE" using assms(1) by (simp add: typed_def)
  note fa = hoare_awake [OF filealloc_fds [OF this] awake_filealloc]
  show ?thesis
  proof (rule hoare_bnd [OF fa])
    fix r
    show "hoare (new_file c V R r) (g r) Q S"
    proof (cases r)
      case None
      then show ?thesis using assms(2) by (simp add: new_file_def hoare_def)
    next
      case (Some f)
      have "R ! f = (0, FD_NONE)" if "f < length R" "fst (R ! f) = 0" using assms(1) that by (simp add: typed_def prod_eq_iff)
      then show ?thesis using assms(3) [of f] Some by (auto simp: new_file_def hoare_def)
    qed
  qed
qed

definition new_pipe :: "nat option \<times> nat set \<Rightarrow> nat option list list \<Rightarrow> (int \<times> ftype) list \<Rightarrow> int \<times> nat option \<times> nat option \<Rightarrow> 'z fistate_scheme \<Rightarrow> bool" where
  "new_pipe c V R r s \<longleftrightarrow> (case r of (v, p0, p1) \<Rightarrow> if v < 0 then fds c V R s
     else \<exists>f0 f1. p0 = Some f0 \<and> p1 = Some f1 \<and> unused_files f0 f1 R \<and> fds c V (two_files FD_PIPE f0 f1 R) s)"

lemma pipealloc_fds:
  assumes "typed R"
  shows "hoare (fds c V R) pipealloc (new_pipe c V R) S"
  unfolding pipealloc_def
proof (rule bnd_filealloc [OF assms]; unfold option.case)
  show "hoare (fds c V R) (pipealloc_bad 0 None None) (new_pipe c V R) S"
    by (simp add: pipealloc_bad_def close_ptr_def new_pipe_def hoare_def monad_simps)
  fix f0
  assume f0: "f0 < length R" "R ! f0 = (0, FD_NONE)"
  let ?R = "R[f0 := (1, FD_NONE)]"
  have t: "typed ?R" using assms f0 by (auto simp: typed_def nth_list_update)
  have r: "?R[f0 := (0, FD_NONE)] = R" using f0 by (simp add: list_update_same_conv)
  show "hoare (fds c V ?R) (bnd filealloc (\<lambda>p1. case p1 of None \<Rightarrow> pipealloc_bad 0 (Some f0) None
     | Some f1 \<Rightarrow> bnd kalloc (\<lambda>pi.
         if pi = 0 then pipealloc_bad 0 (Some f0) (Some f1)
         else thn (set_pipe pi (\<lambda>p. p\<lparr>pi_readopen := 1, pi_writeopen := 1, pi_nwrite := 0, pi_nread := 0\<rparr>))
             (thn (initlock (PipeLock pi))
             (thn (set_file f0 (\<lambda>x. x\<lparr>f_type := FD_PIPE, f_readable := 1, f_writable := 0, f_pipe := pi\<rparr>))
             (thn (set_file f1 (\<lambda>x. x\<lparr>f_type := FD_PIPE, f_readable := 0, f_writable := 1, f_pipe := pi\<rparr>))
                  (ret (0, Some f0, Some f1)))))))) (new_pipe c V R) S"
  proof (rule bnd_filealloc [OF t]; unfold option.case)
    have c0: "hoare (fds c V ?R) (fileclose f0) (\<lambda>_. fds c V (?R[f0 := (0, FD_NONE)])) S"
      using f0 by (intro fileclose_fresh) auto
    show "hoare (fds c V ?R) (pipealloc_bad 0 (Some f0) None) (new_pipe c V R) S"
      unfolding pipealloc_bad_def close_ptr_def option.case
      by (rule hoare_thn [where R = "fds c V ?R"], simp, rule hoare_thn [OF c0 [unfolded r]]) (auto simp: new_pipe_def hoare_def monad_simps)
    fix f1
    assume f1: "f1 < length ?R" "?R ! f1 = (0, FD_NONE)"
    then have u: "unused_files f0 f1 R" and e: "?R[f1 := (1, FD_NONE)] = two_files FD_NONE f0 f1 R"
      using f0 by (auto simp: unused_files_def two_files_def nth_list_update split: if_splits)
    have "hoare (fds c V (two_files FD_NONE f0 f1 R)) (pipealloc_bad 0 (Some f0) (Some f1)) (new_pipe c V R) S"
      unfolding pipealloc_bad_def close_ptr_def option.case
      by (rule hoare_thn [where R = "fds c V (two_files FD_NONE f0 f1 R)"], simp, rule close_two [OF u]) (simp_all add: new_pipe_def)
    moreover have "hoare (fds c V (two_files FD_NONE f0 f1 R)) (thn (set_pipe pi (\<lambda>p. p\<lparr>pi_readopen := 1, pi_writeopen := 1, pi_nwrite := 0, pi_nread := 0\<rparr>))
             (thn (initlock (PipeLock pi))
             (thn (set_file f0 (\<lambda>x. x\<lparr>f_type := FD_PIPE, f_readable := 1, f_writable := 0, f_pipe := pi\<rparr>))
             (thn (set_file f1 (\<lambda>x. x\<lparr>f_type := FD_PIPE, f_readable := 0, f_writable := 1, f_pipe := pi\<rparr>))
                  (ret (0, Some f0, Some f1)))))) (new_pipe c V R) S" for pi
      by (rule hoare_mono [OF stable_pipealloc_end [OF u]]) (use u in \<open>auto simp: new_pipe_def\<close>)
    ultimately show "hoare (fds c V (?R[f1 := (1, FD_NONE)])) (bnd kalloc (\<lambda>pi.
         if pi = 0 then pipealloc_bad 0 (Some f0) (Some f1)
         else thn (set_pipe pi (\<lambda>p. p\<lparr>pi_readopen := 1, pi_writeopen := 1, pi_nwrite := 0, pi_nread := 0\<rparr>))
             (thn (initlock (PipeLock pi))
             (thn (set_file f0 (\<lambda>x. x\<lparr>f_type := FD_PIPE, f_readable := 1, f_writable := 0, f_pipe := pi\<rparr>))
             (thn (set_file f1 (\<lambda>x. x\<lparr>f_type := FD_PIPE, f_readable := 0, f_writable := 1, f_pipe := pi\<rparr>))
                  (ret (0, Some f0, Some f1))))))) (new_pipe c V R) S"
      unfolding e by (intro hoare_bnd [OF stable_awake] hoare_if stable_intros awake_mem_fun [OF mem_fun_kalloc])
  qed
qed

lemma put_fd_undo: "i < length V \<Longrightarrow> V ! i ! k = x \<Longrightarrow> put_fd i k x (put_fd i k y V) = V"
  by (auto simp: put_fd_def)

lemma balanced_pipe:
  assumes b: "balanced V R" and i: "i < NPROC" and u: "unused_files f0 f1 R" and k: "k0 < NOFILE" "k1 < NOFILE" "V ! i ! k0 = None" "V ! i ! k1 = None" "k0 \<noteq> k1"
  shows "balanced (put_fd i k1 (Some f1) (put_fd i k0 (Some f0) V)) (two_files FD_PIPE f0 f1 R)"
proof -
  have l: "length V = NPROC" "length R = NFILE" "length (V ! i) = NOFILE" using balancedD [OF b] tables_okD(3) [OF balancedD(3) [OF b]] i by auto
  have "ahead (\<lambda>_. 0) V R" using b by (simp add: balanced_ahead)
  from ahead_count [OF this, of f0 "(1, FD_PIPE)"] have "ahead ((\<lambda>_. 0)(f0 := 1)) V (R[f0 := (1, FD_PIPE)])"
    using u l by (simp add: unused_files_def)
  from ahead_count [OF this, of f1 "(1, FD_PIPE)"] have a: "ahead ((\<lambda>_. 0)(f0 := 1, f1 := 1)) V (two_files FD_PIPE f0 f1 R)"
    using u l by (simp add: unused_files_def two_files_def)
  have "ahead ((\<lambda>_. 0)(f1 := 1)) (put_fd i k0 (Some f0) V) (two_files FD_PIPE f0 f1 R)"
    using ahead_put [OF a i k(1,3), of f0] u l by (simp add: unused_files_def fun_upd_twist fun_upd_idem)
  from ahead_put [OF this i k(2), of f1] show ?thesis
    using u l i k by (simp add: balanced_ahead unused_files_def fun_upd_idem)
qed

lemma put_fd_commute: "k \<noteq> m \<Longrightarrow> put_fd i k x (put_fd i m y V) = put_fd i m y (put_fd i k x V)"
  by (cases "i < length V") (simp_all add: put_fd_def list_update_swap list_update_beyond)

lemma new_fd_cases:
  assumes "fd < 0 \<Longrightarrow> hoare (fds (Some i, A) V R) g Q S"
    and "\<lbrakk>\<not> fd < 0; nat fd < NOFILE; V ! i ! nat fd = None\<rbrakk> \<Longrightarrow> hoare (fds (Some i, A) (put_fd i (nat fd) (Some f) V) R) g Q S"
  shows "hoare (new_fd i A f V R fd) g Q S"
  using assms by (cases "fd < 0") (auto simp: new_fd_def hoare_def)

text \<open>\<open>sys_pipe\<close> once the pipe was made: the errors, the copies to user space, and both descriptors.\<close>

definition pipe_bad :: "nat \<Rightarrow> nat \<Rightarrow> ('z fistate_scheme, int) kfun" where
  "pipe_bad f0 f1 = thn (fileclose f0) (thn (fileclose f1) (ret (- 1)))"

definition pipe_tell :: "nat \<Rightarrow> nat \<Rightarrow> nat \<Rightarrow> uint64 \<Rightarrow> int \<Rightarrow> int \<Rightarrow> ('z fistate_scheme, int) kfun" where
  "pipe_tell i f0 f1 fdarray fd0 fd1 = bnd (gets stack_at) (\<lambda>a. thn (spill32 a (of_int fd0)) (bnd (get_proc i) (\<lambda>p.
     bnd (copyout (p_pagetable p) fdarray a 4) (\<lambda>c0.
     bnd (if c0 < 0 then ret (- 1) else thn (spill32 a (of_int fd1)) (copyout (p_pagetable p) (fdarray + 4) a 4)) (\<lambda>c1.
       if c1 < 0 then thn (clear_fd i (nat fd0)) (thn (clear_fd i (nat fd1)) (pipe_bad f0 f1)) else ret 0)))))"

lemma sys_pipe_eq: "sys_pipe = bnd myproc (\<lambda>i. bnd (argaddr 0) (\<lambda>fdarray. bnd pipealloc (\<lambda>r. case r of
     (v, Some f0, Some f1) \<Rightarrow> if v < 0 then ret (- 1)
       else bnd (fdalloc f0) (\<lambda>fd0. if fd0 < 0 then pipe_bad f0 f1
         else bnd (fdalloc f1) (\<lambda>fd1. if fd1 < 0 then thn (clear_fd i (nat fd0)) (pipe_bad f0 f1)
           else pipe_tell i f0 f1 fdarray fd0 fd1))
   | _ \<Rightarrow> ret (- 1))))"
  unfolding sys_pipe_def pipe_bad_def pipe_tell_def Let_def ..

lemma pipe_bad_ok:
  assumes "balanced V R" and "unused_files f0 f1 R"
  shows "hoare (fds (Some i, {i}) V (two_files FD_PIPE f0 f1 R)) (pipe_bad f0 f1) (\<lambda>_. fd_ok) fd_ok"
  unfolding pipe_bad_def using assms by (intro close_two) (auto intro: fd_okI)

lemma clear_fd_fds: "hoare (fds c V R) (clear_fd i k) (\<lambda>_. fds c (put_fd i k None V) R) S"
  unfolding clear_fd_def by (rule set_fd_fds) simp

lemma pipe_tell_ok:
  assumes b: "balanced V R" and i: "i < NPROC" and u: "unused_files f0 f1 R"
    and k: "nat fd0 < NOFILE" "nat fd1 < NOFILE" "V ! i ! nat fd0 = None" "V ! i ! nat fd1 = None" "nat fd0 \<noteq> nat fd1"
  shows "hoare (fds (Some i, {i}) (put_fd i (nat fd1) (Some f1) (put_fd i (nat fd0) (Some f0) V)) (two_files FD_PIPE f0 f1 R))
    (pipe_tell i f0 f1 fdarray fd0 fd1) (\<lambda>_. fd_ok) fd_ok"
proof -
  let ?V = "put_fd i (nat fd1) (Some f1) (put_fd i (nat fd0) (Some f0) V)" and ?R = "two_files FD_PIPE f0 f1 R"
  note p = balanced_pipe [OF b i u k]
  have l: "i < length V" using i balancedD(1) [OF b] by simp
  have e: "put_fd i (nat fd1) None (put_fd i (nat fd0) None ?V) = V"
    using k l by (simp add: put_fd_commute [of "nat fd0" "nat fd1" i None] put_fd_undo)
  have "hoare (fds (Some i, {i}) ?V ?R) (thn (clear_fd i (nat fd0)) (thn (clear_fd i (nat fd1)) (pipe_bad f0 f1))) (\<lambda>_. fd_ok) fd_ok"
    by (rule hoare_thn [OF clear_fd_fds], rule hoare_thn [OF clear_fd_fds], unfold e, rule pipe_bad_ok [OF b u])
  moreover have "hoare (fds (Some i, {i}) ?V ?R) (ret 0) (\<lambda>_. fd_ok) fd_ok" using p by (auto intro: fd_okI)
  ultimately show ?thesis unfolding pipe_tell_def
    by (intro bnd_ok [OF stable_gets p] thn_ok [OF stable_spill(1) p] bnd_ok [OF stable_myproc(2) p] bnd_ok [OF _ p] stable_intros hoare_if)
qed

lemma sys_pipe_ok:
  assumes b: "balanced V R" and i: "i < NPROC"
  shows "hoare (fds (Some i, {i}) V R) sys_pipe (\<lambda>_. fd_ok) fd_ok"
proof -
  let ?c = "(Some i, {i})"
  have l: "i < length V" "length (V ! i) = NOFILE" using i balancedD(1) [OF b] tables_okD(3) [OF balancedD(3) [OF b]] by auto
  have fail: "hoare (fds ?c V R) (ret (- 1)) (\<lambda>_. fd_ok) fd_ok" using b by (auto intro: fd_okI)
  have two: "hoare (fds ?c V (two_files FD_PIPE f0 f1 R)) (bnd (fdalloc f0) (\<lambda>fd0. if fd0 < 0 then pipe_bad f0 f1
         else bnd (fdalloc f1) (\<lambda>fd1. if fd1 < 0 then thn (clear_fd i (nat fd0)) (pipe_bad f0 f1)
           else pipe_tell i f0 f1 fdarray fd0 fd1))) (\<lambda>_. fd_ok) fd_ok" if u: "unused_files f0 f1 R" for f0 f1 fdarray
  proof (rule hoare_bnd [OF fdalloc_fds], rule l, simp, rule new_fd_cases)
    fix fd0 :: int
    show "hoare (fds ?c V (two_files FD_PIPE f0 f1 R)) (if fd0 < 0 then pipe_bad f0 f1
         else bnd (fdalloc f1) (\<lambda>fd1. if fd1 < 0 then thn (clear_fd i (nat fd0)) (pipe_bad f0 f1)
           else pipe_tell i f0 f1 fdarray fd0 fd1)) (\<lambda>_. fd_ok) fd_ok" if "fd0 < 0" using that pipe_bad_ok [OF b u] by simp
    assume f0: "\<not> fd0 < 0" "nat fd0 < NOFILE" "V ! i ! nat fd0 = None"
    let ?V = "put_fd i (nat fd0) (Some f0) V"
    have "hoare (fds ?c ?V (two_files FD_PIPE f0 f1 R)) (bnd (fdalloc f1) (\<lambda>fd1. if fd1 < 0 then thn (clear_fd i (nat fd0)) (pipe_bad f0 f1)
           else pipe_tell i f0 f1 fdarray fd0 fd1)) (\<lambda>_. fd_ok) fd_ok"
    proof (rule hoare_bnd [OF fdalloc_fds], use l in simp, simp, rule new_fd_cases)
      fix fd1 :: int
      have e: "put_fd i (nat fd0) None ?V = V" using l f0 by (simp add: put_fd_undo)
      have "hoare (fds ?c ?V (two_files FD_PIPE f0 f1 R)) (thn (clear_fd i (nat fd0)) (pipe_bad f0 f1)) (\<lambda>_. fd_ok) fd_ok"
        by (rule hoare_thn [OF clear_fd_fds], unfold e, rule pipe_bad_ok [OF b u])
      then show "hoare (fds ?c ?V (two_files FD_PIPE f0 f1 R)) (if fd1 < 0 then thn (clear_fd i (nat fd0)) (pipe_bad f0 f1)
           else pipe_tell i f0 f1 fdarray fd0 fd1) (\<lambda>_. fd_ok) fd_ok" if "fd1 < 0" using that by simp
      assume f1: "\<not> fd1 < 0" "nat fd1 < NOFILE" "?V ! i ! nat fd1 = None"
      then have "V ! i ! nat fd1 = None" "nat fd0 \<noteq> nat fd1" using l f0 by (auto simp: nth_list_update split: if_splits)
      then show "hoare (fds ?c (put_fd i (nat fd1) (Some f1) ?V) (two_files FD_PIPE f0 f1 R)) (if fd1 < 0 then thn (clear_fd i (nat fd0)) (pipe_bad f0 f1)
           else pipe_tell i f0 f1 fdarray fd0 fd1) (\<lambda>_. fd_ok) fd_ok" using f0 f1 pipe_tell_ok [OF b i u] by simp
    qed
    then show "hoare (fds ?c ?V (two_files FD_PIPE f0 f1 R)) (if fd0 < 0 then pipe_bad f0 f1
         else bnd (fdalloc f1) (\<lambda>fd1. if fd1 < 0 then thn (clear_fd i (nat fd0)) (pipe_bad f0 f1)
           else pipe_tell i f0 f1 fdarray fd0 fd1)) (\<lambda>_. fd_ok) fd_ok" using f0 by simp
  qed
  have made: "hoare (new_pipe ?c V R r) (case r of (v, Some f0, Some f1) \<Rightarrow> if v < 0 then ret (- 1)
       else bnd (fdalloc f0) (\<lambda>fd0. if fd0 < 0 then pipe_bad f0 f1
         else bnd (fdalloc f1) (\<lambda>fd1. if fd1 < 0 then thn (clear_fd i (nat fd0)) (pipe_bad f0 f1)
           else pipe_tell i f0 f1 fdarray fd0 fd1))
     | _ \<Rightarrow> ret (- 1)) (\<lambda>_. fd_ok) fd_ok" for r fdarray
  proof (cases "fst r < 0")
    case True
    then show ?thesis using b by (cases r) (auto simp: new_pipe_def split: option.split intro: fd_okI)
  next
    case False
    then show ?thesis using two by (cases r) (auto simp: new_pipe_def hoare_def split: option.split)
  qed
  show ?thesis unfolding sys_pipe_eq
    by (intro bnd_myproc bnd_ok b stable_intros hoare_bnd [OF pipealloc_fds [OF typed_balanced [OF b]]] made)
qed

section \<open>Opening\<close>

lemma hoare_ex: "(\<And>x. hoare (P x) f Q S) \<Longrightarrow> hoare (\<lambda>s. \<exists>x. P x s) f Q S"
  by (auto simp: hoare_def)

lemma balanced_open:
  assumes b: "balanced V R" and i: "i < NPROC" and k: "k < NOFILE" "V ! i ! k = None" and f: "f < length R" "R ! f = (0, FD_NONE)"
  shows "balanced (put_fd i k (Some f) V) (R[f := (1, ty)])"
proof -
  have f': "f < NFILE" using f balancedD(2) [OF b] by simp
  have "ahead ((\<lambda>_. 0)(f := 1)) V (R[f := (1, ty)])"
    using ahead_count [of "\<lambda>_. 0" V R f "(1, ty)"] b f f' by (simp add: balanced_ahead)
  from ahead_put [OF this i k f'] show ?thesis by (simp add: balanced_ahead fun_upd_idem)
qed

lemma stable_open_inode [stable_intros]: "stable (open_inode path omode)"
  unfolding open_inode_def by (intro stable_intros)

lemma open_file_fds:
  assumes b: "\<And>ty. balanced V (R[f := (1, ty)])" and f: "f < length R"
  shows "hoare (fds c V (R[f := (1, FD_NONE)])) (open_file f ip omode) (\<lambda>_ s. \<exists>ty. fds c V (R[f := (1, ty)]) s) fd_ok"
proof -
  let ?R = "\<lambda>ty. R[f := (1, ty)]"
  have set: "hoare (fds c V (?R FD_NONE)) (set_file f g) (\<lambda>_ s. \<exists>ty. fds c V (?R ty) s) fd_ok"
    if "\<And>x. f_ref (g x) = f_ref x \<and> f_type (g x) = ty" for g ty
  proof -
    have "hoare (fds c V (?R FD_NONE)) (set_file f g) (\<lambda>_. fds c V ((?R FD_NONE)[f := (1, ty)])) fd_ok"
      using that f by (intro set_file_fds) auto
    then show ?thesis by (rule hoare_mono) (auto simp: list_update_overwrite)
  qed
  have rest: "hoare (\<lambda>s. \<exists>ty. fds c V (?R ty) s) h (\<lambda>_ s. \<exists>ty. fds c V (?R ty) s) fd_ok" if "stable h" for h
    by (rule hoare_ex, rule hoare_mono [OF stableD [OF that]]) (use b in \<open>auto intro: fd_okI\<close>)
  show ?thesis unfolding open_file_def Let_def
    by (rule bnd_ok [OF stable_inode(1) b], rule hoare_thn, rule hoare_if, rule set, simp, rule set, simp, rule rest)
      (intro stable_intros; simp)
qed

lemma sys_open_ok:
  assumes b: "balanced V R" and i: "i < NPROC"
  shows "hoare (fds (Some i, {i}) V R) sys_open (\<lambda>_. fd_ok) fd_ok"
proof -
  let ?c = "(Some i, {i})"
  have l: "i < length V" using i balancedD(1) [OF b] by simp
  have fail: "hoare (fds ?c V R) (thn (iunlockput ip) (thn end_op (ret (- 1)))) (\<lambda>_. fd_ok) fd_ok" for ip
    by (intro stable_ok b stable_intros)
  have fd: "hoare (new_fd i {i} f V (R[f := (1, FD_NONE)]) fd) (if fd < 0 then thn (fileclose f) (thn (iunlockput ip) (thn end_op (ret (- 1))))
      else thn (open_file f ip omode) (thn (iunlock (Some ip)) (thn end_op (ret fd)))) (\<lambda>_. fd_ok) fd_ok"
    if f: "f < length R" "R ! f = (0, FD_NONE)" for f fd ip omode
  proof (rule new_fd_cases)
    have r: "R[f := (1, FD_NONE), f := (0, FD_NONE)] = R" using f by (simp add: list_update_same_conv)
    have c0: "hoare (fds ?c V (R[f := (1, FD_NONE)])) (fileclose f) (\<lambda>_. fds ?c V (R[f := (1, FD_NONE), f := (0, FD_NONE)])) fd_ok"
      using f by (intro fileclose_fresh) auto
    show "hoare (fds ?c V (R[f := (1, FD_NONE)])) (if fd < 0 then thn (fileclose f) (thn (iunlockput ip) (thn end_op (ret (- 1))))
      else thn (open_file f ip omode) (thn (iunlock (Some ip)) (thn end_op (ret fd)))) (\<lambda>_. fd_ok) fd_ok" if "fd < 0"
      using that by (simp, intro hoare_thn [OF c0 [unfolded r]] fail)
    assume k: "\<not> fd < 0" "nat fd < NOFILE" "V ! i ! nat fd = None"
    let ?V = "put_fd i (nat fd) (Some f) V"
    note bal = balanced_open [OF b i k(2,3) f]
    have "hoare (\<lambda>s. \<exists>ty. fds ?c ?V (R[f := (1, ty)]) s) (thn (iunlock (Some ip)) (thn end_op (ret fd))) (\<lambda>_. fd_ok) fd_ok"
      by (intro hoare_ex stable_ok [OF _ bal] stable_intros)
    then show "hoare (fds ?c ?V (R[f := (1, FD_NONE)])) (if fd < 0 then thn (fileclose f) (thn (iunlockput ip) (thn end_op (ret (- 1))))
      else thn (open_file f ip omode) (thn (iunlock (Some ip)) (thn end_op (ret fd)))) (\<lambda>_. fd_ok) fd_ok"
      using k(1) hoare_thn [OF open_file_fds [OF bal f(1)]] by auto
  qed
  have alloc: "hoare (fds ?c V R) (bnd filealloc (\<lambda>r. case r of None \<Rightarrow> thn (iunlockput ip) (thn end_op (ret (- 1)))
      | Some f \<Rightarrow> bnd (fdalloc f) (\<lambda>fd. if fd < 0 then thn (fileclose f) (thn (iunlockput ip) (thn end_op (ret (- 1))))
         else thn (open_file f ip omode) (thn (iunlock (Some ip)) (thn end_op (ret fd)))))) (\<lambda>_. fd_ok) fd_ok" for ip omode
    by (rule bnd_filealloc [OF typed_balanced [OF b]]; unfold option.case)
      (rule fail, rule hoare_bnd [OF fdalloc_fds], rule l, simp, rule fd)
  have none: "hoare (fds ?c V R) (ret (- 1)) (\<lambda>_. fd_ok) fd_ok" using b by (auto intro: fd_okI)
  show ?thesis unfolding sys_open_def Let_def
  proof (rule bnd_ok [OF stable_fetch(3) b], rule hoare_prod, rule hoare_if, rule none, rule bnd_ok [OF stable_arg(3) b],
      rule thn_ok [OF stable_op(1) b], rule bnd_ok [OF stable_open_inode b])
    fix r :: "nat option" and omode
    show "hoare (fds ?c V R) (case r of None \<Rightarrow> ret (- 1) | Some ip \<Rightarrow> bnd (get_inode ip) (\<lambda>x.
       if i_type x = T_DEVICE \<and> \<not> major_ok (i_major x) then thn (iunlockput ip) (thn end_op (ret (- 1)))
       else bnd filealloc (\<lambda>r. case r of None \<Rightarrow> thn (iunlockput ip) (thn end_op (ret (- 1)))
         | Some f \<Rightarrow> bnd (fdalloc f) (\<lambda>fd. if fd < 0 then thn (fileclose f) (thn (iunlockput ip) (thn end_op (ret (- 1))))
           else thn (open_file f ip omode) (thn (iunlock (Some ip)) (thn end_op (ret fd))))))) (\<lambda>_. fd_ok) fd_ok"
      by (cases r) (auto intro!: none bnd_ok [OF stable_inode(1) b] fail alloc simp del: hoare_ret)
  qed
qed

end
