(* ===== verification/FdProcs.thy ===== *)
theory FdProcs
  imports FdCalls BioCache
begin

text \<open>
  The calls that make and end processes, and the invariant of all system calls: \<open>fork\<close> gives the child a reference for each descriptor
  that it copies, \<open>exit\<close> gives all references of the process back before it is a zombie, and \<open>wait\<close> frees a slot that has none.
\<close>

section \<open>Slots of the process table\<close>

lemma bnd_proc_idle:
  assumes "j < length V" and "\<And>p. p_ofile p = V ! j \<Longrightarrow> (idle p \<longrightarrow> V ! j = replicate NOFILE None \<and> j \<notin> snd c) \<Longrightarrow> hoare (fds c V R) (g p) Q S"
  shows "hoare (fds c V R) (bnd (get_proc j) g) Q S"
proof -
  have "p_ofile (procs s ! j) = V ! j \<and> (idle (procs s ! j) \<longrightarrow> V ! j = replicate NOFILE None \<and> j \<notin> snd c)" if "fds c V R s" for s
    using that assms(1) by (auto simp: fds_def)
  then show ?thesis using assms(2) by (auto simp: hoare_def get_proc_def bnd_def gets_def)
qed

lemma map_ofile_update:
  assumes "\<And>p. p_ofile (f p) = p_ofile p"
  shows "map p_ofile (ps[j := f (ps ! j)]) = map p_ofile ps"
  using assms by (cases "j < length ps") (auto simp: map_update list_update_beyond list_update_same_conv)

text \<open>A slot becomes active, or idle when it has no files.\<close>

lemma activate_fds:
  assumes f: "\<And>p. p_ofile (f p) = p_ofile p \<and> \<not> idle (f p)" and j: "j < length V"
  shows "hoare (fds (c, A) V R) (set_proc j f) (\<lambda>_. fds (c, insert j A) V R) S"
proof -
  have "map p_ofile (ps[j := f (ps ! j)]) = map p_ofile ps" for ps using f by (intro map_ofile_update) blast
  moreover have "idle (ps[j := f (ps ! j)] ! i) \<longrightarrow> i \<noteq> j \<and> idle (ps ! i)" if "i < length ps" for ps i
    using f that by (cases "i = j") auto
  ultimately have e: "fds (c, insert j A) V R (s\<lparr>procs := (procs s)[j := f (procs s ! j)]\<rparr>)" if "fds (c, A) V R s" for s
    using that j by (fastforce simp: fds_def)
  show ?thesis by (simp add: set_proc_def e)
qed

lemma retire_fds:
  assumes f: "\<And>p. p_ofile (f p) = p_ofile p" and V: "V ! j = replicate NOFILE None"
  shows "hoare (fds (c, A) V R) (set_proc j f) (\<lambda>_. fds (c, A - {j}) V R) S"
proof -
  have m: "map p_ofile (ps[j := f (ps ! j)]) = map p_ofile ps" for ps using f by (rule map_ofile_update)
  have e: "fds (c, A - {j}) V R (s\<lparr>procs := (procs s)[j := f (procs s ! j)]\<rparr>)" if s: "fds (c, A) V R s" for s
  proof -
    have "V ! i = replicate NOFILE None" if "i < length V" "idle ((procs s)[j := x] ! i)" for i x
      using that V s by (cases "i = j") (auto simp: fds_def)
    then show ?thesis using s m by (auto simp: fds_def)
  qed
  show ?thesis by (simp add: set_proc_def e)
qed

lemma freeproc_fds:
  assumes b: "balanced V R" and V: "V ! j = replicate NOFILE None"
  shows "hoare (fds (c, A) V R) (freeproc j) (\<lambda>_. fds (c, A - {j}) V R) fd_ok"
  unfolding freeproc_def
  by (intro bnd_ok [OF stable_myproc(2) b] thn_ok [OF _ b] retire_fds V stable_intros) (simp_all add: idle_def)

definition child_slot :: "nat option \<Rightarrow> nat set \<Rightarrow> nat option list list \<Rightarrow> (int \<times> ftype) list \<Rightarrow> nat option \<Rightarrow> 'z fistate_scheme \<Rightarrow> bool" where
  "child_slot c A V R r s \<longleftrightarrow> (case r of None \<Rightarrow> fds (c, A) V R s
     | Some j \<Rightarrow> j < length V \<and> V ! j = replicate NOFILE None \<and> j \<notin> A \<and> fds (c, insert j A) V R s)"

text \<open>A slot that was found.\<close>

definition free_slot :: "nat option \<Rightarrow> nat set \<Rightarrow> nat option list list \<Rightarrow> (int \<times> ftype) list \<Rightarrow> nat option \<Rightarrow> 'z fistate_scheme \<Rightarrow> bool" where
  "free_slot c A V R r s \<longleftrightarrow> (case r of None \<Rightarrow> True | Some j \<Rightarrow> j < length V \<and> V ! j = replicate NOFILE None \<and> j \<notin> A) \<and> fds (c, A) V R s"

lemma allocproc_scan_fds:
  assumes "balanced V R" and "set is \<subseteq> {..<length V}"
  shows "hoare (fds (c, A) V R) (allocproc_scan is) (free_slot c A V R) fd_ok"
  using assms(2)
proof (induction "is")
  case Nil
  then show ?case by (simp add: free_slot_def)
next
  case (Cons j js)
  have j: "j < length V" using Cons.prems by simp
  show ?case unfolding allocproc_scan.simps
  proof (rule thn_ok [OF stable_lock(1) assms(1)], rule bnd_proc_idle [OF j], rule hoare_if)
    fix p
    assume "idle p \<longrightarrow> V ! j = replicate NOFILE None \<and> j \<notin> snd (c, A)" "p_state p = UNUSED"
    then show "hoare (fds (c, A) V R) (ret (Some j)) (free_slot c A V R) fd_ok" using j by (simp add: free_slot_def idle_def)
  qed (rule thn_ok [OF stable_lock(2) assms(1)], use Cons in simp)
qed

lemma allocproc_fds:
  assumes b: "balanced V R"
  shows "hoare (fds (c, A) V R) allocproc (child_slot c A V R) fd_ok"
proof -
  have fail: "hoare (fds (c, insert j A) V R) (thn (freeproc j) (thn (release (ProcLock j)) (ret None))) (child_slot c A V R) fd_ok"
    if "V ! j = replicate NOFILE None" "j \<notin> A" for j
    using that by (intro hoare_thn [OF freeproc_fds [OF b that(1)]] thn_ok [OF stable_lock(2) b]) (simp add: child_slot_def)
  have made: "hoare (fds (c, A) V R) (bnd allocpid (\<lambda>n. thn (set_proc j (\<lambda>p. p\<lparr>p_pid := n\<rparr>)) (thn (set_proc j (\<lambda>p. p\<lparr>p_state := USED\<rparr>))
      (bnd kalloc (\<lambda>tf. thn (set_proc j (\<lambda>p. p\<lparr>p_trapframe := tf\<rparr>))
        (if tf = 0 then thn (freeproc j) (thn (release (ProcLock j)) (ret None))
         else bnd (proc_pagetable j) (\<lambda>pt. thn (set_proc j (\<lambda>p. p\<lparr>p_pagetable := pt\<rparr>))
           (if pt = 0 then thn (freeproc j) (thn (release (ProcLock j)) (ret None))
            else thn (set_proc j (\<lambda>p. p\<lparr>p_context := zero_context\<rparr>))
              (bnd (gets forkret_at) (\<lambda>f. thn (set_proc j (\<lambda>p. p\<lparr>p_context := (p_context p) \<lparr>c_ra := f, c_sp := p_kstack p + PGSIZE\<rparr>\<rparr>))
                 (ret (Some j))))))))))))
    (child_slot c A V R) fd_ok" if j: "j < length V" "V ! j = replicate NOFILE None" "j \<notin> A" for j
    by (rule bnd_ok [OF stable_allocpid b], rule thn_ok [OF stable_set_proc b], simp add: idle_def,
        rule hoare_thn [OF activate_fds], simp add: idle_def, rule j(1), rule bnd_ok [OF _ b], rule stable_intros,
        rule thn_ok [OF stable_set_proc b], simp add: idle_def, rule hoare_if, rule fail [OF j(2,3)],
        rule bnd_ok [OF stable_proc_pagetable(1) b], rule thn_ok [OF stable_set_proc b], simp add: idle_def, rule hoare_if,
        rule fail [OF j(2,3)], rule thn_ok [OF stable_set_proc b], simp add: idle_def, rule bnd_ok [OF stable_gets b],
        rule thn_ok [OF stable_set_proc b], simp add: idle_def) (simp add: child_slot_def j)
  show ?thesis unfolding allocproc_def
  proof (rule hoare_bnd [OF allocproc_scan_fds [OF b]])
    show "set [0..<NPROC] \<subseteq> {..<length V}" using balancedD(1) [OF b] by auto
    fix r
    show "hoare (free_slot c A V R r) (case r of None \<Rightarrow> ret None | Some j \<Rightarrow> bnd allocpid (\<lambda>n. thn (set_proc j (\<lambda>p. p\<lparr>p_pid := n\<rparr>)) (thn (set_proc j (\<lambda>p. p\<lparr>p_state := USED\<rparr>))
      (bnd kalloc (\<lambda>tf. thn (set_proc j (\<lambda>p. p\<lparr>p_trapframe := tf\<rparr>))
        (if tf = 0 then thn (freeproc j) (thn (release (ProcLock j)) (ret None))
         else bnd (proc_pagetable j) (\<lambda>pt. thn (set_proc j (\<lambda>p. p\<lparr>p_pagetable := pt\<rparr>))
           (if pt = 0 then thn (freeproc j) (thn (release (ProcLock j)) (ret None))
            else thn (set_proc j (\<lambda>p. p\<lparr>p_context := zero_context\<rparr>))
              (bnd (gets forkret_at) (\<lambda>f. thn (set_proc j (\<lambda>p. p\<lparr>p_context := (p_context p) \<lparr>c_ra := f, c_sp := p_kstack p + PGSIZE\<rparr>\<rparr>))
                 (ret (Some j)))))))))))) (child_slot c A V R) fd_ok"
      unfolding free_slot_def
      by (rule hoare_pre, cases r, simp add: child_slot_def, simp only: option.case, rule made) simp_all
  qed
qed

section \<open>Fork\<close>

lemma fork_file_fds:
  assumes b: "balanced V R" and i: "i < NPROC" "j < NPROC" "i \<noteq> j" and k: "k < NOFILE" "V ! j ! k = None" and A: "j \<in> A"
  shows "hoare (fds (c, A) V R) (fork_file i j k)
    (\<lambda>_ s. \<exists>V' R'. balanced V' R' \<and> V' ! i = V ! i \<and> (\<forall>m. m \<noteq> k \<longrightarrow> V' ! j ! m = V ! j ! m) \<and> fds (c, A) V' R' s) fd_ok" (is "hoare _ _ ?Q _")
  unfolding fork_file_def
proof (rule bnd_proc)
  have l: "length V = NPROC" "length R = NFILE" using balancedD [OF b] by simp_all
  then show "i < length V" using i by simp
  fix p :: proc
  assume p: "p_ofile p = V ! i"
  show "hoare (fds (c, A) V R) (case p_ofile p ! k of None \<Rightarrow> ret () | Some f \<Rightarrow> bnd (filedup f) (\<lambda>f. set_proc j (\<lambda>np. np\<lparr>p_ofile := (p_ofile np)[k := Some f]\<rparr>)))
      ?Q fd_ok"
  proof (cases "V ! i ! k")
    case None
    then show ?thesis using b p by auto
  next
    case (Some f)
    note f = balancedD(4) [OF b i(1) k(1) Some]
    let ?R = "R[f := (fst (R ! f) + 1, snd (R ! f))]" and ?V = "put_fd j k (Some f) V"
    have bal: "balanced ?V ?R" using balanced_dup [OF b i(2) k] f by simp
    have "hoare (fds (c, A) V ?R) (set_proc j (\<lambda>np. np\<lparr>p_ofile := (p_ofile np)[k := Some f]\<rparr>)) (\<lambda>_. fds (c, A) ?V ?R) fd_ok"
      by (rule set_fd_fds) (simp add: A)
    then have "hoare (fds (c, A) V ?R) (set_proc j (\<lambda>np. np\<lparr>p_ofile := (p_ofile np)[k := Some f]\<rparr>)) ?Q fd_ok"
      by (rule hoare_mono) (use bal i l in \<open>auto intro!: exI [of _ ?V] exI [of _ ?R]\<close>)
    then have "hoare (fds (c, A) V R) (bnd (filedup f) (\<lambda>f. set_proc j (\<lambda>np. np\<lparr>p_ofile := (p_ofile np)[k := Some f]\<rparr>))) ?Q fd_ok"
      by (intro hoare_bnd [OF filedup_fds]) (use f l in \<open>auto intro!: hoare_pre\<close>)
    then show ?thesis using Some p by simp
  qed
qed

lemma fork_files_ok:
  assumes b: "balanced V R" and i: "i < NPROC" "j < NPROC" "i \<noteq> j" and V: "V ! j = replicate NOFILE None" and A: "j \<in> A"
  shows "hoare (fds (c, A) V R) (for_each [0..<NOFILE] (fork_file i j)) (\<lambda>_ s. \<exists>V R. balanced V R \<and> fds (c, A) V R s) fd_ok"
proof -
  let ?I = "\<lambda>k s. \<exists>V' R'. balanced V' R' \<and> V' ! i = V ! i \<and> (\<forall>m. k \<le> m \<and> m < NOFILE \<longrightarrow> V' ! j ! m = None) \<and> fds (c, A) V' R' s"
  have "hoare (?I k) (fork_file i j k) (\<lambda>_. ?I (Suc k)) fd_ok" if "k < NOFILE" for k
  proof (intro hoare_ex hoare_pre)
    fix V' R'
    assume v: "balanced V' R'" "V' ! i = V ! i" "\<forall>m. k \<le> m \<and> m < NOFILE \<longrightarrow> V' ! j ! m = None"
    then have "V' ! j ! k = None" using that by simp
    from fork_file_fds [OF v(1) i that this A]
    show "hoare (fds (c, A) V' R') (fork_file i j k) (\<lambda>_. ?I (Suc k)) fd_ok"
      by (rule hoare_mono) (use v in \<open>auto, metis Suc_leD Suc_n_not_le_n\<close>)
  qed
  then have "hoare (?I 0) (for_each [0..<NOFILE] (fork_file i j)) (\<lambda>_. ?I (length [0..<NOFILE])) fd_ok"
    by (intro hoare_for_each) simp_all
  then show ?thesis
    by (rule hoare_mono, intro exI [of _ V] exI [of _ R]) (use b V in auto)
qed

lemma stable_end:
  assumes "stable f" and "balanced V R" and "set_option c \<subseteq> A"
  shows "hoare (fds (c, A) V R) f (\<lambda>_. fd_ok) fd_ok"
  by (rule hoare_mono [OF stableD [OF assms(1)]]) (use assms in \<open>auto intro: fd_okI\<close>)

lemma fork_ok:
  assumes b: "balanced V R" and i: "i < NPROC"
  shows "hoare (fds (Some i, {i}) V R) fork (\<lambda>_. fd_ok) fd_ok"
  unfolding fork_def
proof (rule bnd_myproc, rule hoare_bnd [OF allocproc_fds [OF b]])
  fix r
  let ?tail = "\<lambda>p j. thn (case p_cwd p of None \<Rightarrow> undef ''idup: null''
                   | Some ip \<Rightarrow> bnd (idup ip) (\<lambda>ip. set_proc j (\<lambda>np. np\<lparr>p_cwd := Some ip\<rparr>)))
             (bnd (get_proc j) (\<lambda>np.
              bnd (lift_option ''safestrcpy'' (safestrcpy (p_name np) (arr (p_name p)) 16)) (\<lambda>nm.
              thn (set_proc j (\<lambda>np. np\<lparr>p_name := nm\<rparr>))
             (thn (release (ProcLock j))
             (thn (acquire WaitLock)
             (thn (set_proc j (\<lambda>np. np\<lparr>p_parent := Some i\<rparr>))
             (thn (release WaitLock)
             (thn (acquire (ProcLock j))
             (thn (set_proc j (\<lambda>np. np\<lparr>p_state := RUNNABLE\<rparr>))
             (thn (release (ProcLock j))
                  (ret (p_pid np))))))))))))"
  have tail: "stable (?tail p j)" for p j by (intro stable_intros) (simp_all add: idle_def)
  let ?rest = "\<lambda>j. bnd (get_proc i) (\<lambda>p. bnd (get_proc j) (\<lambda>np.
       bnd (uvmcopy (p_pagetable p) (p_pagetable np) (p_sz p)) (\<lambda>c.
         if c < 0 then panic ''2''
         else thn (set_proc j (\<lambda>np. np\<lparr>p_sz := p_sz p\<rparr>))
             (thn (modify (\<lambda>s. s\<lparr>mem := memmove (mem s) (p_trapframe np) (p_trapframe p) tf_size\<rparr>))
             (thn (set_tf j (tf_a 0) 0)
             (thn (for_each [0..<NOFILE] (fork_file i j)) (?tail p j)))))))"
  have made: "hoare (fds (Some i, insert j {i}) V R) (?rest j) (\<lambda>_. fd_ok) fd_ok"
    if "j < NPROC" "V ! j = replicate NOFILE None" "j \<noteq> i" for j
  proof (rule bnd_ok [OF stable_myproc(2) b], rule bnd_ok [OF stable_myproc(2) b], rule bnd_ok [OF _ b], rule stable_intros, rule hoare_if,
      rule hoare_end, rule thn_ok [OF stable_set_proc b], simp add: idle_def, rule thn_ok [OF stable_modify b], simp,
      rule thn_ok [OF stable_tf b], rule hoare_thn)
    show "hoare (fds (Some i, insert j {i}) V R) (for_each [0..<NOFILE] (fork_file i j)) (\<lambda>_ s. \<exists>V R. balanced V R \<and> fds (Some i, insert j {i}) V R s) fd_ok"
      using that by (intro fork_files_ok [OF b i]) auto
    show "hoare (\<lambda>s. \<exists>V R. balanced V R \<and> fds (Some i, insert j {i}) V R s) (?tail p j) (\<lambda>_. fd_ok) fd_ok" for p
      by (intro hoare_ex hoare_pre stable_end tail) simp_all
  qed
  have l: "length V = NPROC" using balancedD(1) [OF b] .
  show "hoare (child_slot (Some i) {i} V R r) (case r of None \<Rightarrow> panic ''1'' | Some j \<Rightarrow> ?rest j) (\<lambda>_. fd_ok) fd_ok"
  proof (cases r)
    case (Some j)
    have e: "child_slot (Some i) {i} V R (Some j) = (\<lambda>s. (j < NPROC \<and> V ! j = replicate NOFILE None \<and> j \<noteq> i) \<and> fds (Some i, insert j {i}) V R s)"
      using l by (auto simp: child_slot_def fun_eq_iff)
    show ?thesis unfolding Some option.case e by (rule hoare_pre, rule made) simp_all
  qed simp
qed

section \<open>Exit\<close>

text \<open>
  \<open>exit\<close> closes a file before it clears the descriptor, so the counts are behind by one where closing the file sleeps: nothing
  is said of that state.
\<close>

lemma exit_file_fds:
  assumes b: "balanced V R" and i: "i < NPROC" and k: "k < NOFILE"
  shows "hoare (fds (c, A) V R) (exit_file i k) (\<lambda>_ s. \<exists>V' R'. balanced V' R' \<and> V' ! i = (V ! i)[k := None] \<and> fds (c, A) V' R' s) (\<lambda>_. True)"
    (is "hoare _ _ ?Q _")
  unfolding exit_file_def
proof (rule bnd_proc)
  have l: "i < length V" "length R = NFILE" using balancedD [OF b] i by simp_all
  then show "i < length V" by simp
  fix p :: proc
  assume p: "p_ofile p = V ! i"
  show "hoare (fds (c, A) V R) (case p_ofile p ! k of None \<Rightarrow> ret () | Some f \<Rightarrow> thn (fileclose f) (set_proc i (\<lambda>p. p\<lparr>p_ofile := (p_ofile p)[k := None]\<rparr>)))
      ?Q (\<lambda>_. True)"
  proof (cases "V ! i ! k")
    case None
    then have "(V ! i)[k := None] = V ! i" by (metis list_update_id)
    then show ?thesis using None b p by auto
  next
    case (Some f)
    have f: "f < length R" using balancedD(4) [OF b i k Some] l by simp
    let ?R = "drop_ref f R" and ?V = "put_fd i k None V"
    have "balanced ?V ?R" by (rule balanced_close [OF b i k Some])
    moreover have "?V ! i = (V ! i)[k := None]" using l by (simp add: put_fd_def)
    ultimately have e: "?Q x s" if "fds (c, A) ?V ?R s" for x s using that by blast
    have "hoare (fds (c, A) V R) (thn (fileclose f) (set_proc i (\<lambda>p. p\<lparr>p_ofile := (p_ofile p)[k := None]\<rparr>))) ?Q (\<lambda>_. True)"
      by (rule hoare_thn [OF hoare_mono [OF fileclose_fds [OF f]]], assumption+, simp, rule hoare_mono [OF set_fd_fds [where x = None]])
        (auto intro: e)
    then show ?thesis using Some p by simp
  qed
qed

lemma exit_files_ok:
  assumes b: "balanced V R" and i: "i < NPROC"
  shows "hoare (fds (c, A) V R) (for_each [0..<NOFILE] (exit_file i))
    (\<lambda>_ s. \<exists>V R. (balanced V R \<and> V ! i = replicate NOFILE None) \<and> fds (c, A) V R s) (\<lambda>_. True)"
proof -
  let ?I = "\<lambda>k s. \<exists>V R. (balanced V R \<and> (\<forall>m<k. V ! i ! m = None)) \<and> fds (c, A) V R s"
  have "hoare (?I k) (exit_file i k) (\<lambda>_. ?I (Suc k)) (\<lambda>_. True)" if "k < NOFILE" for k
  proof (intro hoare_ex hoare_pre)
    fix V R
    assume v: "balanced V R \<and> (\<forall>m<k. V ! i ! m = None)"
    have "\<forall>m<Suc k. (V ! i)[k := None] ! m = None"
      using v tables_okD(3) [OF balancedD(3), of V R i] balancedD(1) i that by (auto simp: less_Suc_eq nth_list_update)
    then show "hoare (fds (c, A) V R) (exit_file i k) (\<lambda>_. ?I (Suc k)) (\<lambda>_. True)"
      using v by (intro hoare_mono [OF exit_file_fds [OF _ i that]]) (auto, metis)
  qed
  then have l: "hoare (?I 0) (for_each [0..<NOFILE] (exit_file i)) (\<lambda>_. ?I (length [0..<NOFILE])) (\<lambda>_. True)"
    by (intro hoare_for_each) simp_all
  have e: "V ! i = replicate NOFILE None" if "balanced V R" "\<forall>m<NOFILE. V ! i ! m = None" for V R
    using that tables_okD(3) [OF balancedD(3) [OF that(1)]] balancedD(1) [OF that(1)] i by (intro nth_equalityI) auto
  show ?thesis by (rule hoare_mono [OF l]) (use b in \<open>auto dest: e\<close>)
qed

lemma hoare_weak: "hoare P f Q S \<Longrightarrow> hoare P f Q (\<lambda>_. True)"
  by (erule hoare_mono) simp_all

lemma exit_ok:
  assumes b: "balanced V R" and i: "i < NPROC"
  shows "hoare (fds (Some i, {i}) V R) (exit status) (\<lambda>_. fd_ok) (\<lambda>_. True)"
  unfolding exit_def
proof (rule bnd_myproc, rule hoare_stable_bnd [OF stable_gets], simp, rule hoare_if, simp, rule hoare_thn [OF exit_files_ok [OF b i]],
    intro hoare_ex hoare_pre, elim conjE, rule hoare_weak)
  fix V R
  assume b: "balanced V R" and V: "V ! i = replicate NOFILE None"
  have "hoare (fds (Some i, {i} - {i}) V R) sched (\<lambda>_. fd_ok) fd_ok"
    by (rule hoare_mono [OF sched_hoare]) (use b in \<open>auto intro: fd_okI\<close>)
  note z = thn_ok [OF stable_lock(2) b this]
  show "hoare (fds (Some i, {i}) V R) (thn begin_op (bnd (get_proc i) (\<lambda>p. thn (iput_ptr (p_cwd p))
         (thn end_op (thn (set_proc i (\<lambda>p. p\<lparr>p_cwd := None\<rparr>)) (thn (acquire WaitLock) (thn (reparent i)
         (bnd (get_proc i) (\<lambda>p. thn (wakeup_proc (p_parent p)) (thn (acquire (ProcLock i))
         (thn (set_proc i (\<lambda>p. p\<lparr>p_xstate := status, p_state := ZOMBIE\<rparr>)) (thn (release WaitLock) sched))))))))))))
      (\<lambda>_. fd_ok) fd_ok"
    by (rule thn_ok [OF _ b] bnd_ok [OF _ b] stable_intros hoare_thn [OF retire_fds z] V | simp add: idle_def)+
qed

section \<open>Wait\<close>

lemma wait_scan_fds:
  assumes b: "balanced V R" and i: "i < length V" and A: "c = Some i" "A = {i}" and js: "set js \<subseteq> {..<length V}"
  shows "hoare (fds (c, A) V R) (wait_scan js i addr h) (\<lambda>_. fds (c, A) V R) fd_ok"
  using js
proof (induction js arbitrary: h)
  case (Cons j js)
  then have j: "j < length V" by simp
  have free: "hoare (fds (c, A) V R) (thn (freeproc j) (thn (release (ProcLock j)) (thn (release WaitLock) (ret (Inl pid))))) (\<lambda>_. fds (c, A) V R) fd_ok"
    if "V ! j = replicate NOFILE None" "j \<notin> A" for pid
    by (rule hoare_thn [OF freeproc_fds [OF b that(1)]], intro thn_ok [OF stable_lock(2) b]) (use that in simp)
  have tell: "stable (if addr \<noteq> 0 then bnd (gets (xstate_at j)) (\<lambda>xa. thn (spill32 xa v) (bnd (get_proc i) (\<lambda>p. copyout (p_pagetable p) addr xa 4))) else ret 0)" for v
    by (intro stable_intros)
  show ?case unfolding wait_scan.simps
  proof (rule bnd_proc [OF j], rule hoare_if, rule thn_ok [OF stable_lock(1) b], rule bnd_proc_idle [OF j], rule hoare_if)
    fix np
    assume n: "idle np \<longrightarrow> V ! j = replicate NOFILE None \<and> j \<notin> snd (c, A)" "p_state np = ZOMBIE"
    then have n': "V ! j = replicate NOFILE None" "j \<notin> A" by (simp_all add: idle_def)
    show "hoare (fds (c, A) V R) (let pid = p_pid np in
         bnd (if addr \<noteq> 0
              then bnd (gets (xstate_at j)) (\<lambda>xa. thn (spill32 xa (of_int (p_xstate np)))
                     (bnd (get_proc i) (\<lambda>p. copyout (p_pagetable p) addr xa 4)))
              else ret 0) (\<lambda>r.
           if addr \<noteq> 0 \<and> r < 0
           then thn (release (ProcLock j)) (thn (release WaitLock) (ret (Inl (- 1))))
           else thn (freeproc j)
               (thn (release (ProcLock j)) (thn (release WaitLock) (ret (Inl pid)))))) (\<lambda>_. fds (c, A) V R) fd_ok"
      unfolding Let_def by (rule bnd_ok [OF tell b], rule hoare_if, (rule thn_ok [OF stable_lock(2) b])+, simp, rule free [OF n'])
  qed (rule thn_ok [OF stable_lock(2) b Cons.IH] Cons.IH, use Cons.prems in simp)+
qed simp

lemma wait_ok:
  assumes b: "balanced V R" and i: "i < NPROC"
  shows "hoare (fds (Some i, {i}) V R) (wait addr) (\<lambda>_. fd_ok) fd_ok"
  unfolding wait_def wait_loop_def
proof (rule bnd_myproc, rule thn_ok [OF stable_lock(1) b], rule hoare_bnd [OF wait_scan_fds [OF b]])
  have l: "length V = NPROC" using balancedD(1) [OF b] .
  then show "i < length V" "set [0..<NPROC] \<subseteq> {..<length V}" using i by auto
  show "hoare (fds (Some i, {i}) V R) (case r of Inl v \<Rightarrow> ret v | Inr havekids \<Rightarrow> bnd (get_proc i) (\<lambda>p.
       if \<not> havekids \<or> p_killed p \<noteq> 0 then thn (release WaitLock) (ret (- 1)) else sleep (ChanProc i) WaitLock)) (\<lambda>_. fd_ok) fd_ok" for r
    by (intro stable_ok [OF _ b] stable_intros)
qed simp_all

section \<open>All system calls\<close>

lemma as64_ok: "hoare P f (\<lambda>_. Q) S \<Longrightarrow> hoare P (as64 f) (\<lambda>_. Q) S"
  unfolding as64_def by (erule hoare_bnd) simp

lemma map_of_all: "map_of xs k = Some y \<Longrightarrow> list_all (\<lambda>x. P (fst x) (snd x)) xs \<Longrightarrow> P k y"
  by (drule map_of_SomeD) (simp add: list_all_iff, metis fst_conv snd_conv)

text \<open>What is left of the counts by the call of a number.\<close>

definition call_ok :: "nat \<Rightarrow> nat option list list \<Rightarrow> (int \<times> ftype) list \<Rightarrow> int \<Rightarrow> ('z lifestate_scheme, uint64 option) kfun \<Rightarrow> bool" where
  "call_ok i V R num f \<longleftrightarrow> hoare (fds (Some i, {i}) V R) f (\<lambda>_. fd_ok) (\<lambda>s. num \<noteq> SYS_exit \<longrightarrow> fd_ok s)"

lemma call_okI: "hoare (fds (Some i, {i}) V R) f (\<lambda>_. fd_ok) fd_ok \<Longrightarrow> call_ok i V R num f"
  unfolding call_ok_def by (erule hoare_mono) simp_all

lemma sys_exit_ok:
  assumes "balanced V R" and "i < NPROC"
  shows "call_ok i V R SYS_exit (thn sys_exit (ret None))"
proof -
  have "hoare (fds (Some i, {i}) V R) sys_exit (\<lambda>_. fd_ok) (\<lambda>_. True)"
    unfolding sys_exit_def by (rule hoare_stable_bnd [OF stable_arg(3) _ exit_ok [OF assms]]) simp
  then show ?thesis unfolding call_ok_def by (intro hoare_thn [where R = fd_ok]) simp_all
qed

lemma syscalls_ok:
  assumes b: "balanced V R" and i: "i < NPROC" and f: "syscalls num = Some f"
  shows "call_ok i V R num f"
proof (rule map_of_all [OF f [unfolded syscalls_def]], unfold list.pred_inject fst_conv snd_conv, intro conjI TrueI)
  have w: "hoare (fds (Some i, {i}) V R) sys_wait (\<lambda>_. fd_ok) fd_ok"
    unfolding sys_wait_def by (rule bnd_ok [OF stable_arg(4) b wait_ok [OF b i]])
  show "call_ok i V R SYS_fork (as64 sys_fork)" unfolding sys_fork_def by (intro call_okI as64_ok fork_ok b i)
  show "call_ok i V R SYS_wait (as64 sys_wait)" by (intro call_okI as64_ok w)
  show "call_ok i V R SYS_pipe (as64 sys_pipe)" by (intro call_okI as64_ok sys_pipe_ok b i)
  show "call_ok i V R SYS_dup (as64 sys_dup)" by (intro call_okI as64_ok sys_dup_ok b i)
  show "call_ok i V R SYS_open (as64 sys_open)" by (intro call_okI as64_ok sys_open_ok b i)
  show "call_ok i V R SYS_close (as64 sys_close)" by (intro call_okI as64_ok sys_close_ok b i)
  show "call_ok i V R SYS_exit (thn sys_exit (ret None))" by (rule sys_exit_ok [OF b i])
qed ((rule call_okI, (rule as64_ok)?, rule stable_ok [OF _ b], (intro stable_intros; fail))+, simp)

lemma stable_fd_ok:
  assumes "stable f"
  shows "hoare fd_ok f (\<lambda>_. fd_ok) fd_ok"
proof -
  have "hoare (\<lambda>s. balanced V R \<and> fds (c, set_option c) V R s) f (\<lambda>_. fd_ok) fd_ok" for c V R
    by (intro hoare_pre stable_end assms) simp_all
  then have "hoare (\<lambda>s. \<exists>c V R. balanced V R \<and> fds (c, set_option c) V R s) f (\<lambda>_. fd_ok) fd_ok" by (intro hoare_ex)
  then show ?thesis by (rule hoare_mono) (auto simp: fd_ok_def)
qed

text \<open>The number of the call in the trap frame.\<close>

definition call_number :: "nat \<Rightarrow> 'z pstate_scheme \<Rightarrow> int" where
  "call_number i s = sint (ucast (load64 (mem s) (p_trapframe (procs s ! i) + tf_a 7)) :: uint32)"

lemma hoare_option:
  "(x = None \<Longrightarrow> hoare P f Q S) \<Longrightarrow> (\<And>y. x = Some y \<Longrightarrow> hoare P (g y) Q S) \<Longrightarrow> hoare P (case x of None \<Rightarrow> f | Some y \<Rightarrow> g y) Q S"
  by (cases x) simp_all

lemma bnd_number:
  assumes "\<And>a. sint (ucast a :: uint32) = n \<Longrightarrow> hoare (fds (Some i, {i}) V R) (g a) Q S"
  shows "hoare (\<lambda>s. call_number i s = n \<and> fds (Some i, {i}) V R s) (bnd (get_tf i (tf_a 7)) g) Q S"
  using assms unfolding hoare_def by (auto simp: get_tf_def get_proc_def bnd_def gets_def call_number_def)

lemma syscall_hoare:
  assumes b: "balanced V R" and i: "i < NPROC"
  shows "hoare (\<lambda>s. call_number i s = n \<and> fds (Some i, {i}) V R s) syscall (\<lambda>_. fd_ok) (\<lambda>s. n \<noteq> SYS_exit \<longrightarrow> fd_ok s)"
    (is "hoare ?P _ ?Q ?S")
proof -
  have after: "hoare fd_ok (case r of None \<Rightarrow> ret False | Some v \<Rightarrow> thn (set_tf i (tf_a 0) v) (ret True)) ?Q ?S" for r
    by (rule hoare_mono [OF stable_fd_ok]) (intro stable_intros, simp_all)
  have unknown: "stable (bnd (get_proc i) (\<lambda>p. thn (unknown_call p n) (thn (set_tf i (tf_a 0) (- 1)) (ret True))))"
    unfolding unknown_call_def by (intro stable_intros)
  have "hoare (fds (Some i, {i}) V R) (case syscalls n of
       Some f \<Rightarrow> bnd f (\<lambda>r. case r of None \<Rightarrow> ret False | Some v \<Rightarrow> thn (set_tf i (tf_a 0) v) (ret True))
     | None \<Rightarrow> bnd (get_proc i) (\<lambda>p. thn (unknown_call p n) (thn (set_tf i (tf_a 0) (- 1)) (ret True)))) ?Q ?S"
    by (rule hoare_option, rule hoare_mono [OF stable_ok [OF unknown b]], simp_all only: simp_thms,
        rule hoare_bnd [OF syscalls_ok [OF b i, unfolded call_ok_def] after])
  then have "hoare ?P (bnd (get_tf i (tf_a 7)) (\<lambda>a7. let num = sint (ucast a7 :: uint32) in
     case syscalls num of
       Some f \<Rightarrow> bnd f (\<lambda>r. case r of None \<Rightarrow> ret False | Some v \<Rightarrow> thn (set_tf i (tf_a 0) v) (ret True))
     | None \<Rightarrow> bnd (get_proc i) (\<lambda>p. thn (unknown_call p num) (thn (set_tf i (tf_a 0) (- 1)) (ret True))))) ?Q ?S"
    by (intro bnd_number) (simp add: Let_def)
  then show ?thesis unfolding syscall_def hoare_def by (auto simp: fds_def myproc_def bnd_def gets_def ret_def)
qed

text \<open>C7: Every system call keeps the reference counts of the open files.  If each file has as many references as there are
  descriptors for it in the tables of all processes, and unused slots and zombies have no descriptors, then this is so again when
  \<open>syscall\<close> returns, whichever call it dispatched to and whether that failed, and where the process goes to sleep in it.  The one
  exception is a process that goes to sleep inside \<open>exit\<close>: it closes a file before it clears the descriptor.
\<close>

theorem syscall_fd_refs:
  assumes "fd_ok s" and "cur s = Some i"
  shows "case syscall s of Ret _ t \<Rightarrow> fd_ok t | Sleep _ t \<Rightarrow> call_number i s \<noteq> SYS_exit \<longrightarrow> fd_ok t | _ \<Rightarrow> True"
proof -
  obtain V R where v: "fds (Some i, {i}) V R s" "balanced V R" using assms by (auto simp: fd_ok_def)
  then have "i < NPROC" using balancedD(1) by (auto simp: fds_def)
  from syscall_hoare [OF v(2) this, of "call_number i s"] show ?thesis using v(1) unfolding hoare_def by blast
qed

text \<open>Process 0 runs, with the read end of a pipe as descriptor 0, and calls \<open>dup\<close>.\<close>

definition files0 :: lifestate where
  "files0 = (fistate.extend (fsstate.extend (lstate.extend (bstate.extend cache0 (lstate.fields 2 30 0 0 1 0 (replicate 30 0)))
       (fsstate.fields \<lparr>sb_magic = FSMAGIC, sb_size = 1000, sb_nblocks = 954, sb_ninodes = 200, sb_nlog = 30, sb_logstart = 2, sb_inodestart = 32, sb_bmapstart = 45\<rparr>
         [] (\<lambda>_. 0)))
       (fistate.fields [] ((replicate NFILE \<lparr>f_type = FD_NONE, f_ref = 0, f_readable = 0, f_writable = 0, f_pipe = 0, f_ip = None, f_off = 0, f_major = 0\<rparr>)
          [0 := \<lparr>f_type = FD_PIPE, f_ref = 1, f_readable = 1, f_writable = 0, f_pipe = 0x80100000, f_ip = None, f_off = 0, f_major = 0\<rparr>])))
     (lifestate.fields 0 1 0))
     \<lparr>mem := (\<lambda>_. 0)(tf_a 7 := 10),
      procs := (replicate NPROC unused_proc)[0 := unused_proc\<lparr>p_state := RUNNING, p_pid := 1, p_ofile := (replicate NOFILE None)[0 := Some 0]\<rparr>]\<rparr>"

lemma files0_fields:
  "held files0 = []" "cur files0 = Some 0" "mem files0 = (\<lambda>_. 0)(tf_a 7 := 10)"
  "procs files0 = (replicate NPROC unused_proc)[0 := unused_proc\<lparr>p_state := RUNNING, p_pid := 1, p_ofile := (replicate NOFILE None)[0 := Some 0]\<rparr>]"
  "ftable files0 = (replicate NFILE \<lparr>f_type = FD_NONE, f_ref = 0, f_readable = 0, f_writable = 0, f_pipe = 0, f_ip = None, f_off = 0, f_major = 0\<rparr>)
     [0 := \<lparr>f_type = FD_PIPE, f_ref = 1, f_readable = 1, f_writable = 0, f_pipe = 0x80100000, f_ip = None, f_off = 0, f_major = 0\<rparr>]"
  using cache0_fields(6,7) by (simp_all add: files0_def lifestate.defs fistate.defs fsstate.defs lstate.defs bstate.defs)

lemma files0_ok: "fd_ok files0"
proof -
  let ?V = "(replicate NPROC (replicate NOFILE None))[0 := (replicate NOFILE None)[0 := Some 0]]" and ?R = "(replicate NFILE (0, FD_NONE))[0 := (1, FD_PIPE)]"
  have "fd_count ?V f = (if f = 0 then 1 else 0)" for f
    by (simp add: fd_count_def NPROC_def NOFILE_def numeral_eq_Suc)
  then have b: "balanced ?V ?R" by (auto simp: balanced_def tables_ok_def nth_list_update NPROC_def NOFILE_def NFILE_def)
  have "fds (Some 0, {0}) ?V ?R files0"
    by (auto simp: fds_def files0_fields map_update unused_proc_def idle_def nth_list_update NPROC_def NOFILE_def)
  then show ?thesis by (rule fd_okI [OF _ _ b]) simp
qed

lemma files0_call:
  "\<exists>t. syscall files0 = Ret True t \<and> p_ofile (procs t ! 0) ! 1 = Some 0 \<and> f_ref (ftable t ! 0) = 2"
proof -
  have e: "(8::nat) = Suc (Suc (Suc (Suc (Suc (Suc (Suc (Suc 0)))))))" by simp
  have n: "load64 (mem files0) (tf_a 7) = 10" "load64 (mem files0) (tf_a 0) = 0"
    unfolding load64_def e by (simp_all only: load_le.simps) (simp_all add: files0_fields tf_a_def)
  have p: "p_trapframe (procs files0 ! 0) = 0" "p_ofile (procs files0 ! 0) = (replicate NOFILE None)[0 := Some 0]" "length (procs files0) = NPROC"
    by (simp_all add: files0_fields unused_proc_def NPROC_def)
  have f: "f_ref (ftable files0 ! 0) = 1" "length (ftable files0) = NFILE" by (simp_all add: files0_fields NFILE_def)
  have c: "syscalls 10 = Some (as64 sys_dup)" by (simp add: syscalls_def SYS_defs)
  have fd: "find (\<lambda>fd. (replicate NOFILE None)[0 := Some 0] ! fd = None) [0..<NOFILE] = Some 1"
    by (simp add: NOFILE_def upt_rec)
  note run = bnd_def thn_def gets_def modify_def ret_def get_proc_def set_proc_def get_file_def set_file_def acquire_def release_def
  have m: "myproc files0 = Ret 0 files0" by (simp add: myproc_def run files0_fields(2))
  have a: "get_tf 0 (tf_a 7) files0 = Ret 10 files0" "argfd 0 files0 = Ret (Some (0, 0)) files0"
    by (simp_all add: argfd_def argint_def argraw_def get_tf_def run m n p NOFILE_def)
  let ?s = "files0\<lparr>procs := (procs files0)[0 := (procs files0 ! 0)\<lparr>p_ofile := ((replicate NOFILE None)[0 := Some 0])[Suc 0 := Some 0]\<rparr>]\<rparr>"
  have d: "fdalloc 0 files0 = Ret 1 ?s" by (simp add: fdalloc_def run m p fd)
  have g: "\<exists>t. filedup 0 ?s = Ret 0 t \<and> procs t = procs ?s \<and> f_ref (ftable t ! 0) = 2"
    using f by (simp add: filedup_def run files0_fields(1) NFILE_def)
  then obtain t where t: "filedup 0 ?s = Ret 0 t" "procs t = procs ?s" "f_ref (ftable t ! 0) = 2" by blast
  have "sys_dup files0 = Ret 1 t" by (simp add: sys_dup_def bnd_def thn_def ret_def a d t(1))
  then show ?thesis
    using t(2,3) p(3) by (simp add: syscall_def bnd_def m a c as64_def set_tf_def spill64_def run NPROC_def NOFILE_def)
qed

theorem syscall_fd_refs_witness:
  "\<exists>t. syscall files0 = Ret True t \<and> p_ofile (procs t ! 0) ! 1 = Some 0 \<and> f_ref (ftable t ! 0) = 2 \<and> fd_ok files0 \<and> fd_ok t"
  using files0_call syscall_fd_refs [OF files0_ok files0_fields(2)] files0_ok by auto

end
