(* ===== verification/TrapSafe.thy ===== *)
theory TrapSafe
  imports Trap FdProcs
begin

text \<open>
  What a trap from user space does to the machine before it goes back: on every path through \<open>usertrap\<close>, be it a system call, a
  device or a page fault, user code is entered only with the privilege and the interrupts of user mode set up, traps
  sent to the trampoline, and the trap frame ready for the next trap.
\<close>

unbundle bit_operations_syntax

section \<open>Words of the trap frame\<close>

lemma load64_store64_apart:
  assumes "8 \<le> unat (x - y)" and "8 \<le> unat (y - x)"
  shows "load64 (store64 m (a + x) v) (a + y) = load64 m (a + y)"
  unfolding load64_def store64_def
proof (rule load_le_cong)
  fix b
  assume "in_range (a + y) 8 b"
  then have q: "unat (b - (a + y)) < 8" by (simp add: in_range_def)
  have "\<not> unat (b - (a + x)) < 8"
  proof
    assume p: "unat (b - (a + x)) < 8"
    have "x - y = (b - (a + y)) - (b - (a + x))" "y - x = (b - (a + x)) - (b - (a + y))" by simp_all
    moreover have "unat (v - u) < 8 \<or> unat (u - v) < 8" if "unat u < 8" "unat v < 8" for u v :: uint64
      using that by (cases "u \<le> v") (auto simp: unat_sub word_le_nat_alt)
    ultimately show False using assms p q by (metis not_le)
  qed
  then show "store_le 8 m (a + x) v b = m b" by (intro store_le_other) (simp_all add: in_range_def)
qed simp

lemma tf_apart:
  "load64 (store64 m (a + tf_kernel_hartid) v) (a + tf_kernel_trap) = load64 m (a + tf_kernel_trap)"
  "load64 (store64 m (a + tf_kernel_hartid) v) (a + tf_kernel_sp) = load64 m (a + tf_kernel_sp)"
  "load64 (store64 m (a + tf_kernel_hartid) v) (a + tf_kernel_satp) = load64 m (a + tf_kernel_satp)"
  "load64 (store64 m (a + tf_kernel_trap) v) (a + tf_kernel_sp) = load64 m (a + tf_kernel_sp)"
  "load64 (store64 m (a + tf_kernel_trap) v) (a + tf_kernel_satp) = load64 m (a + tf_kernel_satp)"
  "load64 (store64 m (a + tf_kernel_sp) v) (a + tf_kernel_satp) = load64 m (a + tf_kernel_satp)"
  by (rule load64_store64_apart; simp add: tf_kernel_satp_def tf_kernel_sp_def tf_kernel_trap_def tf_kernel_hartid_def)+

section \<open>Entering user space\<close>

text \<open>The jump to the trampoline with process \<open>i\<close> as it must be.\<close>

definition user_entry :: "'z tstate_scheme \<Rightarrow> after_trap \<Rightarrow> bool" where
  "user_entry s r \<longleftrightarrow> (case r of Enter fn a st \<Rightarrow> (case cur s of None \<Rightarrow> False | Some i \<Rightarrow>
       let p = procs s ! i; tf = (\<lambda>off. load64 (mem s) (p_trapframe p + off)) in
       sstatus s AND SSTATUS_SPP = 0 \<and> sstatus s AND SSTATUS_SPIE \<noteq> 0 \<and> sstatus s AND SSTATUS_SIE = 0 \<and>
       stvec s = TRAMPOLINE + (uservec_at s - trampoline s) \<and> sepc s = tf tf_epc \<and>
       tf tf_kernel_satp = satp s \<and> tf tf_kernel_sp = p_kstack p + PGSIZE \<and> tf tf_kernel_trap = usertrap_at s \<and> tf tf_kernel_hartid = tp_reg s \<and>
       fn = TRAMPOLINE + (userret_at s - trampoline s) \<and> a = TRAPFRAME \<and> st = MAKE_SATP (p_pagetable p)) | _ \<Rightarrow> True)"

lemma sstatus_user:
  fixes x :: uint64
  defines "y \<equiv> ((x AND NOT SSTATUS_SIE) AND NOT SSTATUS_SPP) OR SSTATUS_SPIE"
  shows "y AND SSTATUS_SPP = 0" "y AND SSTATUS_SPIE \<noteq> 0" "y AND SSTATUS_SIE = 0"
proof -
  have b: "bit SSTATUS_SPP n \<longleftrightarrow> n = 8" "bit SSTATUS_SPIE n \<longleftrightarrow> n = 5" "bit SSTATUS_SIE n \<longleftrightarrow> n = 1" for n
    unfolding SSTATUS_SPP_def SSTATUS_SPIE_def SSTATUS_SIE_def bit_push_bit_iff bit_1_iff by auto
  show "y AND SSTATUS_SPP = 0" "y AND SSTATUS_SIE = 0" by (rule bit_eqI, auto simp: y_def bit_simps b)+
  have "bit (y AND SSTATUS_SPIE) 5" by (simp add: y_def bit_simps b)
  then show "y AND SSTATUS_SPIE \<noteq> 0" by auto
qed

lemma SSTATUS_SPIE_nz: "SSTATUS_SPIE \<noteq> 0"
  by (simp add: SSTATUS_SPIE_def)

lemma usertrapret_entry: "usertrapret s = Ret r t \<Longrightarrow> user_entry t r"
  by (auto simp: usertrapret_def myproc_def returns_iff intr_off_def r_sstatus_def w_sstatus_def w_stvec_def w_sepc_def r_satp_def r_tp_def get_tf_def set_tf_def
      get_proc_def spill64_def user_entry_def Let_def sstatus_user tf_apart SSTATUS_SPIE_nz
      split: option.splits)

text \<open>Only \<open>usertrapret\<close> enters user space.\<close>

abbreviation enters :: "('z tstate_scheme, after_trap) kfun \<Rightarrow> bool" where
  "enters f \<equiv> hoare (\<lambda>_. True) f (\<lambda>r t. user_entry t r) (\<lambda>_. True)"

lemma hoare_any: "hoare P f (\<lambda>_ _. True) (\<lambda>_. True)"
  by (rule hoareI) simp_all

lemma enters_bnd: "(\<And>a. enters (g a)) \<Longrightarrow> enters (bnd f g)"
  by (rule hoare_bnd [OF hoare_any])

lemma enters_thn: "enters g \<Longrightarrow> enters (thn f g)"
  by (rule hoare_thn [OF hoare_any])

lemma enters_end: "enters usertrapret" "enters (ret Gone)" "enters (ret Yielded)" "enters (panic e)"
  by (rule hoareI, rule usertrapret_entry) (simp_all add: user_entry_def)

lemmas enters_intros = enters_bnd enters_thn enters_end

lemma enters_usertrap: "enters (usertrap fuel)" "enters usertrap_resume" "enters forkret"
  unfolding usertrap_def usertrap_end_def usertrap_resume_def forkret_def by (intro enters_intros hoare_if)+

text \<open>C8: Whatever the trap was, and also in a process that runs for the first time or again after it gave up the CPU, the kernel goes to
  user space only in user mode: the previous privilege in \<open>sstatus\<close> is user, interrupts are off until \<open>sret\<close> turns them on, traps
  go to the trampoline, \<open>sepc\<close> is the program counter saved in the trap frame of the running process, the trap frame has the
  kernel's page table, stack, handler and hart for the next trap, and the trampoline gets the page table of that process.\<close>

theorem usertrap_user_entry:
  assumes "usertrap fuel s = Ret r t \<or> usertrap_resume s = Ret r t \<or> forkret s = Ret r t"
  shows "user_entry t r"
  using assms hoareD(1) [OF enters_usertrap(1)] hoareD(1) [OF enters_usertrap(2)] hoareD(1) [OF enters_usertrap(3)] by blast

text \<open>An interrupt that no device claims, in the process of \<open>files0\<close>.\<close>

definition trap0 :: tstate where
  "trap0 = lifestate.extend files0 (tstate.fields 0x20 0 0x1000 0 0x8000000000000009 0 0 (\<lambda>_. 0) 0 [] 0x80005000 0x80007000 0x80007090 0x80002000)"

lemma trap0_fields:
  "cur trap0 = Some 0" "sstatus trap0 = 0x20" "scause trap0 = 0x8000000000000009" "plic_at trap0 = (\<lambda>_. 0)" "p_killed (procs trap0 ! 0) = 0"
  using files0_fields by (simp_all add: trap0_def tstate.defs lifestate.defs unused_proc_def NPROC_def)

theorem usertrap_user_entry_witness:
  "\<exists>fn a st t. usertrap 0 trap0 = Ret (Enter fn a st) t \<and> user_entry t (Enter fn a st)"
proof -
  have "\<exists>fn a st t. usertrap 0 trap0 = Ret (Enter fn a st) t"
    by (simp add: usertrap_def usertrap_end_def usertrapret_def devintr_def plic_claim_def cpuid_def myproc_def intr_off_def r_sstatus_def w_sstatus_def w_stvec_def
        w_sepc_def r_sepc_def r_satp_def r_tp_def r_scause_def get_tf_def set_tf_def get_proc_def spill64_def bnd_def thn_def gets_def modify_def ret_def
        trap0_fields SSTATUS_SPP_def UART0_IRQ_def VIRTIO0_IRQ_def)
  then show ?thesis using usertrap_user_entry by blast
qed

end
