(* ===== verification/Spec2Isabelle.thy ===== *)
theory Spec2Isabelle
  imports FsPath LogCrash Fastipc Spinlock Boot TrapSafe
begin

text \<open>
  A verification library for FastIPC: an xv6 kernel for RISC-V (\<open>src/Xv6-Kernel/kernel\<close>) with shared-memory ring buffers
  between processes, and the user library for them (\<open>src/Xv6-Kernel/user\<close>).

  \<^bold>\<open>How the program is modelled.\<close>  A C function of the kernel is a function from a state to an outcome (\<open>Prelude\<close>): it returns a
  value and a state (\<open>Ret\<close>), panics (\<open>Panic\<close>), gives up the CPU on a channel (\<open>Sleep\<close>), or does what C leaves undefined (\<open>Undef\<close>:
  an index out of bounds, a null pointer, signed overflow).  \<open>bnd\<close> and \<open>thn\<close> sequence them.  Machine integers are words of their
  width; \<open>int\<close> is used for the C type \<open>int\<close> where its values are in range or the overflow is written out.  Physical memory is a
  function from addresses to bytes; page tables, the free list, trap frames and the data of processes live in it.
  Each component extends the record of the state by its own variables, in the order
  \<open>kstate\<close> (held locks), \<open>mstate\<close>, \<open>vstate\<close>, \<open>pstate\<close>, \<open>rstate\<close>, \<open>pistate\<close>, \<open>uartstate\<close>, \<open>constate\<close>, \<open>slstate\<close>, \<open>vdstate\<close>, \<open>bstate\<close>, \<open>lstate\<close>,
  \<open>fsstate\<close>, \<open>fistate\<close>, \<open>lifestate\<close>, \<open>tstate\<close>, \<open>bootstate\<close>, and its functions work on any extension.
  Locks are the list of held locks of one hart, which \<open>Spinlock\<close> justifies for several harts.  A function that sleeps ends its run
  with \<open>Sleep\<close>; what the code does after it wakes up is a function of its own, named with \<open>_resume\<close>, where the sleep
  is in the function itself.

  \<^bold>\<open>Theories and sources.\<close>
  \<^item> \<open>Prelude\<close>: words, the kernel monad, held locks, byte memory with little-endian words, C strings as partial functions.
  \<^item> \<open>Riscv\<close>: \<open>param.h\<close>, \<open>memlayout.h\<close> and the paging macros of \<open>riscv.h\<close>; \<open>CString\<close>: \<open>string.c\<close>.
  \<^item> \<open>Kalloc\<close>: \<open>kalloc.c\<close>; \<open>Vm\<close>, \<open>PageTable\<close>, \<open>CopyUser\<close>: \<open>vm.c\<close>; \<open>MemFrame\<close>: what these leave alone.
  \<^item> \<open>Spinlock\<close>: \<open>spinlock.c\<close>; \<open>Sleeplock\<close>: \<open>sleeplock.c\<close>.
  \<^item> \<open>Proc\<close>, \<open>ProcMem\<close>, \<open>ProcLife\<close>: \<open>proc.c\<close> and \<open>proc.h\<close>; \<open>Pipe\<close>: \<open>pipe.c\<close>, its \<open>pipealloc\<close> in \<open>File\<close>.
  \<^item> \<open>Ringbuf\<close>, \<open>RingMap\<close>, \<open>RingOpen\<close>: \<open>ringbuf.c\<close>; \<open>Fastipc\<close>: \<open>user/fastipc.h\<close>.
  \<^item> \<open>RingIndex\<close>: rings with free-running counters, a locale interpreted for the pipes and the serial port.
  \<^item> \<open>Uart\<close>, \<open>Console\<close>: \<open>uart.c\<close>, \<open>console.c\<close>, the locking part of \<open>printf.c\<close>; \<open>Printf\<close>: formatting of both \<open>printf.c\<close>; \<open>Ulib\<close>: \<open>user/ulib.c\<close>.
  \<^item> \<open>Virtio\<close>: \<open>virtio_disk.c\<close>; \<open>Bio\<close>, \<open>BioRun\<close>, \<open>BioOps\<close>, \<open>BlockView\<close>, \<open>BioCache\<close>: \<open>bio.c\<close>; \<open>Log\<close>, \<open>LogRun\<close>, \<open>LogCrash\<close>: \<open>log.c\<close>.
  \<^item> \<open>Fs\<close>, \<open>FsPath\<close>: \<open>fs.c\<close>, \<open>fs.h\<close>; \<open>File\<close>: \<open>file.c\<close>, \<open>file.h\<close>; \<open>Exec\<close>: \<open>exec.c\<close>, \<open>elf.h\<close>.
  \<^item> \<open>SysFile\<close>: \<open>sysfile.c\<close> and the arguments of \<open>syscall.c\<close>; \<open>SysCall\<close>: \<open>sysproc.c\<close> and the dispatcher of \<open>syscall.c\<close>.
  \<^item> \<open>FdFrame\<close>, \<open>FdRefs\<close>, \<open>FdCalls\<close>, \<open>FdProcs\<close>: the reference counts of open files under all system calls.
  \<^item> \<open>Trap\<close>: \<open>trap.c\<close>, \<open>plic.c\<close> and the control registers of \<open>riscv.h\<close>; \<open>TrapSafe\<close>: its property; \<open>Boot\<close>: \<open>start.c\<close>, \<open>main.c\<close>.
\<close>

text \<open>
  \<^bold>\<open>What is shown.\<close>
  \<^item> Memory: the allocator hands out each frame once and takes back only frames (\<open>frame_allocator\<close>, interpreted on \<open>kalloc\<close> and \<open>kfree\<close>);
    mapping, unmapping and walking agree with the abstract map of a page table; copies to and from user space move exactly the
    bytes of the mapped pages, as far as the word loop of \<open>mymemmove\<close> is right.
  \<^item> Rings: a ring is mapped twice in a row and shared between the processes that open it; closing undoes it; the user library keeps
    exact counts.  The theorems also pin down where the code departs from its intent (the ring in entry 0, the creator's flag).
  \<^item> Processes: one running process per hart, no lost wakeup between \<open>sleep\<close> and \<open>wakeup\<close>, allocation, waiting and killing; the list of held
    locks is refined by the interleaved spin locks.
  \<^item> Input and output: pipes are queues, the counters of the console keep their order, formatting fits its buffer and is read back by \<open>atoi\<close>.
  \<^item> Storage: reading and releasing buffers with the order of recycling; \<open>commit\<close> and recovery are atomic for a crash after any
    write to the disk; the path walk ends and visits the elements of the path.
  \<^item> Files: before and after every system call each file has as many references as there are descriptors for it.  \<open>stable\<close> functions keep
    descriptors and counts, and \<open>stable_intros\<close> shows this for the rest of the kernel.
  \<^item> Traps: user space is entered only with the registers of user mode.

  \<^bold>\<open>Bounds.\<close>  Loops over tables recurse over the list of indices.  Loops that count recurse over the number of turns left, and that
  number is the bound of the C loop or one that the loop cannot exceed: \<open>filewrite\<close> gets \<open>n\<close> turns and each writes at least one byte;
  \<open>loadseg\<close> and \<open>isdirempty\<close> get one turn for each page or entry and one more.  The loops that wait for a device (\<open>uartintr\<close>) take a number
  of turns as argument, because the device decides how long they run.

  \<^bold>\<open>Devices.\<close>  The serial port and the interrupt controller are the answers to reads and the list of writes; the disk takes requests from
  the queue as the virtio specification says.  Addresses of code and of kernel data that the linker chooses are fields of the state.

  \<^bold>\<open>Not modelled.\<close>
  \<^item> Assembly (\<open>entry.S\<close>, \<open>kernelvec.S\<close>, \<open>swtch.S\<close>, \<open>trampoline.S\<close>, \<open>initcode.S\<close>): there is no model of the instructions; the C code is
    modelled up to the jump into it.
  \<^item> Interleaving of harts outside \<open>spinlock.c\<close>, and interrupts in the middle of a kernel function.
  \<^item> The TLB and the fences (\<open>sfence_vma\<close>, \<open>__sync_synchronize\<close>).
  \<^item> User programs, tests and \<open>umalloc.c\<close>, which no modelled code calls; \<open>mkfs.c\<close>, which runs on the build host; \<open>ramdisk.c\<close>, which
    the build leaves out and which uses fields that \<open>buf.h\<close> does not have.
  \<^item> The debugging names of locks, and the messages that \<open>ringbuf.c\<close> and \<open>fastipc.h\<close> print.
\<close>

end
